(* ===== verification/Prelude.thy ===== *)
theory Prelude
  imports Main "HOL-Library.Word" "HOL-Library.Char_ord" "HOL-Library.List_Lexorder"
begin

text \<open>
  What every component shares: byte strings and the members of \<open>std::string\<close> and
  \<open>std::string_view\<close> the program calls (\<open>find\<close>, \<open>rfind\<close>, \<open>substr\<close>), the decimal
  printing of \<open>std::to_string\<close>, the C character classes, and signed 64-bit arithmetic
  whose overflow, undefined in C++, is an error value.  A \<open>string\<close> is a list of
  bytes (\<open>char\<close>); \<open>std::string_view::npos\<close> is \<open>None\<close>.
\<close>

named_theorems str_simps \<open>evaluation of the string searches\<close>
named_theorems inv_intros \<open>preservation of invariants by the operations\<close>

subsection \<open>Bytes and line ends\<close>

type_synonym bytes = string

abbreviation CR :: char where "CR \<equiv> CHR 0x0D"
abbreviation LF :: char where "LF \<equiv> CHR 0x0A"
abbreviation TAB :: char where "TAB \<equiv> CHR 0x09"
abbreviation CRLF :: string where "CRLF \<equiv> [CR, LF]"
abbreviation CRLFCRLF :: string where "CRLFCRLF \<equiv> [CR, LF, CR, LF]"

abbreviation byte_val :: "char \<Rightarrow> nat" where "byte_val c \<equiv> of_char c"

definition is_digit :: "char \<Rightarrow> bool" where
  "is_digit c \<longleftrightarrow> 48 \<le> byte_val c \<and> byte_val c \<le> 57"

definition is_alnum :: "char \<Rightarrow> bool" where
  "is_alnum c \<longleftrightarrow> is_digit c \<or> (65 \<le> byte_val c \<and> byte_val c \<le> 90)
     \<or> (97 \<le> byte_val c \<and> byte_val c \<le> 122)"

definition tolower :: "char \<Rightarrow> char" where
  "tolower c = (if 65 \<le> byte_val c \<and> byte_val c \<le> 90 then char_of (byte_val c + 32) else c)"

lemma byte_val_less [simp]: "byte_val c < 256"
  by (metis mod_less_divisor of_char_mod_256 zero_less_numeral)

text \<open>Evaluation of \<open>char_of\<close> on numerals.\<close>

lemmas char_eval = char_of_def bit_Suc_0_iff

subsection \<open>Searching: \<open>find\<close> and \<open>rfind\<close>\<close>

fun find_str :: "'a list \<Rightarrow> 'a list \<Rightarrow> nat option" where
  "find_str pat [] = (if pat = [] then Some 0 else None)"
| "find_str pat (c # cs) =
     (if take (length pat) (c # cs) = pat then Some 0
      else map_option Suc (find_str pat cs))"

definition find_from :: "'a list \<Rightarrow> 'a list \<Rightarrow> nat \<Rightarrow> nat option" where
  "find_from pat s pos =
     (if length s < pos then None else map_option ((+) pos) (find_str pat (drop pos s)))"

definition rfind_char :: "'a \<Rightarrow> 'a list \<Rightarrow> nat option" where
  "rfind_char c s = map_option (\<lambda>k. length s - Suc k) (find_str [c] (rev s))"

definition substr :: "'a list \<Rightarrow> nat \<Rightarrow> nat \<Rightarrow> 'a list" where
  "substr s pos n = take n (drop pos s)"

lemma drop_past_two [simp]: "drop (length l + 2) (l @ a # b # rest) = rest"
  by (induction l) simp_all

lemma length_drop_dropWhile:
  "dropWhile P s \<noteq> [] \<Longrightarrow> length (drop (Suc e) (dropWhile P s)) < length s"
  using length_dropWhile_le [of P s] by (cases "dropWhile P s") auto

lemma find_str_SomeD:
  "find_str pat s = Some i \<Longrightarrow> take (length pat) (drop i s) = pat \<and> i + length pat \<le> length s"
proof (induction pat s arbitrary: i rule: find_str.induct)
  case (1 pat)
  then show ?case by (auto split: if_splits)
next
  case (2 pat c cs)
  show ?case
  proof (cases "take (length pat) (c # cs) = pat")
    case True
    then have "length pat \<le> length (c # cs)"
      by (metis length_take min.cobounded1)
    with True 2(2) show ?thesis by simp
  next
    case False
    with 2 show ?thesis by auto
  qed
qed

lemma find_str_first:
  "find_str pat s = Some i \<Longrightarrow> j < i \<Longrightarrow> take (length pat) (drop j s) \<noteq> pat"
proof (induction pat s arbitrary: i j rule: find_str.induct)
  case (2 pat c cs)
  then show ?case by (cases j) (auto split: if_splits)
qed (auto split: if_splits)

lemma find_str_NoneD: "find_str pat s = None \<Longrightarrow> take (length pat) (drop j s) \<noteq> pat"
proof (induction pat s arbitrary: j rule: find_str.induct)
  case (2 pat c cs)
  then show ?case by (cases j) (auto split: if_splits)
qed (auto split: if_splits)

lemma find_str_skip:
  "p \<notin> set xs \<Longrightarrow> find_str (p # ps) (xs @ ys) = map_option ((+) (length xs)) (find_str (p # ps) ys)"
proof (induction xs)
  case Nil
  show ?case by (cases "find_str (p # ps) ys") simp_all
next
  case (Cons x xs)
  then show ?case by (cases "find_str (p # ps) ys") auto
qed

lemma find_str_here [str_simps]: "pat \<noteq> [] \<Longrightarrow> find_str pat (pat @ ys) = Some 0"
  by (cases pat) auto

lemma find_char_append [str_simps]:
  "c \<notin> set xs \<Longrightarrow> find_str [c] (xs @ c # ys) = Some (length xs)"
  by (simp add: find_str_skip)

lemma find_char_None_iff [str_simps]: "find_str [c] s = None \<longleftrightarrow> c \<notin> set s"
  by (induction s) auto

lemma find_char_SomeE:
  assumes "find_str [c] s = Some i"
  obtains xs ys where "s = xs @ c # ys" and "length xs = i" and "c \<notin> set xs"
proof -
  from assms have "c \<in> set s"
    using find_char_None_iff [of c s] by fastforce
  then obtain xs ys where s: "s = xs @ c # ys" "c \<notin> set xs"
    by (meson split_list_first)
  with assms have "length xs = i" by (simp add: find_char_append)
  with s that show thesis by blast
qed

lemma find_crlf_append [str_simps]:
  "CR \<notin> set xs \<Longrightarrow> find_str CRLF (xs @ CR # LF # ys) = Some (length xs)"
  by (simp add: find_str_skip)

lemma find_str_None [str_simps]: "p \<notin> set s \<Longrightarrow> find_str (p # ps) s = None"
  using find_str_skip [of p s ps "[]"] by simp

lemma rfind_char_None_iff: "rfind_char c s = None \<longleftrightarrow> c \<notin> set s"
  by (simp add: rfind_char_def find_char_None_iff)

lemma rfind_char_append [str_simps]:
  "c \<notin> set ys \<Longrightarrow> rfind_char c (xs @ c # ys) = Some (length xs)"
  using find_char_append [of c "rev ys" "rev xs"] by (simp add: rfind_char_def)

subsection \<open>Decimal printing: \<open>std::to_string\<close>\<close>

definition digit_char :: "nat \<Rightarrow> char" where
  "digit_char d = char_of (48 + d)"

fun string_of_nat :: "nat \<Rightarrow> string" where
  "string_of_nat n =
     (if n < 10 then [digit_char n] else string_of_nat (n div 10) @ [digit_char (n mod 10)])"

declare string_of_nat.simps [simp del]

definition string_of_int :: "int \<Rightarrow> string" where
  "string_of_int i = (if i < 0 then CHR ''-'' # string_of_nat (nat (- i)) else string_of_nat (nat i))"

definition digit_val :: "char \<Rightarrow> int" where
  "digit_val c = int (byte_val c) - 48"

definition decimal_val :: "string \<Rightarrow> int" where
  "decimal_val s = foldl (\<lambda>a c. a * 10 + digit_val c) 0 s"

lemma of_char_digit [simp]: "d < 10 \<Longrightarrow> byte_val (digit_char d) = 48 + d"
  by (simp add: digit_char_def)

lemma is_digit_digit_char [simp]: "d < 10 \<Longrightarrow> is_digit (digit_char d)"
  by (simp add: is_digit_def)

lemma digit_val_digit_char [simp]: "d < 10 \<Longrightarrow> digit_val (digit_char d) = int d"
  by (simp add: digit_val_def)

lemma string_of_nat_digits: "list_all is_digit (string_of_nat n)"
proof (induction n rule: string_of_nat.induct)
  case (1 n)
  then show ?case by (subst string_of_nat.simps) (auto simp del: of_char_digit)
qed

lemma string_of_nat_nonempty [simp]: "string_of_nat n \<noteq> []"
  by (subst string_of_nat.simps) simp

lemma decimal_val_append: "decimal_val (s @ [c]) = decimal_val s * 10 + digit_val c"
  by (simp add: decimal_val_def)

lemma decimal_val_string_of_nat [simp]: "decimal_val (string_of_nat n) = int n"
proof (induction n rule: string_of_nat.induct)
  case (1 n)
  show ?case
  proof (cases "n < 10")
    case True
    then show ?thesis by (subst string_of_nat.simps) (simp add: decimal_val_def)
  next
    case False
    then have "decimal_val (string_of_nat n) = int (n div 10) * 10 + int (n mod 10)"
      using 1 by (subst string_of_nat.simps) (simp add: decimal_val_append)
    then show ?thesis by (simp add: zdiv_int zmod_int)
  qed
qed

lemma length_string_of_nat: "n < 10 ^ w \<Longrightarrow> 0 < w \<Longrightarrow> length (string_of_nat n) \<le> w"
proof (induction w arbitrary: n)
  case (Suc w)
  show ?case
  proof (cases "n < 10")
    case True
    then show ?thesis by (subst string_of_nat.simps) simp
  next
    case False
    with Suc.prems have w: "0 < w" by (cases w) auto
    have "n div 10 < 10 ^ w" using Suc.prems by (simp add: div_less_iff_less_mult mult.commute)
    from Suc.IH [OF this w] show ?thesis using False by (subst string_of_nat.simps) simp
  qed
qed simp

lemma not_in_string_of_nat: "\<not> is_digit c \<Longrightarrow> c \<notin> set (string_of_nat n)"
  using string_of_nat_digits [of n] by (auto simp: list_all_iff)

subsection \<open>Signed 64-bit arithmetic\<close>

text \<open>
  Undefined behaviour of C++ is an error value.  A computation that would leave the range of
  \<open>long\<close>/\<open>off_t\<close> yields \<open>Inl Signed_Overflow\<close>, an index outside a vector
  \<open>Inl Out_Of_Bounds\<close>, a member call through a null pointer \<open>Inl Null_Pointer\<close>.
\<close>

datatype undefined_behaviour = Signed_Overflow | Out_Of_Bounds | Null_Pointer

type_synonym 'a cpp = "undefined_behaviour + 'a"

definition off_min :: int where "off_min = - (2 ^ 63)"
definition off_max :: int where "off_max = 2 ^ 63 - 1"

definition chk64 :: "int \<Rightarrow> int cpp" where
  "chk64 x = (if off_min \<le> x \<and> x \<le> off_max then Inr x else Inl Signed_Overflow)"

lemma chk64_Inr [simp]: "chk64 x = Inr y \<longleftrightarrow> off_min \<le> x \<and> x \<le> off_max \<and> y = x"
  by (auto simp: chk64_def)

lemma chk64_Inl [simp]: "chk64 x = Inl e \<longleftrightarrow> e = Signed_Overflow \<and> (x < off_min \<or> off_max < x)"
  by (auto simp: chk64_def)


lemma map_sum_Inr_iff: "map_sum f g s = Inr y \<longleftrightarrow> (\<exists>x. s = Inr x \<and> y = g x)"
  by (cases s) auto

end
