(* ===== verification/System_Calls.thy ===== *)
theory System_Calls
  imports Prelude
begin

text \<open>
  The calls into the kernel and into OpenSSL that a connection makes while one event is
  handled.  They are not part of the program: the record \<open>io\<close> holds their answers, as
  functions of what the code passes, and \<open>io_ok\<close> states what their manual pages promise about
  the counts.  A handler makes each of these calls at most once with the same arguments.
  What a handler does to the outside is the list of its effects.
\<close>

subsection \<open>Answers\<close>

text \<open>A call that sets \<open>errno\<close>: its value, \<open>EAGAIN\<close>/\<open>EWOULDBLOCK\<close>, or another error.\<close>

datatype 'a sys = Sys_OK 'a | Sys_EAGAIN | Sys_Error

text \<open>An OpenSSL call: a positive answer, or the answer of \<open>SSL_get_error\<close>.\<close>

datatype 'a ssl = Ssl_OK 'a | Ssl_Want_Read | Ssl_Want_Write | Ssl_Error

text \<open>\<open>sendfile\<close>: 0 or -1 with \<open>EAGAIN\<close>, each with the count of bytes sent, or an error.\<close>

datatype sendfile_result = Sf_Done nat | Sf_EAGAIN nat | Sf_Error

text \<open>
  An SSL object is a number.  The arguments are as in the code: \<open>recv\<close> and \<open>SSL_accept\<close> take
  the socket, \<open>read\<close> the socket and the room, \<open>write\<close> the socket and the bytes, \<open>sendfile\<close> the
  file, the socket, the offset and the count, \<open>pread\<close> the file, the room and the offset.
\<close>

record io =
  io_now :: int
  io_time :: int
  io_recv_peek :: "int \<Rightarrow> string sys"
  io_read :: "int \<Rightarrow> nat \<Rightarrow> string sys"
  io_write :: "int \<Rightarrow> string \<Rightarrow> nat sys"
  io_sendfile :: "int \<Rightarrow> int \<Rightarrow> int \<Rightarrow> int \<Rightarrow> sendfile_result"
  io_pread :: "int \<Rightarrow> nat \<Rightarrow> int \<Rightarrow> string sys"
  io_ssl_accept :: "nat option \<Rightarrow> unit ssl"
  io_ssl_read :: "nat \<Rightarrow> nat \<Rightarrow> string ssl"
  io_ssl_write :: "nat \<Rightarrow> string \<Rightarrow> nat ssl"

subsection \<open>Effects\<close>

datatype effect =
  E_Shutdown int | E_Close int | E_Ssl_Shutdown nat | E_Ssl_Free nat
| E_Send int string | E_Ssl_Send nat string | E_Sendfile int int int nat
| E_Accept int | E_Open int | E_Ssl_New nat

text \<open>The bytes that reached the peer, given what the open files hold.\<close>

fun effect_bytes :: "(int \<Rightarrow> string) \<Rightarrow> effect \<Rightarrow> string" where
  "effect_bytes content (E_Send fd bs) = bs"
| "effect_bytes content (E_Ssl_Send s bs) = bs"
| "effect_bytes content (E_Sendfile file fd off n) = take n (drop (nat off) (content file))"
| "effect_bytes content _ = []"

definition sent_bytes :: "(int \<Rightarrow> string) \<Rightarrow> effect list \<Rightarrow> string" where
  "sent_bytes content es = concat (map (effect_bytes content) es)"

lemma sent_bytes_simps [simp]:
  "sent_bytes content [] = []"
  "sent_bytes content (e # es) = effect_bytes content e @ sent_bytes content es"
  "sent_bytes content (es @ es') = sent_bytes content es @ sent_bytes content es'"
  by (simp_all add: sent_bytes_def)

text \<open>The descriptors and the SSL objects that were obtained, and those given back.\<close>

fun opened_fds :: "effect list \<Rightarrow> int list" where
  "opened_fds [] = []"
| "opened_fds (E_Open fd # es) = fd # opened_fds es"
| "opened_fds (E_Accept fd # es) = fd # opened_fds es"
| "opened_fds (_ # es) = opened_fds es"

fun closed_fds :: "effect list \<Rightarrow> int list" where
  "closed_fds [] = []"
| "closed_fds (E_Close fd # es) = fd # closed_fds es"
| "closed_fds (_ # es) = closed_fds es"

fun created_ssl :: "effect list \<Rightarrow> nat list" where
  "created_ssl [] = []"
| "created_ssl (E_Ssl_New s # es) = s # created_ssl es"
| "created_ssl (_ # es) = created_ssl es"

fun freed_ssl :: "effect list \<Rightarrow> nat list" where
  "freed_ssl [] = []"
| "freed_ssl (E_Ssl_Free s # es) = s # freed_ssl es"
| "freed_ssl (_ # es) = freed_ssl es"

lemma closed_fds_append [simp]: "closed_fds (es @ es') = closed_fds es @ closed_fds es'"
  by (induction es rule: closed_fds.induct) simp_all

lemma opened_fds_append [simp]: "opened_fds (es @ es') = opened_fds es @ opened_fds es'"
  by (induction es rule: opened_fds.induct) simp_all

lemma created_ssl_append [simp]: "created_ssl (es @ es') = created_ssl es @ created_ssl es'"
  by (induction es rule: created_ssl.induct) simp_all

lemma freed_ssl_append [simp]: "freed_ssl (es @ es') = freed_ssl es @ freed_ssl es'"
  by (induction es rule: freed_ssl.induct) simp_all

subsection \<open>What the calls promise\<close>

text \<open>
  No call reads or writes more than it is asked to, and \<open>SSL_read\<close> and \<open>SSL_write\<close> answer a
  positive count when they succeed.
\<close>

definition io_ok :: "io \<Rightarrow> bool" where
  "io_ok io \<longleftrightarrow>
     (\<forall>fd n bs. io_read io fd n = Sys_OK bs \<longrightarrow> length bs \<le> n)
     \<and> (\<forall>fd bs n. io_write io fd bs = Sys_OK n \<longrightarrow> n \<le> length bs)
     \<and> (\<forall>s n bs. io_ssl_read io s n = Ssl_OK bs \<longrightarrow> length bs \<le> n \<and> bs \<noteq> [])
     \<and> (\<forall>s bs n. io_ssl_write io s bs = Ssl_OK n \<longrightarrow> n \<le> length bs \<and> 0 < n)
     \<and> (\<forall>file fd off cnt n. 0 < cnt \<and>
          (io_sendfile io file fd off cnt = Sf_Done n \<or> io_sendfile io file fd off cnt = Sf_EAGAIN n)
          \<longrightarrow> int n \<le> cnt)
     \<and> (\<forall>file n off bs. io_pread io file n off = Sys_OK bs \<longrightarrow> length bs \<le> n)"

text \<open>
  The files are regular and do not change while they are sent: \<open>pread\<close> reads their bytes, and
  \<open>sendfile\<close> answers 0 only when it has sent the whole count or reached the end of the file.
\<close>

definition files_ok :: "(int \<Rightarrow> string) \<Rightarrow> io \<Rightarrow> bool" where
  "files_ok content io \<longleftrightarrow>
     (\<forall>file n off bs. io_pread io file n off = Sys_OK bs \<longrightarrow> bs = take (length bs) (drop (nat off) (content file)))
     \<and> (\<forall>file fd off cnt n. 0 < cnt \<and> io_sendfile io file fd off cnt = Sf_Done n
          \<longrightarrow> int n = cnt \<or> length (content file) \<le> nat off + n)"

lemma io_okD:
  assumes "io_ok io"
  shows "io_read io fd k = Sys_OK bs \<Longrightarrow> length bs \<le> k"
    and "io_write io fd out = Sys_OK n \<Longrightarrow> n \<le> length out"
    and "io_ssl_read io s k = Ssl_OK bs \<Longrightarrow> length bs \<le> k"
    and "io_ssl_read io s k = Ssl_OK bs \<Longrightarrow> bs \<noteq> []"
    and "io_ssl_write io s out = Ssl_OK n \<Longrightarrow> n \<le> length out"
    and "io_ssl_write io s out = Ssl_OK n \<Longrightarrow> 0 < n"
    and "0 < cnt \<Longrightarrow> io_sendfile io file fd off cnt = Sf_Done n \<Longrightarrow> int n \<le> cnt"
    and "0 < cnt \<Longrightarrow> io_sendfile io file fd off cnt = Sf_EAGAIN n \<Longrightarrow> int n \<le> cnt"
    and "io_pread io file k off = Sys_OK bs \<Longrightarrow> length bs \<le> k"
  using assms unfolding io_ok_def by - (metis)+

lemma files_okD:
  assumes "files_ok content io"
  shows "io_pread io file k off = Sys_OK bs \<Longrightarrow> bs = take (length bs) (drop (nat off) (content file))"
    and "0 < cnt \<Longrightarrow> io_sendfile io file fd off cnt = Sf_Done n \<Longrightarrow> int n = cnt \<or> length (content file) \<le> nat off + n"
  using assms unfolding files_ok_def by - (metis)+

subsection \<open>A system with no data and full buffers, and one that takes everything\<close>

text \<open>Concrete answers for the examples of the other theories.\<close>

definition io_idle :: io where
  "io_idle = \<lparr>io_now = 0, io_time = 0, io_recv_peek = \<lambda>_. Sys_EAGAIN, io_read = \<lambda>_ _. Sys_EAGAIN,
     io_write = \<lambda>_ _. Sys_EAGAIN, io_sendfile = \<lambda>_ _ _ _. Sf_EAGAIN 0, io_pread = \<lambda>_ _ _. Sys_Error,
     io_ssl_accept = \<lambda>_. Ssl_Want_Read, io_ssl_read = \<lambda>_ _. Ssl_Want_Read,
     io_ssl_write = \<lambda>_ _. Ssl_Want_Write\<rparr>"

definition io_input :: "string \<Rightarrow> io" where
  "io_input input = io_idle\<lparr>io_recv_peek := \<lambda>_. Sys_OK (take 1 input), io_read := \<lambda>_ n. Sys_OK (take n input),
     io_write := \<lambda>_ bs. Sys_OK (length bs), io_sendfile := \<lambda>_ _ _ n. Sf_Done (nat n)\<rparr>"

lemma io_idle_ok [simp]: "io_ok io_idle" "files_ok content io_idle"
  by (auto simp: io_ok_def files_ok_def io_idle_def)

end
