(* ===== verification/Http_Request.thy ===== *)
theory Http_Request
  imports Prelude
begin

text \<open>
  \<open>src/http/http_request.{h,cpp}\<close>: the request parser.  The class \<open>HttpRequest\<close> is the
  record \<open>http_request\<close>; \<open>parse\<close>, \<open>header\<close>, \<open>is_keep_alive\<close>, \<open>parse_range\<close> and \<open>reset\<close> are
  the functions below.  \<open>strptime\<close> and \<open>timegm\<close>, which \<open>parse_if_modified_since\<close> calls, are
  parameters.  The loop over the header block keeps the suffix of the block that starts at
  the index \<open>pos\<close> of the code.
\<close>

subsection \<open>The state of a request\<close>

datatype http_method = GET | HEAD | UNKNOWN

record http_request =
  rq_method :: http_method
  rq_raw_method :: string
  rq_path :: string
  rq_version :: string
  rq_headers :: "(string \<times> string) list"

definition request_init :: http_request where
  "request_init = \<lparr>rq_method = UNKNOWN, rq_raw_method = [], rq_path = [], rq_version = [],
     rq_headers = []\<rparr>"

definition request_reset :: "http_request \<Rightarrow> http_request" where
  "request_reset r = r\<lparr>rq_method := UNKNOWN, rq_raw_method := [], rq_path := [],
     rq_version := [], rq_headers := []\<rparr>"

subsection \<open>Parsing\<close>

definition method_of :: "string \<Rightarrow> http_method" where
  "method_of s = (if s = ''GET'' then GET else if s = ''HEAD'' then HEAD else UNKNOWN)"

definition header_colon :: "string \<Rightarrow> nat option" where
  "header_colon line =
     (case find_str '': '' line of Some i \<Rightarrow> Some i | None \<Rightarrow> find_str '':'' line)"

definition parse_header_line :: "string \<Rightarrow> (string \<times> string) option" where
  "parse_header_line line =
     (case header_colon line of
        None \<Rightarrow> None
      | Some colon \<Rightarrow>
          (let name = take colon line;
               value = dropWhile (\<lambda>c. c = CHR '' '' \<or> c = TAB) (drop (colon + 1) line)
           in Some (map tolower name, value)))"

function parse_headers :: "string \<Rightarrow> (string \<times> string) list" where
  "parse_headers block =
     (if block = [] then []
      else case find_str CRLF block of
             None \<Rightarrow> []
           | Some eol \<Rightarrow>
               (case parse_header_line (take eol block) of
                  None \<Rightarrow> parse_headers (drop (eol + 2) block)
                | Some h \<Rightarrow> h # parse_headers (drop (eol + 2) block)))"
  by pat_completeness auto
termination
  by (relation "measure length") auto

declare parse_headers.simps [simp del]

definition parse_request :: "http_request \<Rightarrow> string \<Rightarrow> bool \<times> http_request" where
  "parse_request r0 raw =
     (let r = request_reset r0 in
      case find_str CRLFCRLF raw of
        None \<Rightarrow> (False, r)
      | Some crlfcrlf \<Rightarrow>
      let header_block = take crlfcrlf raw in
      case find_str CRLF header_block of
        None \<Rightarrow> (False, r)
      | Some first_lf \<Rightarrow>
      let request_line = take first_lf header_block in
      case find_str '' '' request_line of
        None \<Rightarrow> (False, r)
      | Some sp1 \<Rightarrow>
      let raw_method = take sp1 request_line;
          r = r\<lparr>rq_raw_method := raw_method, rq_method := method_of raw_method\<rparr> in
      case find_from '' '' request_line (sp1 + 1) of
        None \<Rightarrow> (False, r)
      | Some sp2 \<Rightarrow>
          (True, r\<lparr>rq_path := substr request_line (sp1 + 1) (sp2 - sp1 - 1),
                   rq_version := drop (sp2 + 1) request_line,
                   rq_headers := parse_headers (drop (first_lf + 2) header_block)\<rparr>))"

subsection \<open>Queries on a parsed request\<close>

definition header :: "http_request \<Rightarrow> string \<Rightarrow> string" where
  "header r name = (case map_of (rq_headers r) name of Some v \<Rightarrow> v | None \<Rightarrow> [])"

definition is_keep_alive :: "http_request \<Rightarrow> bool" where
  "is_keep_alive r =
     (let conn = header r ''connection'' in
      if rq_version r = ''HTTP/1.1'' then conn \<noteq> ''close'' else conn = ''keep-alive'')"

text \<open>The digit loops: \<open>None\<close> is the early return at a character that is no digit.\<close>

fun digit_loop :: "int \<Rightarrow> string \<Rightarrow> int option cpp" where
  "digit_loop acc [] = Inr (Some acc)"
| "digit_loop acc (c # cs) =
     (if \<not> is_digit c then Inr None
      else case chk64 (acc * 10) of
             Inl e \<Rightarrow> Inl e
           | Inr m \<Rightarrow>
               (case chk64 (m + digit_val c) of Inl e \<Rightarrow> Inl e | Inr a \<Rightarrow> digit_loop a cs))"

definition range_checks :: "int \<Rightarrow> int \<Rightarrow> int \<Rightarrow> (int \<times> int) option" where
  "range_checks file_size start end =
     (if file_size \<le> start \<or> end < start then None
      else Some (start, if file_size \<le> end then file_size - 1 else end))"

definition suffix_range :: "int \<Rightarrow> string \<Rightarrow> (int \<times> int) option cpp" where
  "suffix_range file_size end_str =
     (case digit_loop 0 end_str of
        Inl e \<Rightarrow> Inl e
      | Inr None \<Rightarrow> Inr None
      | Inr (Some suffix) \<Rightarrow>
          if suffix \<le> 0 then Inr None
          else Inr (range_checks file_size
                 (if file_size - suffix < 0 then 0 else file_size - suffix) (file_size - 1)))"

definition interval_range :: "int \<Rightarrow> string \<Rightarrow> string \<Rightarrow> (int \<times> int) option cpp" where
  "interval_range file_size start_str end_str =
     (case digit_loop 0 start_str of
        Inl e \<Rightarrow> Inl e
      | Inr None \<Rightarrow> Inr None
      | Inr (Some start) \<Rightarrow>
          if end_str = [] then Inr (range_checks file_size start (file_size - 1))
          else (case digit_loop 0 end_str of
                  Inl e \<Rightarrow> Inl e
                | Inr None \<Rightarrow> Inr None
                | Inr (Some end) \<Rightarrow> Inr (range_checks file_size start end)))"

definition parse_range :: "http_request \<Rightarrow> int \<Rightarrow> (int \<times> int) option cpp" where
  "parse_range r file_size =
     (let range_hdr = header r ''range'' in
      if range_hdr = [] then Inr None
      else if length range_hdr < 7 \<or> take 6 range_hdr \<noteq> ''bytes='' then Inr None
      else let val = drop 6 range_hdr in
      case find_str ''-'' val of
        None \<Rightarrow> Inr None
      | Some dash \<Rightarrow>
          (let start_str = take dash val; end_str = drop (dash + 1) val in
           if start_str = [] then suffix_range file_size end_str
           else interval_range file_size start_str end_str))"

text \<open>
  \<open>strptime\<close> with the format \<open>%a, %d %b %Y %H:%M:%S %Z\<close> and \<open>timegm\<close> are the parameters
  \<open>strptime_gmt\<close> (\<open>None\<close> for a null result) and \<open>timegm\<close>; \<open>'tm\<close> is the \<open>struct tm\<close>.
\<close>

definition parse_if_modified_since ::
  "(string \<Rightarrow> 'tm option) \<Rightarrow> ('tm \<Rightarrow> int) \<Rightarrow> http_request \<Rightarrow> int option" where
  "parse_if_modified_since strptime_gmt timegm r =
     (let val = header r ''if-modified-since'' in
      if val = [] then None
      else case strptime_gmt val of None \<Rightarrow> None | Some tm \<Rightarrow> Some (timegm tm))"

subsection \<open>Lemmas on the reset and the lookup\<close>

lemma request_reset_eq [simp]: "request_reset r = request_init"
  by (simp add: request_reset_def request_init_def)

lemma request_init_simps [simp]:
  "rq_method request_init = UNKNOWN" "rq_headers request_init = []"
  "rq_path request_init = []" "rq_version request_init = []" "rq_raw_method request_init = []"
  by (simp_all add: request_init_def)

lemma header_present: "map_of (rq_headers r) name = Some v \<Longrightarrow> header r name = v"
  by (simp add: header_def)

lemma header_absent: "name \<notin> fst ` set (rq_headers r) \<Longrightarrow> header r name = []"
  by (simp add: header_def map_of_eq_None_iff [THEN iffD2])

subsection \<open>The header loop on a block of lines\<close>

definition lines_block :: "string list \<Rightarrow> string" where
  "lines_block ls = concat (map (\<lambda>l. l @ CRLF) ls)"

lemma lines_block_simps [simp]:
  "lines_block [] = []" "lines_block (l # ls) = l @ CR # LF # lines_block ls"
  by (simp_all add: lines_block_def)

lemma lines_block_append [simp]: "lines_block (xs @ ys) = lines_block xs @ lines_block ys"
  by (simp add: lines_block_def)

lemma parse_headers_step:
  assumes "CR \<notin> set l"
  shows "parse_headers (l @ CR # LF # rest) =
    (case parse_header_line l of None \<Rightarrow> parse_headers rest | Some h \<Rightarrow> h # parse_headers rest)"
  by (subst parse_headers.simps) (simp add: find_crlf_append [OF assms] split: option.split)

lemma parse_headers_unterminated: "CR \<notin> set l \<Longrightarrow> parse_headers l = []"
  by (subst parse_headers.simps) (simp add: find_str_None)

lemma parse_headers_block:
  "\<forall>l \<in> set ls. CR \<notin> set l \<Longrightarrow> CR \<notin> set last_line \<Longrightarrow>
   parse_headers (lines_block ls @ last_line) = List.map_filter parse_header_line ls"
proof (induction ls)
  case Nil
  then show ?case by (simp add: parse_headers_unterminated map_filter_simps)
next
  case (Cons l ls)
  then show ?case
    by (simp add: parse_headers_step map_filter_simps split: option.split)
qed

subsection \<open>Rendered requests\<close>

text \<open>
  The specification side: a request as a client writes it, and the conditions under which
  its parts cannot be confused with the separators.
\<close>

definition render_header :: "string \<times> string \<Rightarrow> string" where
  "render_header h = fst h @ '': '' @ snd h"

definition render_request ::
  "string \<Rightarrow> string \<Rightarrow> string \<Rightarrow> (string \<times> string) list \<Rightarrow> string" where
  "render_request m p v hs =
     lines_block ((m @ '' '' @ p @ '' '' @ v) # map render_header hs) @ CRLF"

definition plain_token :: "string \<Rightarrow> bool" where
  "plain_token s \<longleftrightarrow> CR \<notin> set s \<and> CHR '' '' \<notin> set s"

definition plain_header :: "string \<times> string \<Rightarrow> bool" where
  "plain_header h \<longleftrightarrow> CR \<notin> set (fst h) \<and> CHR '':'' \<notin> set (fst h) \<and> CR \<notin> set (snd h)
     \<and> (snd h = [] \<or> hd (snd h) \<noteq> CHR '' '' \<and> hd (snd h) \<noteq> TAB)"

definition stored_header :: "string \<times> string \<Rightarrow> string \<times> string" where
  "stored_header h = (map tolower (fst h), snd h)"

lemma parse_header_line_render:
  assumes "plain_header h"
  shows "parse_header_line (render_header h) = Some (stored_header h)"
proof -
  have "find_str '': '' (fst h @ '': '' @ snd h) = Some (length (fst h))"
    using assms by (simp add: find_str_skip plain_header_def)
  then have "header_colon (render_header h) = Some (length (fst h))"
    by (simp add: header_colon_def render_header_def)
  moreover have "dropWhile (\<lambda>c. c = CHR '' '' \<or> c = TAB) (snd h) = snd h"
    using assms by (cases "snd h") (auto simp: plain_header_def)
  ultimately show ?thesis
    by (simp add: parse_header_line_def stored_header_def render_header_def)
qed

lemma map_filter_render:
  "\<forall>h \<in> set hs. plain_header h \<Longrightarrow>
   List.map_filter parse_header_line (map render_header hs) = map stored_header hs"
  by (induction hs) (simp_all add: map_filter_simps parse_header_line_render)

lemma find_crlfcrlf_block:
  "ls \<noteq> [] \<Longrightarrow> \<forall>l \<in> set ls. l \<noteq> [] \<and> CR \<notin> set l \<Longrightarrow>
   find_str CRLFCRLF (lines_block ls @ CR # LF # rest)
     = Some (length (lines_block (butlast ls)) + length (last ls))"
proof (induction ls)
  case (Cons l ls)
  show ?case
  proof (cases ls)
    case Nil
    with Cons.prems show ?thesis by (simp add: find_str_skip)
  next
    case (Cons l2 ls2)
    then obtain c l2' where "l2 = c # l2'" "c \<noteq> CR"
      using Cons.prems by (cases l2) auto
    with Cons Cons.IH Cons.prems show ?thesis by (simp add: find_str_skip)
  qed
qed simp

lemma lines_block_last:
  "ls \<noteq> [] \<Longrightarrow> lines_block ls = lines_block (butlast ls) @ last ls @ CRLF"
  by (induction ls) auto

lemma take_header_block:
  "ls \<noteq> [] \<Longrightarrow>
   take (length (lines_block (butlast ls)) + length (last ls)) (lines_block ls @ rest)
     = lines_block (butlast ls) @ last ls"
  by (simp add: lines_block_last [of ls])

lemma request_line_split:
  assumes "plain_token m" and "plain_token p"
  shows "find_str '' '' (m @ '' '' @ p @ '' '' @ v) = Some (length m)"
    and "find_from '' '' (m @ '' '' @ p @ '' '' @ v) (length m + 1) = Some (length m + 1 + length p)"
  using assms by (simp_all add: plain_token_def find_from_def find_str_skip)

lemma parse_request_block:
  assumes m: "plain_token m" and p: "plain_token p" and v: "CR \<notin> set v"
    and ls: "\<forall>l \<in> set ls. l \<noteq> [] \<and> CR \<notin> set l" and ne: "ls \<noteq> []"
  shows "parse_request r (lines_block ((m @ '' '' @ p @ '' '' @ v) # ls) @ CRLF @ rest) =
    (True, \<lparr>rq_method = method_of m, rq_raw_method = m, rq_path = p, rq_version = v,
       rq_headers = List.map_filter parse_header_line (butlast ls)\<rparr>)"
proof -
  let ?line = "m @ '' '' @ p @ '' '' @ v"
  have line: "CR \<notin> set ?line" using m p v by (simp add: plain_token_def)
  let ?hb = "?line @ CR # LF # lines_block (butlast ls) @ last ls"
  have f: "find_str CRLFCRLF (lines_block (?line # ls) @ CR # LF # rest)
      = Some (length (lines_block (butlast (?line # ls))) + length (last (?line # ls)))"
    using line ls by (intro find_crlfcrlf_block) auto
  have hb: "take (length (lines_block (butlast (?line # ls))) + length (last (?line # ls)))
      (lines_block (?line # ls) @ CR # LF # rest) = ?hb"
    using ne by (subst take_header_block) auto
  have lf: "find_str CRLF ?hb = Some (length ?line)"
    by (rule find_crlf_append [OF line])
  have hs: "parse_headers (lines_block (butlast ls) @ last ls)
      = List.map_filter parse_header_line (butlast ls)"
    using ls ne by (intro parse_headers_block) (auto dest: in_set_butlastD)
  have rl: "take (length ?line) ?hb = ?line" by simp
  have dr: "drop (length ?line + 2) ?hb = lines_block (butlast ls) @ last ls"
    by (rule drop_past_two)
  have "parse_request r (lines_block (?line # ls) @ CR # LF # rest) =
    (True, \<lparr>rq_method = method_of m, rq_raw_method = m, rq_path = p, rq_version = v,
       rq_headers = List.map_filter parse_header_line (butlast ls)\<rparr>)"
    unfolding parse_request_def Let_def f option.case hb lf rl dr hs request_line_split [OF m p]
    by (simp add: request_init_def substr_def)
  then show ?thesis by simp
qed

lemma render_header_ok:
  "plain_header h \<Longrightarrow> render_header h \<noteq> [] \<and> CR \<notin> set (render_header h)"
  by (simp add: render_header_def plain_header_def)

subsection \<open>Properties of the parser\<close>

lemma parse_request_wire:
  assumes "plain_token m" and "plain_token p" and "CR \<notin> set v"
    and "\<forall>h \<in> set hs. plain_header h" and "hs \<noteq> []"
  shows "parse_request r (render_request m p v hs @ rest) =
    (True, \<lparr>rq_method = method_of m, rq_raw_method = m, rq_path = p, rq_version = v,
       rq_headers = map stored_header (butlast hs)\<rparr>)"
proof -
  have "\<forall>l \<in> set (map render_header hs). l \<noteq> [] \<and> CR \<notin> set l"
    using assms(4) render_header_ok by auto
  moreover have "List.map_filter parse_header_line (butlast (map render_header hs))
      = map stored_header (butlast hs)"
    using assms(4) by (simp add: map_butlast [symmetric] map_filter_render in_set_butlastD)
  ultimately show ?thesis
    using parse_request_block [OF assms(1-3), of "map render_header hs" r rest] assms(5)
    by (simp add: render_request_def)
qed



text \<open>
  A request that has a request line and no header at all, complete by HTTP/1.0 and
  terminated by the blank line, is rejected: the header block then holds no line end.
\<close>

theorem parse_request_no_headers:
  assumes "plain_token m" and "plain_token p" and "CR \<notin> set v"
  shows "parse_request r (render_request m p v [] @ rest) = (False, request_init)"
proof -
  let ?line = "m @ '' '' @ p @ '' '' @ v"
  have line: "CR \<notin> set ?line" using assms by (simp add: plain_token_def)
  have "find_str CRLFCRLF (lines_block [?line] @ CR # LF # rest) = Some (length ?line)"
    using line find_crlfcrlf_block [of "[?line]" rest] by simp
  then show ?thesis
    using find_str_None [OF line] by (simp add: parse_request_def render_request_def)
qed

subsection \<open>The digit loops and the range\<close>

lemma parse_request_no_headers_witness:
  "parse_request request_init (render_request ''GET'' ''/a'' ''HTTP/1.1'' [] @ ''x'') = (False, request_init)"
  by (rule parse_request_no_headers) (simp_all add: plain_token_def)

lemma digit_val_nonneg: "is_digit c \<Longrightarrow> 0 \<le> digit_val c \<and> digit_val c \<le> 9"
  by (auto simp: is_digit_def digit_val_def)

abbreviation decimal_from :: "int \<Rightarrow> string \<Rightarrow> int" where
  "decimal_from acc s \<equiv> foldl (\<lambda>a c. a * 10 + digit_val c) acc s"

lemma decimal_from_ge: "list_all is_digit s \<Longrightarrow> 0 \<le> acc \<Longrightarrow> acc \<le> decimal_from acc s"
proof (induction s arbitrary: acc)
  case (Cons c s)
  then have d: "0 \<le> digit_val c" using digit_val_nonneg [of c] by simp
  have "acc * 10 + digit_val c \<le> decimal_from (acc * 10 + digit_val c) s"
    using Cons.prems d by (intro Cons.IH) auto
  with d Cons.prems show ?case by simp
qed simp

lemma digit_loop_digits:
  "list_all is_digit s \<Longrightarrow> 0 \<le> acc \<Longrightarrow> acc \<le> off_max \<Longrightarrow>
   digit_loop acc s =
     (if decimal_from acc s \<le> off_max then Inr (Some (decimal_from acc s)) else Inl Signed_Overflow)"
proof (induction s arbitrary: acc)
  case (Cons c s)
  let ?a = "acc * 10 + digit_val c"
  have c: "is_digit c" and s: "list_all is_digit s" using Cons.prems by auto
  have d: "0 \<le> digit_val c" using digit_val_nonneg [OF c] by simp
  show ?case
  proof (cases "?a \<le> off_max")
    case True
    with c d Cons.prems have "digit_loop acc (c # s) = digit_loop ?a s"
      by (simp add: chk64_def off_min_def)
    with True d Cons.IH [OF s, of ?a] Cons.prems show ?thesis by simp
  next
    case False
    have "?a \<le> decimal_from ?a s" using d Cons.prems by (intro decimal_from_ge [OF s]) auto
    with False c show ?thesis
      by (cases "chk64 (acc * 10)") (auto simp: chk64_def split: if_splits)
  qed
qed simp

lemma digit_loop_Some:
  "digit_loop acc s = Inr (Some v) \<Longrightarrow> 0 \<le> acc \<Longrightarrow> 0 \<le> v"
proof (induction acc s arbitrary: v rule: digit_loop.induct)
  case (2 acc c cs)
  then show ?case
    using digit_val_nonneg [of c] by (fastforce split: if_splits sum.splits)
qed simp

lemma digit_loop_string_of_nat:
  "digit_loop 0 (string_of_nat n) =
     (if int n \<le> off_max then Inr (Some (int n)) else Inl Signed_Overflow)"
  using digit_loop_digits [OF string_of_nat_digits, of 0 n] decimal_val_string_of_nat [of n]
  by (simp add: decimal_val_def off_max_def)

lemma dash_not_digit [simp]: "CHR ''-'' \<notin> set (string_of_nat n)"
  by (rule not_in_string_of_nat) (simp add: is_digit_def)

lemma parse_range_bytes:
  assumes "header r ''range'' = ''bytes='' @ s @ ''-'' @ e" and "CHR ''-'' \<notin> set s"
  shows "parse_range r n = (if s = [] then suffix_range n e else interval_range n s e)"
  using assms by (simp add: parse_range_def Let_def find_str_skip)

lemma range_checks_Some:
  "range_checks n s e = Some (a, b) \<Longrightarrow> a = s \<and> s \<le> b \<and> b < n \<and> b \<le> e"
  by (auto simp: range_checks_def split: if_splits)

lemma suffix_range_bounds:
  "suffix_range n e = Inr (Some (a, b)) \<Longrightarrow> 0 \<le> a \<and> a \<le> b \<and> b < n"
  by (fastforce simp: suffix_range_def split: if_splits option.splits sum.splits
      dest: range_checks_Some)

lemma interval_range_bounds:
  "interval_range n s e = Inr (Some (a, b)) \<Longrightarrow> 0 \<le> a \<and> a \<le> b \<and> b < n"
  by (fastforce simp: interval_range_def split: if_splits option.splits sum.splits
      dest: range_checks_Some digit_loop_Some)

lemma parse_range_inside:
  assumes "parse_range r n = Inr (Some (a, b))"
  shows "0 \<le> a \<and> a \<le> b \<and> b < n"
proof -
  from assms obtain st en where
    "suffix_range n en = Inr (Some (a, b)) \<or> interval_range n st en = Inr (Some (a, b))"
    by (auto simp: parse_range_def Let_def split: if_splits option.splits)
  then show ?thesis using suffix_range_bounds interval_range_bounds by blast
qed

text \<open>
  C22: whenever a range is accepted it is a non-empty closed interval inside the file,
  whatever the header holds and whatever the file size is.
\<close>

theorem parse_range_bounds:
  assumes "parse_range r file_size = Inr (Some (s, e))"
  shows "0 \<le> s \<and> s \<le> e \<and> e < file_size"
  using assms by (rule parse_range_inside)

lemma parse_range_bounds_witness:
  "let r = request_init\<lparr>rq_headers := [(''range'', ''bytes=2-'')]\<rparr>
   in parse_range r 10 = Inr (Some (2, 9)) \<and> (0::int) \<le> 2 \<and> (2::int) \<le> 9 \<and> (9::int) < 10"
proof -
  let ?r = "request_init\<lparr>rq_headers := [(''range'', ''bytes=2-'')]\<rparr>"
  have h: "parse_range ?r 10 = Inr (Some (2, 9))"
    by (simp add: parse_range_def interval_range_def header_def range_checks_def chk64_def
        off_min_def off_max_def is_digit_def digit_val_def)
  show ?thesis using h parse_range_bounds [OF h] by simp
qed

text \<open>The documented forms of a range and their meaning.\<close>

datatype range_form = Interval nat nat | From nat | Suffix nat

fun render_range :: "range_form \<Rightarrow> string" where
  "render_range (Interval a b) = ''bytes='' @ string_of_nat a @ ''-'' @ string_of_nat b"
| "render_range (From a) = ''bytes='' @ string_of_nat a @ ''-''"
| "render_range (Suffix k) = ''bytes=-'' @ string_of_nat k"

fun range_fits :: "range_form \<Rightarrow> bool" where
  "range_fits (Interval a b) \<longleftrightarrow> int a \<le> off_max \<and> int b \<le> off_max"
| "range_fits (From a) \<longleftrightarrow> int a \<le> off_max"
| "range_fits (Suffix k) \<longleftrightarrow> int k \<le> off_max"

fun range_spec :: "int \<Rightarrow> range_form \<Rightarrow> (int \<times> int) option" where
  "range_spec n (Interval a b) =
     (if int a < n \<and> a \<le> b then Some (int a, min (int b) (n - 1)) else None)"
| "range_spec n (From a) = (if int a < n then Some (int a, n - 1) else None)"
| "range_spec n (Suffix k) =
     (if 0 < k \<and> 0 < n then Some (max 0 (n - int k), n - 1) else None)"

lemma parse_range_render:
  assumes "header r ''range'' = render_range f"
  shows "parse_range r n =
    (if range_fits f then Inr (range_spec n f) else Inl Signed_Overflow)"
proof (cases f)
  case (Interval a b)
  with assms parse_range_bytes [of r "string_of_nat a" "string_of_nat b"] show ?thesis
    by (simp add: interval_range_def digit_loop_string_of_nat range_checks_def min_def)
next
  case (From a)
  with assms parse_range_bytes [of r "string_of_nat a" "[]"] show ?thesis
    by (simp add: interval_range_def digit_loop_string_of_nat range_checks_def)
next
  case (Suffix k)
  with assms parse_range_bytes [of r "[]" "string_of_nat k"] show ?thesis
    by (auto simp: suffix_range_def digit_loop_string_of_nat range_checks_def)
qed

text \<open>
  C23: a range header in one of the three documented forms means what the documentation
  says (clipped to the file, ignored when unsatisfiable) exactly when its numbers fit
  \<open>off_t\<close>; a larger number makes the digit loop overflow, which is undefined behaviour.
\<close>

theorem parse_range_forms:
  assumes "header r ''range'' = render_range f"
  shows "parse_range r n =
    (if range_fits f then Inr (range_spec n f) else Inl Signed_Overflow)"
  using assms by (rule parse_range_render)

lemma parse_range_forms_witness:
  "parse_range (request_init\<lparr>rq_headers := [(''range'', ''bytes=-'' @ string_of_nat (10 ^ 19))]\<rparr>) 10
     = Inl Signed_Overflow
   \<and> parse_range (request_init\<lparr>rq_headers := [(''range'', ''bytes=-'' @ string_of_nat 4)]\<rparr>) 10
     = Inr (Some (6, 9))"
proof -
  have big: "parse_range (request_init\<lparr>rq_headers := [(''range'', render_range (Suffix (10 ^ 19)))]\<rparr>) 10
     = Inl Signed_Overflow"
    by (subst parse_range_forms [where f = "Suffix (10 ^ 19)"]) (simp_all add: header_def off_max_def)
  have small: "parse_range (request_init\<lparr>rq_headers := [(''range'', render_range (Suffix 4))]\<rparr>) 10
     = Inr (Some (6, 9))"
    by (subst parse_range_forms [where f = "Suffix 4"]) (simp_all add: header_def off_max_def)
  from big small show ?thesis by simp
qed

text \<open>
  Persistence of the connection.  A request of version 1.1 asks to keep it open unless
  the first stored \<open>Connection\<close> header is literally \<open>close\<close>, any other version only if it is
  literally \<open>keep-alive\<close>; read on the wire, the header is only seen when another header
  line follows it.
\<close>

theorem is_keep_alive_wire:
  assumes "plain_token m" and "plain_token p" and "CR \<notin> set v"
    and "\<forall>h \<in> set hs. plain_header h" and "hs \<noteq> []"
  shows "is_keep_alive (snd (parse_request r (render_request m p v hs @ rest))) \<longleftrightarrow>
    (let c = map_of (map stored_header (butlast hs)) ''connection''
     in if v = ''HTTP/1.1'' then c \<noteq> Some ''close'' else c = Some ''keep-alive'')"
proof -
  have "snd (parse_request r (render_request m p v hs @ rest))
      = \<lparr>rq_method = method_of m, rq_raw_method = m, rq_path = p, rq_version = v,
         rq_headers = map stored_header (butlast hs)\<rparr>"
    by (simp add: parse_request_wire [OF assms])
  then show ?thesis
    by (simp add: is_keep_alive_def header_def Let_def split: option.split)
qed

lemma is_keep_alive_wire_witness:
  "is_keep_alive (snd (parse_request request_init
     (render_request ''GET'' ''/'' ''HTTP/1.1'' [(''Host'', ''x''), (''Connection'', ''close'')] @ [])))"
  by (subst is_keep_alive_wire)
    (simp_all add: plain_token_def plain_header_def stored_header_def tolower_def char_eval)

end
