(* ===== verification/C_Library.thy ===== *)
theory C_Library
  imports Prelude
begin

text \<open>
  The functions of the C library whose exact behaviour on malformed input matters to the
  callers: \<open>strtol\<close> in bases 10 and 16 (leading blanks, sign, optional \<open>0x\<close>, longest run
  of digits, saturation at the ends of \<open>long\<close>) and the \<open>%02d\<close>/\<open>%04d\<close> conversions of
  \<open>snprintf\<close>.
\<close>

subsection \<open>\<open>strtol\<close>\<close>

abbreviation NUL :: char where "NUL \<equiv> CHR 0x00"

definition is_space :: "char \<Rightarrow> bool" where
  "is_space c \<longleftrightarrow> c = CHR '' '' \<or> (9 \<le> byte_val c \<and> byte_val c \<le> 13)"

definition digit_of :: "char \<Rightarrow> nat option" where
  "digit_of c =
     (let n = byte_val c in
      if 48 \<le> n \<and> n \<le> 57 then Some (n - 48)
      else if 65 \<le> n \<and> n \<le> 90 then Some (n - 55)
      else if 97 \<le> n \<and> n \<le> 122 then Some (n - 87)
      else None)"

definition base_digit :: "nat \<Rightarrow> char \<Rightarrow> bool" where
  "base_digit base c = (case digit_of c of None \<Rightarrow> False | Some d \<Rightarrow> d < base)"

definition digits_val :: "nat \<Rightarrow> string \<Rightarrow> int" where
  "digits_val base ds =
     foldl (\<lambda>a c. a * int base + (case digit_of c of None \<Rightarrow> 0 | Some d \<Rightarrow> int d)) 0 ds"

definition hex_prefix :: "string \<Rightarrow> bool" where
  "hex_prefix s \<longleftrightarrow> 3 \<le> length s \<and> s ! 0 = CHR ''0'' \<and> (s ! 1 = CHR ''x'' \<or> s ! 1 = CHR ''X'')
     \<and> base_digit 16 (s ! 2)"

text \<open>The value and the number of characters consumed; nothing is consumed without a digit.\<close>

definition strtol :: "nat \<Rightarrow> string \<Rightarrow> int \<times> nat" where
  "strtol base str =
     (let s = takeWhile (\<lambda>c. c \<noteq> NUL) str;
          ws = length (takeWhile is_space s);
          s1 = drop ws s;
          neg = (s1 \<noteq> [] \<and> hd s1 = CHR ''-'');
          sg = (if s1 \<noteq> [] \<and> (hd s1 = CHR ''-'' \<or> hd s1 = CHR ''+'') then 1 else 0);
          s2 = drop sg s1;
          pre = (if base = 16 \<and> hex_prefix s2 then 2 else 0);
          ds = takeWhile (base_digit base) (drop pre s2);
          v = (if neg then - digits_val base ds else digits_val base ds)
      in if ds = [] then (0, 0)
         else (max off_min (min off_max v), ws + sg + pre + length ds))"

subsection \<open>Zero-padded decimal fields\<close>

definition pad_left :: "nat \<Rightarrow> char \<Rightarrow> string \<Rightarrow> string" where
  "pad_left w c s = replicate (w - length s) c @ s"

definition fmt_0d :: "nat \<Rightarrow> int \<Rightarrow> string" where
  "fmt_0d w i =
     (if i < 0 then CHR ''-'' # pad_left (w - 1) CHR ''0'' (string_of_nat (nat (- i)))
      else pad_left w CHR ''0'' (string_of_nat (nat i)))"

subsection \<open>Two hexadecimal digits\<close>

text \<open>\<open>"0123456789ABCDEF"[n]\<close>.\<close>

definition hex_digit :: "nat \<Rightarrow> char" where
  "hex_digit n = ''0123456789ABCDEF'' ! n"

lemma less_16_cases: "n < (16::nat) \<Longrightarrow> n \<in> {0, 1, 2, 3, 4, 5, 6, 7, 8, 9, 10, 11, 12, 13, 14, 15}"
  unfolding insert_iff empty_iff by arith

lemma digit_of_hex_digit [simp]: "n < 16 \<Longrightarrow> digit_of (hex_digit n) = Some n"
  by (drule less_16_cases) (auto simp: hex_digit_def digit_of_def)

lemma hex_digit_plain:
  assumes "n < 16"
  shows "base_digit 16 (hex_digit n)" and "hex_digit n \<noteq> NUL" and "\<not> is_space (hex_digit n)"
    and "hex_digit n \<noteq> CHR ''-''" and "hex_digit n \<noteq> CHR ''+''" and "is_alnum (hex_digit n)"
  using less_16_cases [OF assms]
  by (auto simp: hex_digit_def base_digit_def digit_of_def is_space_def is_alnum_def is_digit_def)

lemma strtol_two_hex:
  assumes "a < 16" and "b < 16"
  shows "strtol 16 [hex_digit a, hex_digit b] = (int (16 * a + b), 2)"
proof -
  have "int a * 16 + int b \<le> off_max" "0 \<le> int a * 16 + int b"
    using assms by (auto simp: off_max_def)
  then have "max off_min (min off_max (int a * 16 + int b)) = int a * 16 + int b"
    by (simp add: off_min_def)
  then show ?thesis
    using hex_digit_plain [OF assms(1)] hex_digit_plain [OF assms(2)] assms
    by (simp add: strtol_def Let_def hex_prefix_def digits_val_def algebra_simps)
qed

end
