(* ===== verification/C_Time.thy ===== *)
theory C_Time
  imports C_Library
begin

text \<open>
  The calendar functions of the C library the program uses: \<open>gmtime_r\<close> and \<open>timegm\<close> on the
  proleptic Gregorian calendar, counted in days from 1970-01-01, with \<open>struct tm\<close> as the
  record \<open>tm\<close> (months from 0, years from 1900, Sunday is 0).
\<close>

record tm =
  tm_year :: int
  tm_mon :: nat
  tm_mday :: int
  tm_hour :: int
  tm_min :: int
  tm_sec :: int
  tm_wday :: nat

subsection \<open>The calendar\<close>

definition leap_year :: "int \<Rightarrow> bool" where
  "leap_year y \<longleftrightarrow> y mod 4 = 0 \<and> (y mod 100 \<noteq> 0 \<or> y mod 400 = 0)"

definition year_length :: "int \<Rightarrow> int" where
  "year_length y = (if leap_year y then 366 else 365)"

definition month_lengths :: "int \<Rightarrow> int list" where
  "month_lengths y = [31, if leap_year y then 29 else 28, 31, 30, 31, 30, 31, 31, 30, 31, 30, 31]"

text \<open>The year and the day within it, from the first day of year \<open>y\<close>.\<close>

function split_year :: "int \<Rightarrow> int \<Rightarrow> int \<times> int" where
  "split_year y d =
     (if d < 0 then split_year (y - 1) (d + year_length (y - 1))
      else if year_length y \<le> d then split_year (y + 1) (d - year_length y)
      else (y, d))"
  by pat_completeness auto
termination
  by (relation "measure (\<lambda>(y, d). if d < 0 then nat (1000 - d) else nat d)")
    (auto simp: year_length_def split: if_splits)

declare split_year.simps [simp del]

fun split_month :: "int list \<Rightarrow> nat \<Rightarrow> int \<Rightarrow> nat \<times> int" where
  "split_month [] m d = (m, d)"
| "split_month (l # ls) m d = (if d < l then (m, d) else split_month ls (Suc m) (d - l))"

text \<open>Days from 1970-01-01 to the first day of a year.\<close>

definition leaps_before :: "int \<Rightarrow> int" where
  "leaps_before y = (y - 1) div 4 - (y - 1) div 100 + (y - 1) div 400"

definition days_before_year :: "int \<Rightarrow> int" where
  "days_before_year y = 365 * (y - 1970) + (leaps_before y - leaps_before 1970)"

definition days_before_month :: "int \<Rightarrow> nat \<Rightarrow> int" where
  "days_before_month y m = sum_list (take m (month_lengths y))"

subsection \<open>\<open>gmtime_r\<close> and \<open>timegm\<close>\<close>

definition gmtime :: "int \<Rightarrow> tm" where
  "gmtime t =
     (let days = t div 86400; secs = t mod 86400;
          (y, yd) = split_year 1970 days;
          (m, md) = split_month (month_lengths y) 0 yd
      in \<lparr>tm_year = y - 1900, tm_mon = m, tm_mday = md + 1,
          tm_hour = secs div 3600, tm_min = secs mod 3600 div 60, tm_sec = secs mod 60,
          tm_wday = nat ((4 + days) mod 7)\<rparr>)"

definition timegm :: "tm \<Rightarrow> int" where
  "timegm x =
     (let y = tm_year x + 1900 in
      86400 * (days_before_year y + days_before_month y (tm_mon x) + tm_mday x - 1)
      + 3600 * tm_hour x + 60 * tm_min x + tm_sec x)"

subsection \<open>\<open>timegm\<close> inverts \<open>gmtime_r\<close>\<close>

lemma div_step:
  fixes y n :: int
  assumes "0 < n"
  shows "y div n = (y - 1) div n + (if y mod n = 0 then 1 else 0)"
proof -
  let ?q = "y div n" and ?r = "y mod n"
  have y: "y = n * ?q + ?r" and r: "0 \<le> ?r" "?r < n" using assms by auto
  show ?thesis
  proof (cases "?r = 0")
    case True
    then have "y - 1 = n * (?q - 1) + (n - 1)" using y by (simp add: algebra_simps)
    then have "(y - 1) div n = ?q - 1" by (rule int_div_pos_eq) (use assms in auto)
    with True show ?thesis by simp
  next
    case False
    then have "y - 1 = n * ?q + (?r - 1)" using y by linarith
    then have "(y - 1) div n = ?q" by (rule int_div_pos_eq) (use r False in auto)
    with False show ?thesis by simp
  qed
qed

lemma nested_bits:
  assumes "(q \<longrightarrow> p) \<and> (r \<longrightarrow> q)"
  shows "(if p then 1 else 0) - (if q then 1 else 0) + (if r then 1 else 0)
    = (if p \<and> (\<not> q \<or> r) then 1 else (0::int))"
  using assms by (cases p; cases q; cases r) simp_all

lemma days_before_next_year: "days_before_year (y + 1) = days_before_year y + year_length y"
proof -
  have "leaps_before (y + 1) = leaps_before y + (if leap_year y then 1 else 0)"
  proof -
    have m4: "y mod 4 = 0" if "y mod 100 = 0"
    proof -
      have "(4::int) dvd 100" by simp
      then have "4 dvd y" using mod_0_imp_dvd [OF that] by (rule dvd_trans)
      then show ?thesis by (rule dvd_imp_mod_0)
    qed
    have m100: "y mod 100 = 0" if "y mod 400 = 0"
    proof -
      have "(100::int) dvd 400" by simp
      then have "100 dvd y" using mod_0_imp_dvd [OF that] by (rule dvd_trans)
      then show ?thesis by (rule dvd_imp_mod_0)
    qed
    have "leaps_before (y + 1) = y div 4 - y div 100 + y div 400"
      by (simp only: leaps_before_def add_diff_cancel_right')
    also have "\<dots> = leaps_before y + ((if y mod 4 = 0 then 1 else 0) - (if y mod 100 = 0 then 1 else 0)
        + (if y mod 400 = 0 then 1 else 0))"
    proof -
      have shuffle: "d4 = a + i \<Longrightarrow> d100 = b + j \<Longrightarrow> d400 = c + k \<Longrightarrow>
          d4 - d100 + d400 = (a - b + c) + (i - j + k)" for a b c d4 d100 d400 i j k :: int
        by simp
      show ?thesis
        unfolding leaps_before_def by (rule shuffle) (rule div_step, rule zero_less_numeral)+
    qed
    also have "\<dots> = leaps_before y + (if leap_year y then 1 else 0)"
    proof -
      have "(y mod 100 = 0 \<longrightarrow> y mod 4 = 0) \<and> (y mod 400 = 0 \<longrightarrow> y mod 100 = 0)"
        by (intro conjI impI) (erule m4, erule m100)
      from nested_bits [OF this] show ?thesis
        unfolding leap_year_def by (rule arg_cong)
    qed
    finally show ?thesis .
  qed
  then show ?thesis
    by (simp only: days_before_year_def year_length_def split: if_split) (simp add: algebra_simps)
qed

lemma split_year_days:
  "split_year y d = (y', d') \<Longrightarrow>
   days_before_year y' + d' = days_before_year y + d \<and> 0 \<le> d' \<and> d' < year_length y'"
proof (induction y d rule: split_year.induct)
  case (1 y d)
  show ?case
  proof (cases "d < 0")
    case True
    then have "split_year (y - 1) (d + year_length (y - 1)) = (y', d')"
      using "1.prems" by (simp add: split_year.simps [of y d])
    from "1.IH"(1) [OF True this] show ?thesis
      using days_before_next_year [of "y - 1"] by simp
  next
    case nonneg: False
    show ?thesis
    proof (cases "year_length y \<le> d")
      case True
      then have "split_year (y + 1) (d - year_length y) = (y', d')"
        using "1.prems" nonneg by (simp add: split_year.simps [of y d])
      from "1.IH"(2) [OF nonneg True this] show ?thesis
        by (simp add: days_before_next_year)
    next
      case False
      then show ?thesis using "1.prems" nonneg by (simp add: split_year.simps [of y d])
    qed
  qed
qed

lemma split_month_days:
  "split_month ls m d = (m', d') \<Longrightarrow> 0 \<le> d \<Longrightarrow> d < sum_list ls \<Longrightarrow>
   m \<le> m' \<and> m' < m + length ls \<and> sum_list (take (m' - m) ls) + d' = d \<and> 0 \<le> d'"
proof (induction ls m d arbitrary: m' d' rule: split_month.induct)
  case (2 l ls m d)
  show ?case
  proof (cases "d < l")
    case True
    with 2 show ?thesis by auto
  next
    case False
    with 2 have "Suc m \<le> m' \<and> m' < Suc m + length ls
        \<and> sum_list (take (m' - Suc m) ls) + d' = d - l \<and> 0 \<le> d'"
      by auto
    moreover from this have "m' - m = Suc (m' - Suc m)" by linarith
    ultimately show ?thesis by auto
  qed
qed simp

lemma sum_month_lengths: "sum_list (month_lengths y) = year_length y"
  by (simp add: month_lengths_def year_length_def)

lemma days_before_1970 [simp]: "days_before_year 1970 = 0"
  by (simp add: days_before_year_def)

lemma timegm_gmtime: "timegm (gmtime t) = t"
proof -
  obtain y yd where y: "split_year 1970 (t div 86400) = (y, yd)" by fastforce
  obtain m md where m: "split_month (month_lengths y) 0 yd = (m, md)" by fastforce
  have days: "days_before_year y + yd = t div 86400" "0 \<le> yd" "yd < year_length y"
    using split_year_days [OF y] by auto
  then have "days_before_month y m + md = yd"
    using split_month_days [OF m] by (simp add: sum_month_lengths days_before_month_def)
  then have "timegm (gmtime t) = 86400 * (t div 86400)
      + (3600 * (t mod 86400 div 3600) + 60 * (t mod 86400 mod 3600 div 60) + t mod 86400 mod 60)"
    using days by (simp add: timegm_def gmtime_def y m Let_def)
  also have "\<dots> = 86400 * (t div 86400) + t mod 86400"
  proof -
    have "t mod 86400 mod 60 = t mod 86400 mod 3600 mod 60"
      by (simp add: mod_mod_cancel)
    then show ?thesis
      using mult_div_mod_eq [of 60 "t mod 86400 mod 3600"] mult_div_mod_eq [of 3600 "t mod 86400"]
      by linarith
  qed
  finally show ?thesis by (simp only: mult_div_mod_eq)
qed

lemma gmtime_mon: "tm_mon (gmtime t) < 12"
proof -
  obtain y yd where y: "split_year 1970 (t div 86400) = (y, yd)" by fastforce
  obtain m md where m: "split_month (month_lengths y) 0 yd = (m, md)" by fastforce
  have "0 \<le> yd" "yd < sum_list (month_lengths y)"
    using split_year_days [OF y] by (auto simp: sum_month_lengths)
  then have "m < 12" using split_month_days [OF m] by (simp add: month_lengths_def)
  then show ?thesis by (simp add: gmtime_def y m Let_def)
qed

lemma gmtime_wday: "tm_wday (gmtime t) < 7"
  by (simp add: gmtime_def Let_def case_prod_beta nat_less_iff)

lemma split_month_within:
  "split_month ls m d = (m', d') \<Longrightarrow> 0 \<le> d \<Longrightarrow> d < sum_list ls \<Longrightarrow> \<exists>l \<in> set ls. d' < l"
  by (induction ls m d rule: split_month.induct) (auto split: if_splits)

lemma div_range:
  fixes a b c :: int
  assumes "0 \<le> a" and "a < c * b" and "0 < b"
  shows "0 \<le> a div b \<and> a div b < c"
proof -
  have "\<not> c \<le> a div b"
  proof
    assume "c \<le> a div b"
    then have "c * b \<le> a div b * b" using assms(3) by (simp add: mult_right_mono)
    also have "\<dots> \<le> a" using assms(3) div_mult_mod_eq [of a b] pos_mod_sign [of b a] by linarith
    finally show False using assms(2) by simp
  qed
  then show ?thesis using assms by (simp add: pos_imp_zdiv_nonneg_iff)
qed

lemma gmtime_fields:
  "1 \<le> tm_mday (gmtime t) \<and> tm_mday (gmtime t) \<le> 31 \<and> 0 \<le> tm_hour (gmtime t) \<and> tm_hour (gmtime t) < 24
   \<and> 0 \<le> tm_min (gmtime t) \<and> tm_min (gmtime t) < 60 \<and> 0 \<le> tm_sec (gmtime t) \<and> tm_sec (gmtime t) < 60"
proof -
  obtain y yd where y: "split_year 1970 (t div 86400) = (y, yd)" by fastforce
  obtain m md where m: "split_month (month_lengths y) 0 yd = (m, md)" by fastforce
  have yd: "0 \<le> yd" "yd < sum_list (month_lengths y)"
    using split_year_days [OF y] by (auto simp: sum_month_lengths)
  have "0 \<le> md" using split_month_days [OF m yd] by simp
  moreover have "md < 31"
    using split_month_within [OF m yd] by (auto simp: month_lengths_def split: if_splits)
  moreover have "0 \<le> t mod 86400 div 3600 \<and> t mod 86400 div 3600 < 24"
    by (rule div_range) simp_all
  moreover have "0 \<le> t mod 86400 mod 3600 div 60 \<and> t mod 86400 mod 3600 div 60 < 60"
    by (rule div_range) simp_all
  moreover have "0 \<le> t mod 86400 mod 60 \<and> t mod 86400 mod 60 < 60"
    by simp
  ultimately show ?thesis
    unfolding gmtime_def y m Let_def prod.case tm.simps by simp
qed

end
