(* ===== verification/Http_Response.thy ===== *)
theory Http_Response
  imports Http_Request C_Time
begin

text \<open>
  \<open>src/http/http_response.{h,cpp}\<close>: the response builder.  \<open>HttpResponse\<close> is the record
  \<open>http_response\<close>; its setters, \<open>reset\<close>, \<open>reason\<close>, \<open>error_body\<close>, \<open>build_headers\<close> and the date
  format are the functions below.  The clock read by \<open>build_headers\<close> is an argument.
\<close>

subsection \<open>The state of a response\<close>

datatype status =
  ST_OK | PARTIAL_CONTENT | NOT_MODIFIED | BAD_REQUEST | FORBIDDEN | NOT_FOUND
| METHOD_NOT_ALLOWED | RANGE_NOT_SATISFIABLE | INTERNAL_ERROR | NOT_IMPLEMENTED

fun status_code :: "status \<Rightarrow> 16 word" where
  "status_code ST_OK = 200"
| "status_code PARTIAL_CONTENT = 206"
| "status_code NOT_MODIFIED = 304"
| "status_code BAD_REQUEST = 400"
| "status_code FORBIDDEN = 403"
| "status_code NOT_FOUND = 404"
| "status_code METHOD_NOT_ALLOWED = 405"
| "status_code RANGE_NOT_SATISFIABLE = 416"
| "status_code INTERNAL_ERROR = 500"
| "status_code NOT_IMPLEMENTED = 501"

record http_response =
  rs_status :: status
  rs_headers :: "(string \<times> string) list"
  rs_body :: string
  rs_content_type :: string
  rs_content_length :: "64 word"
  rs_has_content_length :: bool
  rs_accept_ranges :: bool
  rs_keep_alive :: bool
  rs_has_last_modified :: bool
  rs_last_modified :: int

definition response_init :: http_response where
  "response_init = \<lparr>rs_status = ST_OK, rs_headers = [], rs_body = [], rs_content_type = [],
     rs_content_length = 0, rs_has_content_length = False, rs_accept_ranges = False,
     rs_keep_alive = True, rs_has_last_modified = False, rs_last_modified = 0\<rparr>"

definition response_reset :: "http_response \<Rightarrow> http_response" where
  "response_reset r = r\<lparr>rs_status := ST_OK, rs_headers := [], rs_body := [], rs_content_type := [],
     rs_content_length := 0, rs_has_content_length := False, rs_accept_ranges := False,
     rs_keep_alive := True, rs_has_last_modified := False, rs_last_modified := 0\<rparr>"

definition set_status :: "status \<Rightarrow> http_response \<Rightarrow> http_response" where
  "set_status s r = r\<lparr>rs_status := s\<rparr>"

definition set_header :: "string \<Rightarrow> string \<Rightarrow> http_response \<Rightarrow> http_response" where
  "set_header name val r = r\<lparr>rs_headers := rs_headers r @ [(name, val)]\<rparr>"

definition set_content_type :: "string \<Rightarrow> http_response \<Rightarrow> http_response" where
  "set_content_type ct r = r\<lparr>rs_content_type := ct\<rparr>"

definition set_content_length :: "64 word \<Rightarrow> http_response \<Rightarrow> http_response" where
  "set_content_length len r = r\<lparr>rs_content_length := len, rs_has_content_length := True\<rparr>"

definition set_last_modified :: "int \<Rightarrow> http_response \<Rightarrow> http_response" where
  "set_last_modified t r = r\<lparr>rs_last_modified := t, rs_has_last_modified := True\<rparr>"

definition set_accept_ranges :: "bool \<Rightarrow> http_response \<Rightarrow> http_response" where
  "set_accept_ranges v r = r\<lparr>rs_accept_ranges := v\<rparr>"

definition set_keep_alive :: "bool \<Rightarrow> http_response \<Rightarrow> http_response" where
  "set_keep_alive v r = r\<lparr>rs_keep_alive := v\<rparr>"

definition set_body :: "string \<Rightarrow> http_response \<Rightarrow> http_response" where
  "set_body b r = r\<lparr>rs_body := b\<rparr>"

definition has_body :: "http_response \<Rightarrow> bool" where
  "has_body r \<longleftrightarrow> rs_body r \<noteq> []"

lemmas response_setters = set_status_def set_header_def set_content_type_def set_content_length_def
  set_last_modified_def set_accept_ranges_def set_keep_alive_def set_body_def has_body_def

subsection \<open>Reasons, error pages and dates\<close>

fun reason :: "status \<Rightarrow> string" where
  "reason ST_OK = ''OK''"
| "reason PARTIAL_CONTENT = ''Partial Content''"
| "reason NOT_MODIFIED = ''Not Modified''"
| "reason BAD_REQUEST = ''Bad Request''"
| "reason FORBIDDEN = ''Forbidden''"
| "reason NOT_FOUND = ''Not Found''"
| "reason METHOD_NOT_ALLOWED = ''Method Not Allowed''"
| "reason RANGE_NOT_SATISFIABLE = ''Range Not Satisfiable''"
| "reason INTERNAL_ERROR = ''Internal Server Error''"
| "reason NOT_IMPLEMENTED = ''Not Implemented''"

definition error_body :: "status \<Rightarrow> string" where
  "error_body s =
     ''<!DOCTYPE html><html><head><meta charset=\"utf-8\">'' @
     ''<title>'' @ string_of_nat (unat (status_code s)) @ '' '' @ reason s @
     ''</title></head><body><h1>'' @
     string_of_nat (unat (status_code s)) @ '' '' @ reason s @
     ''</h1></body></html>''"

definition weekday_name :: "nat \<Rightarrow> string" where
  "weekday_name wday = [''Sun'', ''Mon'', ''Tue'', ''Wed'', ''Thu'', ''Fri'', ''Sat''] ! (wday mod 7)"

definition month_name :: "nat \<Rightarrow> string" where
  "month_name mon = [''Jan'', ''Feb'', ''Mar'', ''Apr'', ''May'', ''Jun'',
     ''Jul'', ''Aug'', ''Sep'', ''Oct'', ''Nov'', ''Dec''] ! (mon mod 12)"

text \<open>The buffer of 64 bytes truncates the text at 63.\<close>

definition format_time :: "int \<Rightarrow> string" where
  "format_time t =
     (let g = gmtime t in
      take 63 (weekday_name (tm_wday g) @ '', '' @ fmt_0d 2 (tm_mday g) @ '' '' @
        month_name (tm_mon g) @ '' '' @ fmt_0d 4 (tm_year g + 1900) @ '' '' @
        fmt_0d 2 (tm_hour g) @ '':'' @ fmt_0d 2 (tm_min g) @ '':'' @ fmt_0d 2 (tm_sec g) @ '' GMT''))"

subsection \<open>\<open>build_headers\<close>\<close>

definition build_headers :: "int \<Rightarrow> http_response \<Rightarrow> string" where
  "build_headers now r =
     ''HTTP/1.1 '' @ string_of_nat (unat (status_code (rs_status r))) @ '' '' @ reason (rs_status r) @ CRLF @
     ''Date: '' @ format_time now @ CRLF @
     (if rs_status r \<noteq> NOT_MODIFIED \<and> rs_content_type r \<noteq> []
      then ''Content-Type: '' @ rs_content_type r @ CRLF else []) @
     (if rs_status r \<noteq> NOT_MODIFIED \<and> rs_has_content_length r
      then ''Content-Length: '' @ string_of_nat (unat (rs_content_length r)) @ CRLF else []) @
     (if rs_has_last_modified r
      then ''Last-Modified: '' @ format_time (rs_last_modified r) @ CRLF else []) @
     (if rs_accept_ranges r then ''Accept-Ranges: bytes'' @ CRLF else []) @
     ''Connection: '' @ (if rs_keep_alive r then ''keep-alive'' @ CRLF else ''close'' @ CRLF) @
     concat (map (\<lambda>(k, v). k @ '': '' @ v @ CRLF) (rs_headers r)) @
     CRLF"

subsection \<open>The header block as a client reads it\<close>

definition status_line :: "http_response \<Rightarrow> string" where
  "status_line r = ''HTTP/1.1 '' @ string_of_nat (unat (status_code (rs_status r))) @ '' '' @ reason (rs_status r)"

definition response_fields :: "int \<Rightarrow> http_response \<Rightarrow> (string \<times> string) list" where
  "response_fields now r =
     [(''Date'', format_time now)] @
     (if rs_status r \<noteq> NOT_MODIFIED \<and> rs_content_type r \<noteq> []
      then [(''Content-Type'', rs_content_type r)] else []) @
     (if rs_status r \<noteq> NOT_MODIFIED \<and> rs_has_content_length r
      then [(''Content-Length'', string_of_nat (unat (rs_content_length r)))] else []) @
     (if rs_has_last_modified r then [(''Last-Modified'', format_time (rs_last_modified r))] else []) @
     (if rs_accept_ranges r then [(''Accept-Ranges'', ''bytes'')] else []) @
     [(''Connection'', if rs_keep_alive r then ''keep-alive'' else ''close'')] @
     rs_headers r"

definition plain_response :: "http_response \<Rightarrow> bool" where
  "plain_response r \<longleftrightarrow> plain_header (''Content-Type'', rs_content_type r)
     \<and> (\<forall>h \<in> set (rs_headers r). plain_header h)"

lemma custom_headers_block:
  "concat (map (\<lambda>(k, v). k @ '': '' @ v @ CRLF) hs) = lines_block (map render_header hs)"
  by (induction hs) (auto simp: render_header_def)

lemma build_headers_block:
  "build_headers now r = lines_block (status_line r # map render_header (response_fields now r)) @ CRLF"
  by (simp add: build_headers_def status_line_def response_fields_def render_header_def
      custom_headers_block [simplified])

lemma response_init_reset [simp]: "response_reset r = response_init"
  by (simp add: response_reset_def response_init_def)

lemma response_init_simps [simp]:
  "rs_status response_init = ST_OK" "rs_headers response_init = []" "rs_body response_init = []"
  "rs_content_type response_init = []" "rs_content_length response_init = 0"
  "\<not> rs_has_content_length response_init" "\<not> rs_accept_ranges response_init"
  "rs_keep_alive response_init" "\<not> rs_has_last_modified response_init"
  "rs_last_modified response_init = 0"
  by (simp_all add: response_init_def)

lemma length_lines_block_last:
  "ls \<noteq> [] \<Longrightarrow> length (lines_block (butlast ls)) + length (last ls) = length (lines_block ls) - 2"
  by (simp add: lines_block_last [of ls])

lemma less_7_cases: "n < (7::nat) \<Longrightarrow> n \<in> {0, 1, 2, 3, 4, 5, 6}"
  unfolding insert_iff empty_iff by arith

lemma less_12_cases: "n < (12::nat) \<Longrightarrow> n \<in> {0, 1, 2, 3, 4, 5, 6, 7, 8, 9, 10, 11}"
  unfolding insert_iff empty_iff by arith

lemma weekday_name_plain:
  "weekday_name w \<noteq> [] \<and> hd (weekday_name w) \<noteq> CHR '' '' \<and> hd (weekday_name w) \<noteq> TAB
   \<and> CR \<notin> set (weekday_name w) \<and> length (weekday_name w) = 3"
  using less_7_cases [of "w mod 7"] by (auto simp: weekday_name_def)

lemma month_name_plain: "CR \<notin> set (month_name m) \<and> length (month_name m) = 3"
  using less_12_cases [of "m mod 12"] by (auto simp: month_name_def)

lemma CR_not_fmt_0d [simp]: "CR \<notin> set (fmt_0d w i)"
  using not_in_string_of_nat [of CR] by (auto simp: fmt_0d_def pad_left_def is_digit_def)

lemma CR_not_string_of_nat [simp]: "CR \<notin> set (string_of_nat n)"
  by (rule not_in_string_of_nat) (simp add: is_digit_def)

lemma format_time_plain: "plain_header (name, format_time t) \<longleftrightarrow> CR \<notin> set name \<and> CHR '':'' \<notin> set name"
  using weekday_name_plain [of "tm_wday (gmtime t)"] month_name_plain [of "tm_mon (gmtime t)"]
  by (cases "weekday_name (tm_wday (gmtime t))")
    (auto simp: plain_header_def format_time_def Let_def dest: in_set_takeD)

lemma string_of_nat_hd: "hd (string_of_nat n) \<noteq> CHR '' '' \<and> hd (string_of_nat n) \<noteq> TAB"
proof -
  have "is_digit (hd (string_of_nat n))"
    using string_of_nat_digits [of n] by (cases "string_of_nat n") auto
  then show ?thesis by (auto simp: is_digit_def)
qed

lemma response_fields_plain:
  "plain_response r \<Longrightarrow> \<forall>h \<in> set (response_fields now r). plain_header h"
  using string_of_nat_hd
  by (auto simp: response_fields_def plain_response_def format_time_plain)
    (auto simp: plain_header_def)

lemma status_line_plain: "status_line r \<noteq> [] \<and> CR \<notin> set (status_line r)"
  by (cases "rs_status r") (auto simp: status_line_def)

text \<open>
  Framing of the response.  When the content type and the custom headers hold no line
  end, the block is a status line and one line per field, in the documented order, the
  first blank line is the one that ends the block, whatever body follows, and each line
  reads back as its field: no response splitting.
\<close>

theorem build_headers_framing:
  assumes "plain_response r"
  shows "build_headers now r = lines_block (status_line r # map render_header (response_fields now r)) @ CRLF
    \<and> find_str CRLFCRLF (build_headers now r @ body) = Some (length (build_headers now r) - 4)
    \<and> List.map_filter parse_header_line (map render_header (response_fields now r))
        = map stored_header (response_fields now r)"
proof -
  let ?ls = "status_line r # map render_header (response_fields now r)"
  have "\<forall>l \<in> set ?ls. l \<noteq> [] \<and> CR \<notin> set l"
    using response_fields_plain [OF assms] render_header_ok status_line_plain by auto
  then have "find_str CRLFCRLF (lines_block ?ls @ CR # LF # body)
      = Some (length (lines_block (butlast ?ls)) + length (last ?ls))"
    by (intro find_crlfcrlf_block) auto
  moreover have "length (lines_block (butlast ?ls)) + length (last ?ls) = length (lines_block ?ls) - 2"
    by (rule length_lines_block_last) simp
  ultimately show ?thesis
    using map_filter_render [OF response_fields_plain [OF assms]]
    by (simp add: build_headers_block)
qed

lemma build_headers_framing_witness:
  "plain_response (set_content_type ''text/plain'' response_init)
   \<and> find_str CRLFCRLF (build_headers 0 (set_content_type ''text/plain'' response_init) @ ''body'')
     = Some (length (build_headers 0 (set_content_type ''text/plain'' response_init)) - 4)"
proof -
  have p: "plain_response (set_content_type ''text/plain'' response_init)"
    by (simp add: plain_response_def plain_header_def set_content_type_def)
  show ?thesis using p build_headers_framing [OF p, of 0 "''body''"] by blast
qed

lemma length_fmt_0d:
  "0 \<le> i \<Longrightarrow> i < 10 ^ w \<Longrightarrow> 0 < w \<Longrightarrow> length (fmt_0d w i) = w"
  using length_string_of_nat [of "nat i" w]
  by (simp add: fmt_0d_def pad_left_def nat_less_iff)

text \<open>
  The dates of the \<open>Date\<close> and \<open>Last-Modified\<close> fields.  For a time in the years 0 to
  9999 the buffer is large enough, the text has the fixed 29 bytes of the HTTP date format,
  and it shows the broken-down time that \<open>timegm\<close> maps back to the time.
\<close>

theorem format_time_fixed:
  assumes "0 \<le> tm_year (gmtime t) + 1900" and "tm_year (gmtime t) + 1900 < 10000"
  shows "length (format_time t) = 29
    \<and> (\<exists>g. timegm g = t \<and> format_time t =
         weekday_name (tm_wday g) @ '', '' @ fmt_0d 2 (tm_mday g) @ '' '' @ month_name (tm_mon g) @ '' '' @
         fmt_0d 4 (tm_year g + 1900) @ '' '' @ fmt_0d 2 (tm_hour g) @ '':'' @ fmt_0d 2 (tm_min g) @ '':'' @
         fmt_0d 2 (tm_sec g) @ '' GMT'')"
proof -
  let ?g = "gmtime t"
  let ?s = "weekday_name (tm_wday ?g) @ '', '' @ fmt_0d 2 (tm_mday ?g) @ '' '' @ month_name (tm_mon ?g) @ '' '' @
         fmt_0d 4 (tm_year ?g + 1900) @ '' '' @ fmt_0d 2 (tm_hour ?g) @ '':'' @ fmt_0d 2 (tm_min ?g) @ '':'' @
         fmt_0d 2 (tm_sec ?g) @ '' GMT''"
  have "length (fmt_0d 2 (tm_mday ?g)) = 2" "length (fmt_0d 2 (tm_hour ?g)) = 2"
    "length (fmt_0d 2 (tm_min ?g)) = 2" "length (fmt_0d 2 (tm_sec ?g)) = 2"
    using gmtime_fields [of t] by (auto intro!: length_fmt_0d)
  moreover have "length (fmt_0d 4 (tm_year ?g + 1900)) = 4"
    using assms by (intro length_fmt_0d) auto
  ultimately have len: "length ?s = 29"
    using weekday_name_plain [of "tm_wday ?g"] month_name_plain [of "tm_mon ?g"] by simp
  then have "format_time t = ?s" by (simp add: format_time_def Let_def)
  with len timegm_gmtime [of t] show ?thesis by metis
qed

lemma format_time_fixed_witness: "length (format_time 0) = 29"
  by (rule format_time_fixed [THEN conjunct1])
    (simp_all add: gmtime_def split_year.simps year_length_def leap_year_def month_lengths_def)

end
