(* ===== verification/Connection.thy ===== *)
theory Connection
  imports System_Calls Http_Response
begin

text \<open>
  \<open>src/core/connection.{h,cpp}\<close>: the state machine of one connection.  The class \<open>Connection\<close>
  is the record \<open>connection\<close>; every \<open>do_*\<close> member is a function from the answers of the
  system and the connection to what the event loop should wait for, the connection afterwards
  and the effects.  The pointers of the keep-alive list are slot indices of the pool, an
  SSL object is a number, a time point counts nanoseconds.
\<close>

subsection \<open>The state\<close>

datatype conn_state =
  CLOSED | PROTO_DETECT | TLS_ACCEPT | READING | PARSING | SENDING_HEADERS | SENDING_BODY | KEEP_ALIVE

datatype want = Want_None | Want_Read | Want_Write

record connection =
  cn_fd :: int
  cn_state :: conn_state
  cn_ssl :: "nat option"
  cn_tls_available :: bool
  cn_read_buf :: string
  cn_headers_complete :: bool
  cn_header_buf :: string
  cn_header_sent :: nat
  cn_file_fd :: int
  cn_file_size :: int
  cn_send_offset :: int
  cn_send_remaining :: int
  cn_chunk_buf :: string
  cn_chunk_used :: nat
  cn_chunk_sent :: nat
  cn_body_sent :: nat
  cn_request :: http_request
  cn_response :: http_response
  cn_is_head :: bool
  cn_prev :: "nat option"
  cn_next :: "nat option"
  cn_in_list :: bool
  cn_last_active :: int
  cn_timeout :: int
  cn_root_dir :: string

definition conn_default :: connection where
  "conn_default = \<lparr>cn_fd = -1, cn_state = CLOSED, cn_ssl = None, cn_tls_available = False,
     cn_read_buf = [], cn_headers_complete = False, cn_header_buf = [], cn_header_sent = 0,
     cn_file_fd = -1, cn_file_size = 0, cn_send_offset = 0, cn_send_remaining = 0,
     cn_chunk_buf = [], cn_chunk_used = 0, cn_chunk_sent = 0, cn_body_sent = 0,
     cn_request = request_init, cn_response = response_init, cn_is_head = False,
     cn_prev = None, cn_next = None, cn_in_list = False,
     cn_last_active = 0, cn_timeout = 75, cn_root_dir = []\<rparr>"

type_synonym conn_step = "want \<times> connection \<times> effect list"

subsection \<open>Life cycle\<close>

definition conn_init :: "int \<Rightarrow> int \<Rightarrow> string \<Rightarrow> int \<Rightarrow> connection \<Rightarrow> connection" where
  "conn_init now fd root_dir ka_timeout c = c\<lparr>
     cn_fd := fd, cn_ssl := None, cn_tls_available := False, cn_root_dir := root_dir,
     cn_timeout := ka_timeout, cn_state := PROTO_DETECT, cn_last_active := now,
     cn_headers_complete := False, cn_header_sent := 0, cn_file_fd := -1, cn_file_size := 0,
     cn_send_offset := 0, cn_send_remaining := 0, cn_chunk_used := 0, cn_chunk_sent := 0,
     cn_body_sent := 0, cn_is_head := False, cn_read_buf := [],
     cn_request := request_reset (cn_request c), cn_response := response_reset (cn_response c),
     cn_prev := None, cn_next := None, cn_in_list := False\<rparr>"

definition close_file :: "connection \<Rightarrow> connection \<times> effect list" where
  "close_file c =
     (if 0 \<le> cn_file_fd c then (c\<lparr>cn_file_fd := -1\<rparr>, [E_Close (cn_file_fd c)]) else (c, []))"

definition conn_reset :: "connection \<Rightarrow> connection \<times> effect list" where
  "conn_reset c =
     (case close_file c of (c, es) \<Rightarrow>
       (c\<lparr>cn_request := request_reset (cn_request c), cn_response := response_reset (cn_response c),
          cn_header_buf := [], cn_header_sent := 0, cn_file_size := 0, cn_send_offset := 0,
          cn_send_remaining := 0, cn_chunk_used := 0, cn_body_sent := 0, cn_chunk_sent := 0,
          cn_is_head := False, cn_read_buf := []\<rparr>, es))"

definition conn_close :: "connection \<Rightarrow> connection \<times> effect list" where
  "conn_close c =
     (if cn_state c = CLOSED then (c, [])
      else let sock = (if 0 \<le> cn_fd c then [E_Shutdown (cn_fd c), E_Close (cn_fd c)] else []);
               tls = (case cn_ssl c of None \<Rightarrow> [] | Some s \<Rightarrow> [E_Ssl_Shutdown s, E_Ssl_Free s]) in
      case close_file c of (c', file) \<Rightarrow>
        (c'\<lparr>cn_fd := (if 0 \<le> cn_fd c then -1 else cn_fd c), cn_ssl := None, cn_state := CLOSED\<rparr>,
         sock @ tls @ file))"

text \<open>\<open>close(); return Want::NONE;\<close> and the like.\<close>

definition closing :: "connection \<Rightarrow> conn_step" where
  "closing c = (case conn_close c of (c', es) \<Rightarrow> (Want_None, c', es))"

definition waiting :: "want \<Rightarrow> connection \<Rightarrow> conn_step" where
  "waiting w c = (w, c, [])"

subsection \<open>Preparing a response\<close>

definition prepare_headers :: "io \<Rightarrow> connection \<Rightarrow> connection" where
  "prepare_headers io c = c\<lparr>cn_header_buf := build_headers (io_time io) (cn_response c), cn_header_sent := 0\<rparr>"

text \<open>The error answers the connection builds itself, each a fixed page and a closed connection.\<close>

definition error_response :: "io \<Rightarrow> status \<Rightarrow> string \<Rightarrow> connection \<Rightarrow> conn_step" where
  "error_response io st body c =
     (let c1 = c\<lparr>cn_response :=
            set_content_length (of_nat (length body)) (set_content_type ''text/html; charset=utf-8''
              (set_keep_alive False (set_body body (set_status st (cn_response c)))))\<rparr> in
      (Want_Write, (prepare_headers io c1)\<lparr>cn_state := SENDING_HEADERS\<rparr>, []))"

definition set_send_file :: "int \<Rightarrow> int \<Rightarrow> int \<Rightarrow> int \<Rightarrow> bool \<Rightarrow> connection \<Rightarrow> connection" where
  "set_send_file fd sz start stop is_head c = c\<lparr>cn_file_fd := fd, cn_file_size := sz,
     cn_send_offset := start, cn_send_remaining := (if start \<le> stop then stop - start + 1 else 0),
     cn_is_head := is_head\<rparr>"

subsection \<open>Protocol detection and handshake\<close>

definition do_proto_detect :: "io \<Rightarrow> bool \<Rightarrow> connection \<Rightarrow> conn_step" where
  "do_proto_detect io tls_available c =
     (case io_recv_peek io (cn_fd c) of
        Sys_EAGAIN \<Rightarrow> waiting Want_Read c
      | Sys_Error \<Rightarrow> closing c
      | Sys_OK [] \<Rightarrow> closing c
      | Sys_OK (b # _) \<Rightarrow>
          if byte_val b = 0x16 then
            (if \<not> tls_available
             then error_response io BAD_REQUEST
                    (error_body BAD_REQUEST @ [LF] @ ''(Server does not support HTTPS/TLS)'') c
             else waiting Want_None (c\<lparr>cn_state := TLS_ACCEPT\<rparr>))
          else waiting Want_Read (c\<lparr>cn_last_active := io_now io, cn_state := READING\<rparr>))"

definition do_tls_accept :: "io \<Rightarrow> connection \<Rightarrow> conn_step" where
  "do_tls_accept io c =
     (case io_ssl_accept io (cn_ssl c) of
        Ssl_OK _ \<Rightarrow> waiting Want_Read (c\<lparr>cn_state := READING, cn_last_active := io_now io\<rparr>)
      | Ssl_Want_Read \<Rightarrow> waiting Want_Read c
      | Ssl_Want_Write \<Rightarrow> waiting Want_Write c
      | Ssl_Error \<Rightarrow> error_response io INTERNAL_ERROR (error_body INTERNAL_ERROR) c)"

subsection \<open>Reading and parsing\<close>

text \<open>The bytes are in the buffer: look for the end of the headers, bound the buffer.\<close>

definition received :: "string \<Rightarrow> connection \<Rightarrow> conn_step" where
  "received bs c =
     (let c = c\<lparr>cn_read_buf := cn_read_buf c @ bs\<rparr> in
      if find_str CRLFCRLF (cn_read_buf c) \<noteq> None
      then waiting Want_None (c\<lparr>cn_headers_complete := True, cn_state := PARSING\<rparr>)
      else if 65536 < length (cn_read_buf c) then closing c
      else waiting Want_Read c)"

text \<open>
  A read of at most 4096 bytes.  The buffer is grown first and cut back to what was read, except
  when the peer has closed the connection.
\<close>

definition do_read :: "io \<Rightarrow> connection \<Rightarrow> conn_step" where
  "do_read io c =
     (let c = c\<lparr>cn_last_active := io_now io\<rparr> in
      case cn_ssl c of
        Some s \<Rightarrow>
          (case io_ssl_read io s 4096 of
             Ssl_OK bs \<Rightarrow> received bs c
           | Ssl_Want_Read \<Rightarrow> waiting Want_Read c
           | Ssl_Want_Write \<Rightarrow> waiting Want_Write c
           | Ssl_Error \<Rightarrow> closing c)
      | None \<Rightarrow>
          (case io_read io (cn_fd c) 4096 of
             Sys_OK bs \<Rightarrow>
               if bs = [] then closing (c\<lparr>cn_read_buf := cn_read_buf c @ replicate 4096 NUL\<rparr>) else received bs c
           | Sys_EAGAIN \<Rightarrow> waiting Want_Read c
           | Sys_Error \<Rightarrow> closing c))"

definition do_parse :: "io \<Rightarrow> connection \<Rightarrow> conn_step" where
  "do_parse io c =
     (case parse_request (cn_request c) (cn_read_buf c) of (ok, req) \<Rightarrow>
       let c = c\<lparr>cn_request := req\<rparr> in
       if \<not> ok then error_response io BAD_REQUEST (error_body BAD_REQUEST) c
       else waiting Want_None c)"

subsection \<open>Sending\<close>

text \<open>One \<open>write\<close> or \<open>SSL_write\<close> of the rest of a buffer.\<close>

datatype send_result = Sent nat "effect list" | Retry want | Send_Failed

definition socket_send :: "io \<Rightarrow> connection \<Rightarrow> string \<Rightarrow> send_result" where
  "socket_send io c buf =
     (case cn_ssl c of
        Some s \<Rightarrow>
          (case io_ssl_write io s buf of
             Ssl_OK n \<Rightarrow> Sent n [E_Ssl_Send s (take n buf)]
           | Ssl_Want_Write \<Rightarrow> Retry Want_Write
           | Ssl_Want_Read \<Rightarrow> Retry Want_Read
           | Ssl_Error \<Rightarrow> Send_Failed)
      | None \<Rightarrow>
          (case io_write io (cn_fd c) buf of
             Sys_OK n \<Rightarrow> Sent n [E_Send (cn_fd c) (take n buf)]
           | Sys_EAGAIN \<Rightarrow> Retry Want_Write
           | Sys_Error \<Rightarrow> Send_Failed))"

text \<open>The body is out: the file is closed, the connection waits for the next request.\<close>

definition body_done :: "connection \<Rightarrow> conn_step" where
  "body_done c = (case close_file (c\<lparr>cn_state := KEEP_ALIVE\<rparr>) of (c', es) \<Rightarrow> (Want_Read, c', es))"

definition do_send_body_plain :: "io \<Rightarrow> connection \<Rightarrow> conn_step" where
  "do_send_body_plain io c =
     (if cn_send_remaining c \<le> 0 then body_done c
      else case io_sendfile io (cn_file_fd c) (cn_fd c) (cn_send_offset c) (cn_send_remaining c) of
        Sf_Done n \<Rightarrow>
          (case body_done (c\<lparr>cn_send_remaining := 0\<rparr>) of (w, c', es) \<Rightarrow>
             (w, c', E_Sendfile (cn_file_fd c) (cn_fd c) (cn_send_offset c) n # es))
      | Sf_EAGAIN n \<Rightarrow>
          (Want_Write, c\<lparr>cn_send_offset := cn_send_offset c + int n,
                         cn_send_remaining := cn_send_remaining c - int n\<rparr>,
           [E_Sendfile (cn_file_fd c) (cn_fd c) (cn_send_offset c) n])
      | Sf_Error \<Rightarrow> closing c)"

definition CHUNK_SIZE :: nat where "CHUNK_SIZE = 65536"

definition resize :: "nat \<Rightarrow> string \<Rightarrow> string" where
  "resize n s = take n s @ replicate (n - length s) NUL"

text \<open>
  The next chunk, when the last one is out: the early returns at the end of the body and at a
  failed or empty \<open>pread\<close> are \<open>Inl\<close>.
\<close>

definition load_chunk :: "io \<Rightarrow> connection \<Rightarrow> conn_step + connection" where
  "load_chunk io c =
     (if cn_chunk_sent c < cn_chunk_used c then Inr c
      else if cn_send_remaining c \<le> 0 then Inl (body_done c)
      else let to_read = min CHUNK_SIZE (nat (cn_send_remaining c));
               c = c\<lparr>cn_chunk_buf := resize to_read (cn_chunk_buf c)\<rparr> in
      case io_pread io (cn_file_fd c) to_read (cn_send_offset c) of
        Sys_OK bs \<Rightarrow>
          if bs = [] then Inl (closing c)
          else Inr (c\<lparr>cn_chunk_buf := bs @ drop (length bs) (cn_chunk_buf c),
                      cn_chunk_used := length bs, cn_chunk_sent := 0\<rparr>)
      | Sys_EAGAIN \<Rightarrow> Inl (closing c)
      | Sys_Error \<Rightarrow> Inl (closing c))"

definition do_send_body_tls :: "io \<Rightarrow> connection \<Rightarrow> conn_step" where
  "do_send_body_tls io c =
     (case load_chunk io c of
        Inl result \<Rightarrow> result
      | Inr c \<Rightarrow>
      case socket_send io c (drop (cn_chunk_sent c) (take (cn_chunk_used c) (cn_chunk_buf c))) of
        Retry w \<Rightarrow> waiting w c
      | Send_Failed \<Rightarrow> closing c
      | Sent n es \<Rightarrow>
          let c = c\<lparr>cn_chunk_sent := cn_chunk_sent c + n\<rparr> in
          (Want_Write,
           if cn_chunk_used c \<le> cn_chunk_sent c
           then c\<lparr>cn_send_offset := cn_send_offset c + int (cn_chunk_used c),
                  cn_send_remaining := cn_send_remaining c - int (cn_chunk_used c)\<rparr>
           else c, es))"

definition send_memory_body :: "io \<Rightarrow> connection \<Rightarrow> conn_step" where
  "send_memory_body io c =
     (let body = rs_body (cn_response c) in
      if length body - cn_body_sent c = 0 then waiting Want_Read (c\<lparr>cn_state := KEEP_ALIVE\<rparr>)
      else case socket_send io c (drop (cn_body_sent c) body) of
        Retry w \<Rightarrow> waiting w c
      | Send_Failed \<Rightarrow> closing c
      | Sent n es \<Rightarrow>
          let c = c\<lparr>cn_body_sent := cn_body_sent c + n\<rparr> in
          if length body \<le> cn_body_sent c then (Want_Read, c\<lparr>cn_state := KEEP_ALIVE\<rparr>, es)
          else (Want_Write, c, es))"

definition do_send_body :: "io \<Rightarrow> connection \<Rightarrow> conn_step" where
  "do_send_body io c =
     (if cn_file_fd c < 0 \<and> has_body (cn_response c) then send_memory_body io c
      else if cn_ssl c \<noteq> None then do_send_body_tls io c
      else do_send_body_plain io c)"

definition do_send_headers :: "io \<Rightarrow> connection \<Rightarrow> conn_step" where
  "do_send_headers io c =
     (case socket_send io c (drop (cn_header_sent c) (cn_header_buf c)) of
        Retry w \<Rightarrow> waiting w c
      | Send_Failed \<Rightarrow> closing c
      | Sent n es \<Rightarrow>
          let c = c\<lparr>cn_header_sent := cn_header_sent c + n\<rparr> in
          if length (cn_header_buf c) \<le> cn_header_sent c then
            (if cn_is_head c \<or> (\<not> has_body (cn_response c) \<and> cn_file_fd c < 0)
             then (Want_Read, c\<lparr>cn_state := KEEP_ALIVE\<rparr>, es)
             else case do_send_body io (c\<lparr>cn_state := SENDING_BODY\<rparr>) of (w, c', es') \<Rightarrow> (w, c', es @ es'))
          else (Want_Write, c, es))"

definition is_expired :: "int \<Rightarrow> int \<Rightarrow> connection \<Rightarrow> bool" where
  "is_expired now timeout c \<longleftrightarrow> timeout < now - cn_last_active c"

end
