(* ===== verification/Connection_Pool.thy ===== *)
theory Connection_Pool
  imports Prelude
begin

text \<open>
  \<open>src/core/connection_pool.h\<close>: the pool of a fixed number of slots with a stack of free
  indices.  A pointer to a slot is the index of the slot.  The locale \<open>slot_pool\<close> is the
  contract the event loop relies on; the pool of the code is its interpretation.
\<close>

subsection \<open>The pool\<close>

definition MAX_CONNECTIONS :: nat where "MAX_CONNECTIONS = 16384"

record 'c pool =
  pl_connections :: "'c list"
  pl_free_list :: "nat list"
  pl_free_head :: nat
  pl_active_count :: "64 word"

definition pool_init :: "'c \<Rightarrow> 'c pool" where
  "pool_init c = \<lparr>pl_connections = replicate MAX_CONNECTIONS c, pl_free_list = [0..<MAX_CONNECTIONS],
     pl_free_head = 0, pl_active_count = 0\<rparr>"

definition acquire :: "'c pool \<Rightarrow> (nat \<times> 'c pool) option" where
  "acquire p =
     (if MAX_CONNECTIONS \<le> pl_free_head p then None
      else Some (pl_free_list p ! pl_free_head p,
                 p\<lparr>pl_free_head := pl_free_head p + 1, pl_active_count := pl_active_count p + 1\<rparr>))"

text \<open>
  \<open>--free_head_\<close> wraps at 0, and the store that follows is then outside the vector.
\<close>

definition release :: "nat \<Rightarrow> 'c pool \<Rightarrow> 'c pool cpp" where
  "release idx p =
     (if MAX_CONNECTIONS \<le> idx then Inr p
      else if pl_free_head p = 0 then Inl Out_Of_Bounds
      else Inr (p\<lparr>pl_free_head := pl_free_head p - 1,
                  pl_free_list := (pl_free_list p)[pl_free_head p - 1 := idx],
                  pl_active_count := pl_active_count p - 1\<rparr>))"

subsection \<open>The invariant\<close>

definition free_slots :: "'c pool \<Rightarrow> nat list" where
  "free_slots p = drop (pl_free_head p) (pl_free_list p)"

definition lent :: "'c pool \<Rightarrow> nat set" where
  "lent p = {..<MAX_CONNECTIONS} - set (free_slots p)"

definition pool_inv :: "'c pool \<Rightarrow> bool" where
  "pool_inv p \<longleftrightarrow> length (pl_connections p) = MAX_CONNECTIONS \<and> length (pl_free_list p) = MAX_CONNECTIONS
     \<and> pl_free_head p \<le> MAX_CONNECTIONS \<and> distinct (free_slots p) \<and> set (free_slots p) \<subseteq> {..<MAX_CONNECTIONS}
     \<and> pl_active_count p = of_nat (pl_free_head p)"

lemma pool_init_inv: "pool_inv (pool_init c)"
  by (auto simp: pool_inv_def pool_init_def free_slots_def)

lemma pool_init_lent [simp]: "lent (pool_init c) = {}"
  by (auto simp: lent_def pool_init_def free_slots_def)

lemma pool_init_connections [simp]: "pl_connections (pool_init c) = replicate MAX_CONNECTIONS c"
  by (simp add: pool_init_def)

lemma lent_update_connections [simp]: "lent (p\<lparr>pl_connections := cs\<rparr>) = lent p"
  by (simp add: lent_def free_slots_def)

lemma pool_inv_update_connections [intro]:
  "pool_inv p \<Longrightarrow> length cs = length (pl_connections p) \<Longrightarrow> pool_inv (p\<lparr>pl_connections := cs\<rparr>)"
  by (simp add: pool_inv_def free_slots_def)

lemma acquire_connections: "acquire p = Some (s, p') \<Longrightarrow> pl_connections p' = pl_connections p"
  by (auto simp: acquire_def split: if_splits)

lemma release_connections: "release s p = Inr p' \<Longrightarrow> pl_connections p' = pl_connections p"
  by (auto simp: release_def split: if_splits)

lemma finite_lent [simp]: "finite (lent p)"
  by (simp add: lent_def)

lemma card_lent:
  assumes "pool_inv p"
  shows "card (lent p) = pl_free_head p"
proof -
  have "card (lent p) = MAX_CONNECTIONS - card (set (free_slots p))"
    using assms unfolding lent_def pool_inv_def by (subst card_Diff_subset) auto
  also have "card (set (free_slots p)) = length (free_slots p)"
    using assms distinct_card unfolding pool_inv_def by blast
  also have "length (free_slots p) = MAX_CONNECTIONS - pl_free_head p"
    using assms by (simp add: free_slots_def pool_inv_def)
  finally show ?thesis using assms by (simp add: pool_inv_def)
qed

lemma acquire_step:
  assumes "pool_inv p" and "acquire p = Some (s, p')"
  shows "pool_inv p' \<and> s < MAX_CONNECTIONS \<and> s \<notin> lent p \<and> lent p' = insert s (lent p)"
proof -
  from assms(2) have h: "pl_free_head p < MAX_CONNECTIONS" and s: "s = pl_free_list p ! pl_free_head p"
    and p': "p' = p\<lparr>pl_free_head := pl_free_head p + 1, pl_active_count := pl_active_count p + 1\<rparr>"
    by (auto simp: acquire_def split: if_splits)
  have "free_slots p = s # free_slots p'"
    using h assms(1) by (simp add: free_slots_def s p' pool_inv_def Cons_nth_drop_Suc)
  moreover from assms(1) have "distinct (free_slots p)" "set (free_slots p) \<subseteq> {..<MAX_CONNECTIONS}"
    by (auto simp: pool_inv_def)
  ultimately have "s < MAX_CONNECTIONS" "s \<notin> lent p" "lent p' = insert s (lent p)"
    "distinct (free_slots p')" "set (free_slots p') \<subseteq> {..<MAX_CONNECTIONS}"
    by (auto simp: lent_def)
  with assms(1) h show ?thesis by (auto simp: pool_inv_def p')
qed

lemma acquire_None_iff:
  assumes "pool_inv p"
  shows "acquire p = None \<longleftrightarrow> lent p = {..<MAX_CONNECTIONS}"
proof -
  have "lent p = {..<MAX_CONNECTIONS} \<longleftrightarrow> card (lent p) = MAX_CONNECTIONS"
    by (metis card_lessThan card_subset_eq Diff_subset finite_lessThan lent_def)
  also have "\<dots> \<longleftrightarrow> pl_free_head p = MAX_CONNECTIONS" by (simp add: card_lent [OF assms])
  finally show ?thesis using assms by (auto simp: acquire_def pool_inv_def)
qed

lemma release_step:
  assumes "pool_inv p" and "s \<in> lent p"
  shows "\<exists>p'. release s p = Inr p' \<and> pool_inv p' \<and> lent p' = lent p - {s}"
proof -
  from assms have s: "s < MAX_CONNECTIONS" "s \<notin> set (free_slots p)" by (auto simp: lent_def)
  have "card (lent p) \<noteq> 0" using assms(2) by auto
  then have h: "0 < pl_free_head p" by (simp add: card_lent [OF assms(1)])
  define p' where "p' = p\<lparr>pl_free_head := pl_free_head p - 1,
    pl_free_list := (pl_free_list p)[pl_free_head p - 1 := s], pl_active_count := pl_active_count p - 1\<rparr>"
  have fl: "free_slots p' = s # free_slots p"
  proof -
    from assms(1) h have "pl_free_head p - 1 < length (pl_free_list p)" by (auto simp: pool_inv_def)
    with h show ?thesis
      by (simp add: free_slots_def p'_def Cons_nth_drop_Suc [symmetric])
  qed
  have "release s p = Inr p'" using s h by (simp add: release_def p'_def)
  moreover have "pool_inv p'" using assms(1) s fl h
    by (auto simp: pool_inv_def p'_def of_nat_diff)
  moreover have "lent p' = lent p - {s}" using fl by (auto simp: lent_def)
  ultimately show ?thesis by blast
qed

subsection \<open>The contract\<close>

text \<open>
  A client that acquires slots and gives back, in any order, slots it still holds.  The
  operations are parameters; the list holds the slots in its hands.
\<close>

datatype pool_op = Acquire | Release nat

fun pool_run ::
  "('p \<Rightarrow> (nat \<times> 'p) option) \<Rightarrow> (nat \<Rightarrow> 'p \<Rightarrow> 'p cpp) \<Rightarrow> pool_op list \<Rightarrow> nat list \<times> 'p \<Rightarrow> (nat list \<times> 'p) cpp" where
  "pool_run acq rel [] st = Inr st"
| "pool_run acq rel (Acquire # ops) (held, p) =
     (case acq p of None \<Rightarrow> pool_run acq rel ops (held, p)
                  | Some (s, p') \<Rightarrow> pool_run acq rel ops (s # held, p'))"
| "pool_run acq rel (Release k # ops) (held, p) =
     (if k < length held
      then case rel (held ! k) p of Inl e \<Rightarrow> Inl e
           | Inr p' \<Rightarrow> pool_run acq rel ops (take k held @ drop (Suc k) held, p')
      else pool_run acq rel ops (held, p))"

locale slot_pool =
  fixes inv :: "'p \<Rightarrow> bool" and used :: "'p \<Rightarrow> nat set" and cap :: nat
    and acq :: "'p \<Rightarrow> (nat \<times> 'p) option" and rel :: "nat \<Rightarrow> 'p \<Rightarrow> 'p cpp"
  assumes used_bounded: "inv p \<Longrightarrow> used p \<subseteq> {..<cap}"
    and acq_fresh: "inv p \<Longrightarrow> acq p = Some (s, p') \<Longrightarrow> inv p' \<and> s < cap \<and> s \<notin> used p \<and> used p' = insert s (used p)"
    and acq_full: "inv p \<Longrightarrow> acq p = None \<longleftrightarrow> used p = {..<cap}"
    and rel_used: "inv p \<Longrightarrow> s \<in> used p \<Longrightarrow> \<exists>p'. rel s p = Inr p' \<and> inv p' \<and> used p' = used p - {s}"
begin

definition held_ok :: "nat list \<times> 'p \<Rightarrow> bool" where
  "held_ok st \<longleftrightarrow> inv (snd st) \<and> distinct (fst st) \<and> set (fst st) = used (snd st)"

lemma held_bounded: "held_ok (held, p) \<Longrightarrow> distinct held \<and> set held \<subseteq> {..<cap} \<and> length held = card (used p)"
proof -
  assume ok: "held_ok (held, p)"
  then have "inv p" "distinct held" "set held = used p" by (auto simp: held_ok_def)
  with used_bounded [of p] distinct_card [of held] show ?thesis by metis
qed

lemma held_full:
  assumes "held_ok (held, p)"
  shows "acq p = None \<longleftrightarrow> length held = cap"
proof -
  have inv: "inv p" using assms by (simp add: held_ok_def)
  have "used p = {..<cap} \<longleftrightarrow> card (used p) = cap"
    using card_subset_eq [OF finite_lessThan used_bounded [OF inv]] card_lessThan [of cap] by metis
  then show ?thesis using held_bounded [OF assms] acq_full [OF inv] by auto
qed

lemma held_release:
  assumes "held_ok (held, p)" and "k < length held"
  shows "\<exists>p'. rel (held ! k) p = Inr p' \<and> held_ok (take k held @ drop (Suc k) held, p')"
proof -
  have inv: "inv p" and d: "distinct held" and u: "set held = used p"
    using assms(1) by (simp_all add: held_ok_def)
  have "held ! k \<in> used p" using nth_mem [OF assms(2)] by (simp only: u)
  then obtain p' where p': "rel (held ! k) p = Inr p'" "inv p'" "used p' = used p - {held ! k}"
    using rel_used [OF inv] by blast
  have split: "held = take k held @ held ! k # drop (Suc k) held" using assms(2) by (rule id_take_nth_drop)
  let ?rest = "take k held @ drop (Suc k) held"
  have "distinct ?rest \<and> held ! k \<notin> set ?rest"
    using d by (subst (asm) split) auto
  moreover have "set held = insert (held ! k) (set ?rest)" by (subst split) auto
  ultimately have "held_ok (?rest, p')" unfolding held_ok_def fst_conv snd_conv p'(3) u [symmetric]
    using p'(2) by blast
  with p' show ?thesis by blast
qed

lemma pool_run_safe: "held_ok st \<Longrightarrow> \<exists>st'. pool_run acq rel ops st = Inr st' \<and> held_ok st'"
proof (induction ops arbitrary: st)
  case (Cons op ops)
  obtain held p where st: "st = (held, p)" by (cases st)
  show ?case
  proof (cases op)
    case Acquire
    show ?thesis
    proof (cases "acq p")
      case None
      then show ?thesis using Cons by (simp add: st Acquire)
    next
      case (Some r)
      obtain s p' where r: "r = (s, p')" by (cases r)
      have "held_ok (s # held, p')"
        using Cons.prems acq_fresh [of p s p'] Some r by (auto simp: st held_ok_def)
      then show ?thesis using Cons.IH Some r by (simp add: st Acquire)
    qed
  next
    case (Release k)
    show ?thesis
    proof (cases "k < length held")
      case True
      then show ?thesis using Cons held_release [of held p k] by (auto simp: st Release)
    qed (use Cons in \<open>simp add: st Release\<close>)
  qed
qed simp

end

interpretation pool: slot_pool pool_inv lent MAX_CONNECTIONS acquire release
proof unfold_locales
  show "lent p \<subseteq> {..<MAX_CONNECTIONS}" for p :: "'a pool" by (simp add: lent_def)
qed (blast dest: acquire_step | simp add: acquire_None_iff | rule release_step)+

text \<open>
  C17: whatever acquires and releases a client makes, as long as it gives back only
  slots it holds, the pool is never corrupted: no two holders share a slot, the count of active
  connections is the number of slots held, and \<open>acquire\<close> fails exactly when all 16384 are out.
\<close>

theorem pool_run_exclusive:
  "\<exists>held p. pool_run acquire release ops ([], pool_init c) = Inr (held, p)
     \<and> distinct held \<and> set held \<subseteq> {..<MAX_CONNECTIONS} \<and> unat (pl_active_count p) = length held
     \<and> (acquire p = None \<longleftrightarrow> length held = MAX_CONNECTIONS)"
proof -
  have "pool.held_ok ([], pool_init c)" by (simp add: pool.held_ok_def pool_init_inv)
  from pool.pool_run_safe [OF this, of ops] obtain held p where
    run: "pool_run acquire release ops ([], pool_init c) = Inr (held, p)" and ok: "pool.held_ok (held, p)"
    by auto
  have inv: "pool_inv p" using ok by (simp add: pool.held_ok_def)
  have "length held = pl_free_head p" using pool.held_bounded [OF ok] card_lent [OF inv] by simp
  moreover have "unat (pl_active_count p) = pl_free_head p"
    using inv by (simp add: pool_inv_def MAX_CONNECTIONS_def unsigned_of_nat take_bit_nat_eq_self)
  ultimately show ?thesis using run pool.held_bounded [OF ok] pool.held_full [OF ok] by auto
qed

text \<open>
  What giving a slot back twice does.  The pool accepts it as long as another slot is out;
  after it the same slot is at the top of the free stack and once more below, so the next
  holder shares its connection with a later one.
\<close>

theorem release_twice_aliases:
  assumes "pool_inv p" and "s < MAX_CONNECTIONS" and "s \<notin> lent p" and "lent p \<noteq> {}"
  shows "\<exists>p1 p2. release s p = Inr p1 \<and> acquire p1 = Some (s, p2) \<and> s \<in> set (free_slots p2)"
proof -
  have "card (lent p) \<noteq> 0" using assms(4) by simp
  then have h: "0 < pl_free_head p" by (simp add: card_lent [OF assms(1)])
  with assms(1) have b: "pl_free_head p - 1 < length (pl_free_list p)" "pl_free_head p - 1 < MAX_CONNECTIONS"
    by (auto simp: pool_inv_def)
  have "s \<in> set (free_slots p)" using assms(2,3) by (simp add: lent_def)
  then show ?thesis
    using assms(2) h b by (simp add: release_def acquire_def free_slots_def not_le)
qed

lemma release_twice_aliases_witness:
  "\<exists>p p1 p2. acquire (pool_init ()) = Some (0, p) \<and> release 1 p = Inr p1
     \<and> acquire p1 = Some (1, p2) \<and> 1 \<in> set (free_slots p2)"
proof -
  have pos: "0 < MAX_CONNECTIONS" by (simp add: MAX_CONNECTIONS_def)
  obtain p where p: "acquire (pool_init ()) = Some (0, p)"
    using pos nth_upt [of 0 0 MAX_CONNECTIONS] by (simp add: acquire_def pool_init_def del: upt_Suc)
  from acquire_step [OF pool_init_inv p] have inv: "pool_inv p" and l: "lent p = {0}" by simp_all
  have "1 < MAX_CONNECTIONS" by (simp add: MAX_CONNECTIONS_def)
  from release_twice_aliases [OF inv this] show ?thesis using p l by auto
qed

end
