(* ===== verification/Tls_Context.thy ===== *)
theory Tls_Context
  imports Prelude
begin

text \<open>
  \<open>src/core/tls_context.h\<close>: the class \<open>TlsContext\<close>, the owner of one \<open>SSL_CTX\<close>.  OpenSSL is
  not part of the program: a context and an SSL object are numbers, and the answers of the
  calls are arguments (\<open>None\<close> for a null pointer, the sign as in the manual pages).
\<close>

record tls_context =
  tls_ctx :: "nat option"
  tls_loaded :: bool

text \<open>
  What the constructor asks OpenSSL to configure, in its order; each call is recorded with
  the values the code passes.
\<close>

datatype tls_setting =
  Min_Proto_TLS1_2 | Enable_Partial_Write | Accept_Moving_Write_Buffer | No_Compression
| No_Session_Resumption_On_Renegotiation | Cipher_Server_Preference | Cipher_List string

definition tls_settings :: "tls_setting list" where
  "tls_settings = [Min_Proto_TLS1_2, Enable_Partial_Write, Accept_Moving_Write_Buffer, No_Compression,
     No_Session_Resumption_On_Renegotiation, Cipher_Server_Preference,
     Cipher_List ''HIGH:!aNULL:!eNULL:!MD5:!PSK:!SRP'']"

definition tls_create :: "nat option \<Rightarrow> tls_context \<times> tls_setting list" where
  "tls_create ctx_new = (\<lparr>tls_ctx = ctx_new, tls_loaded = False\<rparr>,
     (case ctx_new of None \<Rightarrow> [] | Some _ \<Rightarrow> tls_settings))"

text \<open>The contexts the destructor frees.\<close>

definition tls_destroy :: "tls_context \<Rightarrow> nat list" where
  "tls_destroy t = (case tls_ctx t of None \<Rightarrow> [] | Some x \<Rightarrow> [x])"

text \<open>
  The move constructor gives the new object and what is left of the source; the move assignment
  to another object also what it frees.
\<close>

definition tls_move :: "tls_context \<Rightarrow> tls_context \<times> tls_context" where
  "tls_move other = (\<lparr>tls_ctx = tls_ctx other, tls_loaded = False\<rparr>, other\<lparr>tls_ctx := None\<rparr>)"

definition tls_move_assign :: "tls_context \<Rightarrow> tls_context \<Rightarrow> tls_context \<times> tls_context \<times> nat list" where
  "tls_move_assign t other = (t\<lparr>tls_ctx := tls_ctx other\<rparr>, other\<lparr>tls_ctx := None\<rparr>, tls_destroy t)"

text \<open>The answers of \<open>SSL_CTX_use_certificate_file\<close>, \<open>\<dots>_use_PrivateKey_file\<close> and \<open>\<dots>_check_private_key\<close>.\<close>

definition load_certificate ::
  "(string \<Rightarrow> int) \<Rightarrow> (string \<Rightarrow> int) \<Rightarrow> int \<Rightarrow> string \<Rightarrow> string \<Rightarrow> tls_context \<Rightarrow> bool \<times> tls_context" where
  "load_certificate use_cert use_key check_key cert_file key_file t =
     (if tls_ctx t = None then (False, t)
      else if use_cert cert_file \<le> 0 then (False, t)
      else if use_key key_file \<le> 0 then (False, t)
      else if check_key = 0 then (False, t)
      else (True, t\<lparr>tls_loaded := True\<rparr>))"

definition new_ssl :: "nat option \<Rightarrow> tls_context \<Rightarrow> nat option" where
  "new_ssl ssl_new t = (case tls_ctx t of None \<Rightarrow> None | Some _ \<Rightarrow> ssl_new)"

definition tls_usable :: "tls_context \<Rightarrow> bool" where
  "tls_usable t \<longleftrightarrow> tls_loaded t"

text \<open>
  A context counts as usable only with a certificate and a key that match, loaded into a real
  context, and only such a context makes SSL objects for the server.
\<close>

theorem tls_usable_sound:
  "tls_usable (snd (load_certificate use_cert use_key check_key cert key (fst (tls_create ctx_new))))
     \<longleftrightarrow> ctx_new \<noteq> None \<and> 0 < use_cert cert \<and> 0 < use_key key \<and> check_key \<noteq> 0"
  by (auto simp: tls_usable_def load_certificate_def tls_create_def)

text \<open>
  A move takes the OpenSSL context along, so it is freed exactly once, but not the
  mark that a certificate was loaded: the new owner of a loaded context is not usable.
\<close>

theorem tls_move_loses_loaded:
  "\<not> tls_usable (fst (tls_move t)) \<and> new_ssl s (fst (tls_move t)) = new_ssl s t
     \<and> tls_destroy (fst (tls_move t)) @ tls_destroy (snd (tls_move t)) = tls_destroy t"
  by (simp add: tls_move_def tls_usable_def tls_destroy_def new_ssl_def)

end
