(* ===== verification/Path_Normalize.thy ===== *)
theory Path_Normalize
  imports C_Library
begin

text \<open>
  \<open>src/server/file_server.cpp\<close>, the path functions: \<open>FileServer::normalize\<close> (percent
  decoding, rejection of control bytes, resolution of \<open>.\<close> and \<open>..\<close>, rejection of hidden
  names, reassembly) and \<open>FileServer::is_within_root\<close>.  The index loops of the code keep the
  suffix of the string that starts at the index.  An empty result is a rejected path.
\<close>

subsection \<open>The steps of \<open>normalize\<close>\<close>

function percent_decode :: "string \<Rightarrow> string" where
  "percent_decode [] = []"
| "percent_decode (c # cs) =
     (if c = CHR ''%'' \<and> 2 \<le> length cs \<and> snd (strtol 16 (take 2 cs)) = 2
         \<and> 0 < fst (strtol 16 (take 2 cs))
      then char_of (nat (fst (strtol 16 (take 2 cs)))) # percent_decode (drop 2 cs)
      else c # percent_decode cs)"
  by pat_completeness auto
termination
  by (relation "measure length") auto

definition illegal_byte :: "char \<Rightarrow> bool" where
  "illegal_byte c \<longleftrightarrow> byte_val c = 0 \<or> (byte_val c < 32 \<and> c \<noteq> TAB)"

function resolve_segments :: "string list \<Rightarrow> string \<Rightarrow> string list option" where
  "resolve_segments parts s =
     (let s1 = dropWhile (\<lambda>c. c = CHR ''/'') s in
      if s1 = [] then Some parts
      else
        let end = (case find_str ''/'' s1 of Some e \<Rightarrow> e | None \<Rightarrow> length s1);
            seg = take end s1;
            rest = drop (end + 1) s1 in
        if seg = ''.'' then resolve_segments parts rest
        else if seg = ''..'' then
          (if parts \<noteq> [] then resolve_segments (butlast parts) rest else None)
        else resolve_segments (parts @ [seg]) rest)"
  by pat_completeness auto
termination
  by (relation "measure (\<lambda>(parts, s). length s)")
    (auto simp: Let_def simp del: length_drop dropWhile_eq_Nil_conv intro: length_drop_dropWhile)

declare resolve_segments.simps [simp del]

definition join_parts :: "string list \<Rightarrow> string" where
  "join_parts parts =
     (let result = concat (map (\<lambda>p. CHR ''/'' # p) parts) in if result = [] then ''/'' else result)"

definition normalize_path :: "string \<Rightarrow> string" where
  "normalize_path path =
     (let decoded = percent_decode path in
      if list_ex illegal_byte decoded then []
      else case resolve_segments [] decoded of
             None \<Rightarrow> []
           | Some parts \<Rightarrow>
               if list_ex (\<lambda>p. p \<noteq> [] \<and> hd p = CHR ''.'') parts then [] else join_parts parts)"

definition is_within_root :: "string \<Rightarrow> string \<Rightarrow> bool" where
  "is_within_root resolved root =
     (if find_str root resolved \<noteq> Some 0 then False
      else if length resolved = length root then True
      else resolved ! length root = CHR ''/'')"

subsection \<open>A reference: split, filter, walk\<close>

fun split_slash :: "string \<Rightarrow> string list" where
  "split_slash [] = [[]]"
| "split_slash (c # cs) =
     (if c = CHR ''/'' then [] # split_slash cs
      else (c # hd (split_slash cs)) # tl (split_slash cs))"

definition segments :: "string \<Rightarrow> string list" where
  "segments s = filter (\<lambda>seg. seg \<noteq> [] \<and> seg \<noteq> ''.'') (split_slash s)"

fun walk :: "string list \<Rightarrow> string list \<Rightarrow> string list option" where
  "walk parts [] = Some parts"
| "walk parts (seg # segs) =
     (if seg = ''..'' then (if parts \<noteq> [] then walk (butlast parts) segs else None)
      else walk (parts @ [seg]) segs)"

lemma split_slash_nonempty [simp]: "split_slash s \<noteq> []"
  by (cases s) auto

lemma split_slash_plain: "CHR ''/'' \<notin> set s \<Longrightarrow> split_slash s = [s]"
  by (induction s) auto

lemma split_slash_append:
  "CHR ''/'' \<notin> set xs \<Longrightarrow> split_slash (xs @ CHR ''/'' # ys) = xs # split_slash ys"
  by (induction xs) auto

lemma segments_slash [simp]: "segments (CHR ''/'' # s) = segments s"
  by (simp add: segments_def)

lemma segments_Nil [simp]: "segments [] = []"
  by (simp add: segments_def)

lemma segments_plain:
  "CHR ''/'' \<notin> set s \<Longrightarrow> segments s = (if s = [] \<or> s = ''.'' then [] else [s])"
  by (simp add: segments_def split_slash_plain)

lemma segments_append:
  "CHR ''/'' \<notin> set xs \<Longrightarrow> segments (xs @ CHR ''/'' # ys)
     = (if xs = [] \<or> xs = ''.'' then segments ys else xs # segments ys)"
  by (simp add: segments_def split_slash_append)

lemma segments_dropWhile: "segments (dropWhile (\<lambda>c. c = CHR ''/'') s) = segments s"
  by (induction s) auto

lemma next_segment:
  assumes "s1 \<noteq> []" and "hd s1 \<noteq> CHR ''/''"
    and "end = (case find_str ''/'' s1 of Some e \<Rightarrow> e | None \<Rightarrow> length s1)"
  shows "segments s1 = (if take end s1 = ''.'' then [] else [take end s1]) @ segments (drop (end + 1) s1)"
proof (cases "find_str ''/'' s1")
  case None
  with assms(1,3) show ?thesis by (auto simp: find_char_None_iff segments_plain)
next
  case (Some e)
  then obtain xs ys where "s1 = xs @ CHR ''/'' # ys" "length xs = e" "CHR ''/'' \<notin> set xs"
    by (rule find_char_SomeE)
  moreover from this have "xs \<noteq> []" using assms(2) by (cases xs) auto
  ultimately show ?thesis using Some assms(3) by (simp add: segments_append)
qed

lemma resolve_segments_end:
  "dropWhile (\<lambda>c. c = CHR ''/'') s = [] \<Longrightarrow> resolve_segments parts s = Some parts"
  by (subst resolve_segments.simps) (simp only: Let_def if_True simp_thms)

lemma resolve_segments_step:
  assumes "s1 = dropWhile (\<lambda>c. c = CHR ''/'') s" and "s1 \<noteq> []"
    and "end = (case find_str ''/'' s1 of Some e \<Rightarrow> e | None \<Rightarrow> length s1)"
    and "seg = take end s1" and "rest = drop (end + 1) s1"
  shows "resolve_segments parts s =
    (if seg = ''.'' then resolve_segments parts rest
     else if seg = ''..'' then (if parts \<noteq> [] then resolve_segments (butlast parts) rest else None)
     else resolve_segments (parts @ [seg]) rest)"
  by (subst resolve_segments.simps) (simp only: Let_def assms(1) [symmetric] assms(2)
      assms(3) [symmetric] assms(4) [symmetric] assms(5) [symmetric] if_False not_False_eq_True)

lemma resolve_segments_walk: "resolve_segments parts s = walk parts (segments s)"
proof (induction s arbitrary: parts rule: length_induct)
  case (1 s)
  define s1 where "s1 = dropWhile (\<lambda>c. c = CHR ''/'') s"
  define e where "e = (case find_str ''/'' s1 of Some e \<Rightarrow> e | None \<Rightarrow> length s1)"
  define seg where "seg = take e s1"
  define rest where "rest = drop (e + 1) s1"
  have s1: "segments s = segments s1" by (simp add: s1_def segments_dropWhile)
  show ?case
  proof (cases "s1 = []")
    case True
    then have "resolve_segments parts s = Some parts" "segments s = []"
      using resolve_segments_end s1 by (simp_all only: s1_def segments_Nil)
    then show ?thesis by simp
  next
    case False
    have hd: "hd s1 \<noteq> CHR ''/''"
      using hd_dropWhile [OF False [unfolded s1_def]] by (simp only: s1_def not_False_eq_True)
    have "segments s = (if seg = ''.'' then [] else [seg]) @ segments rest"
      using next_segment [OF False hd e_def] by (simp only: s1 seg_def rest_def)
    moreover have "length rest < length s"
      using length_drop_dropWhile [OF False [unfolded s1_def], of e]
      by (simp only: rest_def s1_def Suc_eq_plus1)
    then have "resolve_segments ps rest = walk ps (segments rest)" for ps
      using "1.IH" by blast
    ultimately show ?thesis
      using resolve_segments_step [OF s1_def False e_def seg_def rest_def, of parts] by simp
  qed
qed

subsection \<open>What the walk accepts and yields\<close>

definition climbs :: "nat \<Rightarrow> string list \<Rightarrow> bool" where
  "climbs depth segs \<longleftrightarrow> (\<exists>k \<le> length segs.
     depth + length (filter (\<lambda>s. s \<noteq> ''..'') (take k segs))
       < length (filter (\<lambda>s. s = ''..'') (take k segs)))"

lemma climbs_Nil [simp]: "\<not> climbs depth []"
  by (simp add: climbs_def)

lemma climbs_Cons:
  "climbs depth (seg # segs) \<longleftrightarrow>
     (if seg = ''..'' then depth = 0 \<or> climbs (depth - 1) segs else climbs (Suc depth) segs)"
proof -
  have ex: "(\<exists>k \<le> Suc n. P k) \<longleftrightarrow> P 0 \<or> (\<exists>k \<le> n. P (Suc k))" for n and P :: "nat \<Rightarrow> bool"
    by (metis Suc_le_mono not0_implies_Suc zero_le)
  show ?thesis
    by (cases depth) (auto simp: climbs_def ex intro: exI [of _ 0])
qed

lemma walk_None_iff: "walk parts segs = None \<longleftrightarrow> climbs (length parts) segs"
  by (induction parts segs rule: walk.induct) (auto simp: climbs_Cons)

lemma walk_subset:
  "walk parts segs = Some ps \<Longrightarrow> set ps \<subseteq> set parts \<union> (set segs - {''..''})"
  by (induction parts segs rule: walk.induct) (fastforce split: if_splits dest: in_set_butlastD)+

lemma walk_plain: "''..'' \<notin> set segs \<Longrightarrow> walk parts segs = Some (parts @ segs)"
  by (induction segs arbitrary: parts) auto

lemma set_split_slash:
  "seg \<in> set (split_slash s) \<Longrightarrow> CHR ''/'' \<notin> set seg \<and> set seg \<subseteq> set s"
proof (induction s arbitrary: seg)
  case (Cons c s)
  obtain g gs where g: "split_slash s = g # gs" by (cases "split_slash s") auto
  have "CHR ''/'' \<notin> set g \<and> set g \<subseteq> set s" using Cons.IH [of g] g by simp
  with Cons.IH [of seg] Cons.prems g show ?case by (auto split: if_splits)
qed simp

lemma set_segments:
  "seg \<in> set (segments s) \<Longrightarrow> seg \<noteq> [] \<and> CHR ''/'' \<notin> set seg \<and> set seg \<subseteq> set s"
  by (auto simp: segments_def dest: set_split_slash)

lemma join_parts_nonempty [simp]: "join_parts parts \<noteq> []"
  by (simp add: join_parts_def Let_def)

subsection \<open>Canonical paths\<close>

definition good_name :: "string \<Rightarrow> bool" where
  "good_name p \<longleftrightarrow> p \<noteq> [] \<and> CHR ''/'' \<notin> set p \<and> hd p \<noteq> CHR ''.'' \<and> list_all (\<lambda>c. \<not> illegal_byte c) p"

lemma segments_join: "\<forall>p \<in> set parts. good_name p \<Longrightarrow> segments (join_parts parts) = parts"
proof (induction parts)
  case (Cons p parts)
  have p: "p \<noteq> []" "p \<noteq> ''.''" "CHR ''/'' \<notin> set p"
    using Cons.prems by (auto simp: good_name_def)
  show ?case
  proof (cases parts)
    case Nil
    with p show ?thesis by (simp add: join_parts_def segments_plain)
  next
    case (Cons q qs)
    with p Cons.IH Cons.prems show ?thesis by (simp add: join_parts_def segments_append)
  qed
qed (simp add: join_parts_def)

lemma good_not_hidden: "good_name p \<Longrightarrow> p \<noteq> ''..'' \<and> hd p \<noteq> CHR ''.''"
  by (auto simp: good_name_def)

lemma join_parts_legal:
  "\<forall>p \<in> set parts. good_name p \<Longrightarrow> \<not> list_ex illegal_byte (join_parts parts)"
  by (auto simp: join_parts_def Let_def good_name_def list_ex_iff list_all_iff illegal_byte_def)

lemma normalize_decoded:
  assumes "percent_decode path = join_parts parts" and "\<forall>p \<in> set parts. good_name p"
  shows "normalize_path path = join_parts parts"
proof -
  have "resolve_segments [] (join_parts parts) = Some parts"
    using assms(2) good_not_hidden
    by (simp add: resolve_segments_walk segments_join) (metis append_Nil walk_plain)
  moreover have "\<not> list_ex (\<lambda>p. p \<noteq> [] \<and> hd p = CHR ''.'') parts"
    using assms(2) by (auto simp: list_ex_iff good_name_def)
  ultimately show ?thesis
    using join_parts_legal [OF assms(2)] by (simp add: normalize_path_def assms(1))
qed

lemma percent_decode_plain: "CHR ''%'' \<notin> set s \<Longrightarrow> percent_decode s = s"
  by (induction s) auto

subsection \<open>Properties of \<open>normalize\<close>\<close>

lemma normalize_shape:
  assumes "normalize_path path \<noteq> []"
  shows "\<exists>parts. normalize_path path = join_parts parts \<and> (\<forall>p \<in> set parts. good_name p)"
proof -
  let ?d = "percent_decode path"
  from assms obtain parts where legal: "\<not> list_ex illegal_byte ?d"
    and parts: "resolve_segments [] ?d = Some parts"
    and hid: "\<not> list_ex (\<lambda>p. p \<noteq> [] \<and> hd p = CHR ''.'') parts"
    and n: "normalize_path path = join_parts parts"
    by (auto simp: normalize_path_def Let_def split: if_splits option.splits)
  have "good_name p" if "p \<in> set parts" for p
  proof -
    have "p \<in> set (segments ?d)"
      using parts that walk_subset [of "[]"] by (fastforce simp: resolve_segments_walk)
    then show ?thesis
      using set_segments [of p ?d] legal hid that
      by (auto simp: good_name_def list_ex_iff list_all_iff)
  qed
  with n show ?thesis by blast
qed



text \<open>
  C21: exactly which paths are rejected.  After percent decoding: a NUL or control byte, a
  prefix of the segments with more \<open>..\<close> than names (an escape from the root), or a hidden
  name among the parts that remain.
\<close>

theorem normalize_rejects_iff:
  "normalize_path path = [] \<longleftrightarrow>
     list_ex illegal_byte (percent_decode path)
     \<or> climbs 0 (segments (percent_decode path))
     \<or> (\<exists>parts. walk [] (segments (percent_decode path)) = Some parts
          \<and> list_ex (\<lambda>p. hd p = CHR ''.'') parts)"
proof -
  let ?segs = "segments (percent_decode path)"
  have ne: "\<forall>p \<in> set parts. p \<noteq> []" if "walk [] ?segs = Some parts" for parts
    using walk_subset [OF that] set_segments by fastforce
  show ?thesis
  proof (cases "walk [] ?segs")
    case None
    then show ?thesis using walk_None_iff [of "[]" ?segs]
      by (simp add: normalize_path_def Let_def resolve_segments_walk)
  next
    case (Some parts)
    then have "\<not> climbs 0 ?segs" using walk_None_iff [of "[]" ?segs] by simp
    with Some ne [OF Some] show ?thesis
      by (auto simp: normalize_path_def Let_def resolve_segments_walk list_ex_iff)
  qed
qed

text \<open>
  A canonical path without percent signs is a fixed point, so the second
  normalisation in the directory listing sees the same path as the first.
\<close>

theorem normalize_fixed:
  assumes "\<forall>p \<in> set parts. good_name p \<and> CHR ''%'' \<notin> set p"
  shows "normalize_path (join_parts parts) = join_parts parts"
proof -
  have "CHR ''%'' \<notin> set (join_parts parts)"
    using assms by (auto simp: join_parts_def Let_def)
  then show ?thesis
    using assms by (intro normalize_decoded percent_decode_plain) auto
qed

lemma normalize_fixed_witness: "normalize_path (join_parts [''docs'', ''a b.txt'']) = ''/docs/a b.txt''"
  by (subst normalize_fixed)
    (auto simp: good_name_def illegal_byte_def join_parts_def)

text \<open>
  The containment test accepts exactly the root itself and the paths below it, not a
  sibling that merely shares the prefix.
\<close>

theorem is_within_root_iff:
  "is_within_root resolved root \<longleftrightarrow> resolved = root \<or> (\<exists>t. resolved = root @ CHR ''/'' # t)"
proof -
  have find: "find_str root resolved = Some 0 \<longleftrightarrow> (\<exists>t. resolved = root @ t)"
  proof
    assume "find_str root resolved = Some 0"
    then have "take (length root) resolved = root" using find_str_SomeD by fastforce
    then show "\<exists>t. resolved = root @ t" by (metis append_take_drop_id)
  next
    assume "\<exists>t. resolved = root @ t"
    then show "find_str root resolved = Some 0" by (cases root; cases resolved) auto
  qed
  show ?thesis
  proof (cases "find_str root resolved = Some 0")
    case True
    then obtain t where "resolved = root @ t" using find by blast
    then show ?thesis using True by (cases t) (auto simp: is_within_root_def)
  next
    case False
    then show ?thesis using find by (auto simp: is_within_root_def)
  qed
qed

end
