(* ===== verification/Mime_Types.thy ===== *)
theory Mime_Types
  imports Prelude
begin

text \<open>
  \<open>src/http/mime_types.h\<close>: the table of 55 extensions and \<open>detect_mime_type\<close>, which
  searches it with \<open>std::lower_bound\<close>.  The search is the halving loop of the standard
  library over an index and a length; extensions are compared as \<open>std::string_view\<close> does,
  lexicographically by unsigned byte.
\<close>

subsection \<open>The table and the search\<close>

definition MIME_TABLE :: "(string \<times> string) list" where
  "MIME_TABLE =
    [(''.aac'', ''audio/aac''),
     (''.avif'', ''image/avif''),
     (''.avi'', ''video/x-msvideo''),
     (''.bmp'', ''image/bmp''),
     (''.bz2'', ''application/x-bzip2''),
     (''.csv'', ''text/csv''),
     (''.doc'', ''application/msword''),
     (''.docx'', ''application/vnd.openxmlformats-officedocument.wordprocessingml.document''),
     (''.eot'', ''application/vnd.ms-fontobject''),
     (''.epub'', ''application/epub+zip''),
     (''.flac'', ''audio/flac''),
     (''.flv'', ''video/x-flv''),
     (''.gif'', ''image/gif''),
     (''.gz'', ''application/gzip''),
     (''.htm'', ''text/html; charset=utf-8''),
     (''.html'', ''text/html; charset=utf-8''),
     (''.ico'', ''image/x-icon''),
     (''.jpeg'', ''image/jpeg''),
     (''.jpg'', ''image/jpeg''),
     (''.js'', ''application/javascript''),
     (''.json'', ''application/json''),
     (''.m4a'', ''audio/mp4''),
     (''.mkv'', ''video/x-matroska''),
     (''.mov'', ''video/quicktime''),
     (''.mp3'', ''audio/mpeg''),
     (''.mp4'', ''video/mp4''),
     (''.mpeg'', ''video/mpeg''),
     (''.mpg'', ''video/mpeg''),
     (''.ogg'', ''audio/ogg''),
     (''.otf'', ''font/otf''),
     (''.pdf'', ''application/pdf''),
     (''.png'', ''image/png''),
     (''.ppt'', ''application/vnd.ms-powerpoint''),
     (''.pptx'', ''application/vnd.openxmlformats-officedocument.presentationml.presentation''),
     (''.rar'', ''application/vnd.rar''),
     (''.svg'', ''image/svg+xml''),
     (''.svgz'', ''image/svg+xml''),
     (''.swf'', ''application/x-shockwave-flash''),
     (''.tar'', ''application/x-tar''),
     (''.tif'', ''image/tiff''),
     (''.tiff'', ''image/tiff''),
     (''.toml'', ''application/toml''),
     (''.ttf'', ''font/ttf''),
     (''.txt'', ''text/plain''),
     (''.wav'', ''audio/wave''),
     (''.webm'', ''video/webm''),
     (''.webp'', ''image/webp''),
     (''.woff'', ''font/woff''),
     (''.woff2'', ''font/woff2''),
     (''.xls'', ''application/vnd.ms-excel''),
     (''.xlsx'', ''application/vnd.openxmlformats-officedocument.spreadsheetml.sheet''),
     (''.xml'', ''application/xml''),
     (''.yaml'', ''application/yaml''),
     (''.yml'', ''application/yaml''),
     (''.zip'', ''application/zip'')]"

definition FALLBACK_MIME :: string where
  "FALLBACK_MIME = ''application/octet-stream''"

function lower_bound :: "('a \<Rightarrow> 'k \<Rightarrow> bool) \<Rightarrow> 'a list \<Rightarrow> 'k \<Rightarrow> nat \<Rightarrow> nat \<Rightarrow> nat" where
  "lower_bound lt xs key first len =
     (if len = 0 then first
      else let half = len div 2 in
        if lt (xs ! (first + half)) key
        then lower_bound lt xs key (first + half + 1) (len - (half + 1))
        else lower_bound lt xs key first half)"
  by pat_completeness auto
termination
  by (relation "measure (\<lambda>(lt, xs, key, first, len). len)") auto

declare lower_bound.simps [simp del]

fun string_less :: "string \<Rightarrow> string \<Rightarrow> bool" where
  "string_less _ [] = False"
| "string_less [] (_ # _) = True"
| "string_less (a # as) (b # bs) =
     (byte_val a < byte_val b \<or> byte_val a = byte_val b \<and> string_less as bs)"

definition mime_less :: "string \<times> string \<Rightarrow> string \<Rightarrow> bool" where
  "mime_less e key = string_less (fst e) key"

definition mime_search :: "(string \<times> string) list \<Rightarrow> string \<Rightarrow> string option" where
  "mime_search table ext =
     (let it = lower_bound mime_less table ext 0 (length table)
      in if it \<noteq> length table \<and> fst (table ! it) = ext then Some (snd (table ! it)) else None)"

definition detect_mime_type :: "string \<Rightarrow> string" where
  "detect_mime_type path =
     (case rfind_char CHR ''.'' path of
        None \<Rightarrow> FALLBACK_MIME
      | Some dot \<Rightarrow>
          (case mime_search MIME_TABLE (drop dot path) of
             Some mime \<Rightarrow> mime | None \<Rightarrow> FALLBACK_MIME))"

subsection \<open>The search on a partitioned table\<close>

lemma lower_bound_range:
  "first \<le> lower_bound lt xs key first len \<and> lower_bound lt xs key first len \<le> first + len"
proof (induction lt xs key first len rule: lower_bound.induct)
  case (1 lt xs key first len)
  show ?case
  proof (cases "len = 0")
    case True
    then show ?thesis by (simp add: lower_bound.simps)
  next
    case False
    then have "len div 2 < len" by simp
    with False 1 show ?thesis
      by (subst (1 2) lower_bound.simps) (fastforce simp: Let_def)
  qed
qed

lemma lower_bound_partition:
  assumes "\<forall>i < p. lt (xs ! i) key" and "\<forall>i. p \<le> i \<and> i < first + len \<longrightarrow> \<not> lt (xs ! i) key"
    and "first \<le> p" and "p \<le> first + len"
  shows "lower_bound lt xs key first len = p"
  using assms
proof (induction lt xs key first len rule: lower_bound.induct)
  case (1 lt xs key first len)
  show ?case
  proof (cases "len = 0")
    case True
    with "1.prems" show ?thesis by (simp add: lower_bound.simps)
  next
    case False
    let ?h = "len div 2"
    from False have h: "?h < len" by simp
    show ?thesis
    proof (cases "lt (xs ! (first + ?h)) key")
      case True
      with "1.prems" h have "first + ?h < p" by (meson add_strict_left_mono not_le)
      with True False h "1.prems" "1.IH"(1) [OF False refl True] show ?thesis
        by (subst lower_bound.simps) (simp add: Let_def)
    next
      case nl: False
      with "1.prems" have "p \<le> first + ?h" by (meson not_le)
      with nl False h "1.prems" "1.IH"(2) [OF False refl nl] show ?thesis
        by (subst lower_bound.simps) (simp add: Let_def)
    qed
  qed
qed

subsection \<open>The comparison of strings\<close>

lemma string_less_iff: "string_less a b \<longleftrightarrow> a < b"
proof (induction a b rule: string_less.induct)
  case (3 a as b bs)
  then show ?case by (auto simp: less_char_def)
qed auto

abbreviation strictly_sorted :: "(string \<times> string) list \<Rightarrow> bool" where
  "strictly_sorted table \<equiv> sorted_wrt (<) (map fst table)"

lemma sorted_partition_point:
  assumes "sorted_wrt (<) (xs :: 'a::linorder list)"
  obtains p where "p \<le> length xs" and "\<forall>i < p. xs ! i < key"
    and "\<forall>i. p \<le> i \<and> i < length xs \<longrightarrow> \<not> xs ! i < key"
proof
  let ?p = "length (takeWhile (\<lambda>x. x < key) xs)"
  show "?p \<le> length xs" by (rule length_takeWhile_le)
  show "\<forall>i < ?p. xs ! i < key"
    by (metis nth_mem set_takeWhileD takeWhile_nth)
  show "\<forall>i. ?p \<le> i \<and> i < length xs \<longrightarrow> \<not> xs ! i < key"
  proof (intro allI impI)
    fix i assume i: "?p \<le> i \<and> i < length xs"
    then have "\<not> xs ! ?p < key"
      using nth_length_takeWhile [of "\<lambda>x. x < key" xs] by linarith
    moreover have "xs ! ?p \<le> xs ! i"
      using assms i by (metis le_neq_implies_less less_imp_le order_refl sorted_wrt_nth_less)
    ultimately show "\<not> xs ! i < key" by simp
  qed
qed

lemma map_of_distinct_nth:
  "distinct (map fst xs) \<Longrightarrow> i < length xs \<Longrightarrow> map_of xs (fst (xs ! i)) = Some (snd (xs ! i))"
  by (metis map_of_is_SomeI nth_mem prod.collapse)

text \<open>
  On every strictly sorted table the halving search is the table lookup; this is the
  contract under which \<open>detect_mime_type\<close> uses it.
\<close>

theorem mime_search_sorted:
  assumes "strictly_sorted table"
  shows "mime_search table ext = map_of table ext"
proof -
  obtain p where p: "p \<le> length table" and lo: "\<forall>i < p. map fst table ! i < ext"
    and hi: "\<forall>i. p \<le> i \<and> i < length table \<longrightarrow> \<not> map fst table ! i < ext"
    using sorted_partition_point [OF assms, of ext] by auto
  have lb: "lower_bound mime_less table ext 0 (length table) = p"
    using p lo hi by (intro lower_bound_partition) (auto simp: mime_less_def string_less_iff)
  have d: "distinct (map fst table)"
    using assms by (simp add: strict_sorted_iff)
  show ?thesis
  proof (cases "p < length table \<and> fst (table ! p) = ext")
    case True
    with map_of_distinct_nth [OF d, of p] show ?thesis
      by (auto simp: mime_search_def lb Let_def)
  next
    case False
    have "ext \<notin> set (map fst table)"
    proof
      assume "ext \<in> set (map fst table)"
      then obtain i where i: "i < length table" "map fst table ! i = ext"
        by (metis in_set_conv_nth length_map)
      with lo hi have "p \<le> i" by (metis less_irrefl not_le)
      moreover have "p \<noteq> i" using False i by auto
      ultimately have "map fst table ! p < ext"
        using assms i by (metis le_neq_implies_less length_map sorted_wrt_nth_less)
      with hi \<open>p \<le> i\<close> i show False by simp
    qed
    then have "map_of table ext = None" by (simp add: map_of_eq_None_iff)
    with False p show ?thesis by (simp add: mime_search_def lb)
  qed
qed

lemma mime_search_sorted_witness:
  "mime_search [(''.a'', ''x''), (''.b'', ''y'')] ''.b'' = Some ''y''"
  by (subst mime_search_sorted) (simp_all add: less_char_def)

subsection \<open>The table of the program\<close>

lemma mime_search_SomeD: "mime_search table ext = Some m \<Longrightarrow> (ext, m) \<in> set table"
  using lower_bound_range [of 0 mime_less table ext "length table"]
  by (auto simp: mime_search_def Let_def split: if_splits)
    (metis le_neq_implies_less nth_mem prod.collapse)

lemma mime_search_None: "ext \<notin> fst ` set table \<Longrightarrow> mime_search table ext = None"
  by (cases "mime_search table ext") (force dest: mime_search_SomeD)+

text \<open>The part of a table behind an unsorted prefix of smaller keys is searched correctly.\<close>

lemma mime_search_suffix:
  assumes "strictly_sorted post" and "\<forall>x \<in> set pre. fst x < ext" and "(ext, m) \<in> set post"
  shows "mime_search (pre @ post) ext = Some m"
proof -
  obtain j where j: "j < length post" "post ! j = (ext, m)"
    using assms(3) by (metis in_set_conv_nth)
  let ?t = "pre @ post" and ?p = "length pre + j"
  have "lower_bound mime_less ?t ext 0 (length ?t) = ?p"
  proof (rule lower_bound_partition)
    show "\<forall>i < ?p. mime_less (?t ! i) ext"
    proof (intro allI impI)
      fix i assume i: "i < ?p"
      show "mime_less (?t ! i) ext"
      proof (cases "i < length pre")
        case True
        with assms(2) show ?thesis by (simp add: nth_append mime_less_def string_less_iff)
      next
        case False
        then have "map fst post ! (i - length pre) < map fst post ! j"
          using i j sorted_wrt_nth_less [OF assms(1), of "i - length pre" j] by auto
        with False i j show ?thesis by (simp add: nth_append mime_less_def string_less_iff)
      qed
    qed
    show "\<forall>i. ?p \<le> i \<and> i < 0 + length ?t \<longrightarrow> \<not> mime_less (?t ! i) ext"
    proof (intro allI impI)
      fix i assume i: "?p \<le> i \<and> i < 0 + length ?t"
      have "map fst post ! j \<le> map fst post ! (i - length pre)"
      proof (cases "i = ?p")
        case False
        with i have "map fst post ! j < map fst post ! (i - length pre)"
          using j sorted_wrt_nth_less [OF assms(1), of j "i - length pre"] by auto
        then show ?thesis by simp
      qed simp
      with i j show "\<not> mime_less (?t ! i) ext"
        by (auto simp: nth_append mime_less_def string_less_iff)
    qed
  qed (use j in auto)
  with j show ?thesis by (simp add: mime_search_def nth_append)
qed

lemma transp_string_less [simp]: "transp ((<) :: string \<Rightarrow> string \<Rightarrow> bool)"
  by (rule transp_on_less)

lemma mime_table_sorted_part: "strictly_sorted (drop 3 MIME_TABLE)"
  by (simp add: MIME_TABLE_def sorted_wrt2_simps less_char_def del: sorted_wrt.simps(2))

lemma mime_table_heads:
  "take 3 MIME_TABLE =
     [(''.aac'', ''audio/aac''), (''.avif'', ''image/avif''), (''.avi'', ''video/x-msvideo'')]"
  "drop 3 MIME_TABLE = (''.bmp'', ''image/bmp'') # drop 4 MIME_TABLE"
  by (simp_all add: MIME_TABLE_def)

lemma mime_table_probes:
  "mime_search MIME_TABLE ''.aac'' = Some ''audio/aac''"
  "mime_search MIME_TABLE ''.avif'' = Some ''image/avif''"
  "mime_search MIME_TABLE ''.avi'' = None"
  by (simp_all add: mime_search_def MIME_TABLE_def lower_bound.simps mime_less_def)

lemma mime_table_lookup:
  assumes "(ext, m) \<in> set MIME_TABLE"
  shows "mime_search MIME_TABLE ext = (if ext = ''.avi'' then None else Some m)"
proof -
  have set: "set MIME_TABLE = set (take 3 MIME_TABLE) \<union> set (drop 3 MIME_TABLE)"
    by (metis append_take_drop_id set_append)
  show ?thesis
  proof (cases "(ext, m) \<in> set (drop 3 MIME_TABLE)")
    case True
    then have "''.bmp'' \<le> ext"
      using mime_table_sorted_part by (auto simp: mime_table_heads less_imp_le)
    then have lt: "\<forall>x \<in> set (take 3 MIME_TABLE). fst x < ext" and "ext \<noteq> ''.avi''"
      by (auto simp: mime_table_heads less_char_def intro: less_le_trans [of _ "''.bmp''"])
    with mime_search_suffix [OF mime_table_sorted_part lt True] show ?thesis by simp
  next
    case False
    with assms set have "(ext, m) \<in> set (take 3 MIME_TABLE)" by blast
    then show ?thesis by (auto simp: mime_table_heads mime_table_probes)
  qed
qed

definition path_extension :: "string \<Rightarrow> string option" where
  "path_extension path =
     (if CHR ''.'' \<in> set path then Some (CHR ''.'' # rev (takeWhile (\<lambda>c. c \<noteq> CHR ''.'') (rev path)))
      else None)"

lemma drop_rfind:
  assumes "rfind_char c s = Some i"
  shows "drop i s = c # rev (takeWhile (\<lambda>x. x \<noteq> c) (rev s))"
proof -
  have "c \<in> set s" using assms rfind_char_None_iff [of c s] by fastforce
  then obtain xs ys where s: "s = xs @ c # ys" "c \<notin> set ys" by (meson split_list_last)
  have "takeWhile (\<lambda>x. x \<noteq> c) (rev ys @ c # rev xs) = rev ys"
    using s(2) by (subst takeWhile_append2) auto
  moreover have "i = length xs" using assms rfind_char_append [OF s(2), of xs] s(1) by simp
  ultimately show ?thesis using s(1) by simp
qed

text \<open>
  C29: for every path, the detected type is the table's entry for the extension, from the
  last dot of the whole path, and the fallback otherwise; the only exception is \<open>.avi\<close>,
  which stands in the table after \<open>.avif\<close>, out of order, and is never found.
\<close>

theorem detect_mime_type_table:
  "detect_mime_type path =
    (case path_extension path of
       None \<Rightarrow> FALLBACK_MIME
     | Some ext \<Rightarrow>
         if ext = ''.avi'' then FALLBACK_MIME
         else case map_of MIME_TABLE ext of Some mime \<Rightarrow> mime | None \<Rightarrow> FALLBACK_MIME)"
proof (cases "rfind_char CHR ''.'' path")
  case None
  moreover have "CHR ''.'' \<notin> set path" using None by (simp add: rfind_char_None_iff)
  ultimately show ?thesis by (simp add: detect_mime_type_def path_extension_def)
next
  case (Some dot)
  let ?ext = "drop dot path"
  have ext: "path_extension path = Some ?ext"
    using Some rfind_char_None_iff [of "CHR ''.''" path]
    by (auto simp: path_extension_def drop_rfind [OF Some])
  have "mime_search MIME_TABLE ?ext = (if ?ext = ''.avi'' then None else map_of MIME_TABLE ?ext)"
  proof (cases "map_of MIME_TABLE ?ext")
    case None
    then have "?ext \<notin> fst ` set MIME_TABLE" by (simp add: map_of_eq_None_iff)
    with None show ?thesis by (simp add: mime_search_None)
  next
    case (Some m)
    then have "(?ext, m) \<in> set MIME_TABLE" by (rule map_of_SomeD)
    with Some show ?thesis by (simp add: mime_table_lookup)
  qed
  with Some ext show ?thesis by (simp add: detect_mime_type_def split: option.split)
qed

end
