(* ===== verification/File_Server.thy ===== *)
theory File_Server
  imports Path_Normalize Mime_Types
begin

text \<open>
  \<open>src/server/file_server.{h,cpp}\<close>, the class \<open>FileServer\<close>: its constructor, \<open>open\<close>, and the
  ownership of the descriptor in \<open>FileInfo\<close>.  The file system is not part of the program:
  it is the record \<open>fs\<close> of the answers of \<open>realpath\<close>, \<open>lstat\<close>, \<open>stat\<close>, \<open>open\<close> and
  \<open>opendir\<close>/\<open>readdir\<close> (\<open>None\<close> for a failed call), taken once per request.
\<close>

subsection \<open>The file system as a parameter\<close>

datatype file_kind = Regular | Directory | Symlink | Special

record stat_buf =
  st_kind :: file_kind
  st_size :: int
  st_mtime :: int

record fs =
  fs_realpath :: "string \<Rightarrow> string option"
  fs_lstat :: "string \<Rightarrow> stat_buf option"
  fs_stat :: "string \<Rightarrow> stat_buf option"
  fs_open :: "string \<Rightarrow> int"
  fs_readdir :: "string \<Rightarrow> string list option"

subsection \<open>\<open>FileInfo\<close> and \<open>FileError\<close>\<close>

record file_info =
  fi_fd :: int
  fi_size :: int
  fi_last_modified :: int
  fi_mime_type :: string
  fi_resolved_path :: string

datatype file_error = FE_NOT_FOUND | FE_FORBIDDEN | FE_BAD_REQUEST | FE_IS_DIRECTORY

type_synonym file_result = "file_error + file_info"

text \<open>The descriptors a destroyed \<open>FileInfo\<close> closes, and the transfer of its descriptor.\<close>

definition file_info_destroy :: "file_info \<Rightarrow> int list" where
  "file_info_destroy i = (if 0 \<le> fi_fd i then [fi_fd i] else [])"

definition release_fd :: "file_info \<Rightarrow> int \<times> file_info" where
  "release_fd i = (fi_fd i, i\<lparr>fi_fd := -1\<rparr>)"

text \<open>
  The move constructor (the new object and what is left of the old one), and the move assignment, with the
  descriptors it closes; \<open>None\<close> is the assignment of an object to itself.  The strings of a moved object are unspecified
  by the standard; here they are empty, and nothing reads them.
\<close>

definition file_info_move :: "file_info \<Rightarrow> file_info \<times> file_info" where
  "file_info_move other = (other, other\<lparr>fi_fd := -1, fi_mime_type := [], fi_resolved_path := []\<rparr>)"

definition file_info_move_assign :: "file_info \<Rightarrow> file_info option \<Rightarrow> file_info \<times> file_info option \<times> int list" where
  "file_info_move_assign i other =
     (case other of
        None \<Rightarrow> (i, None, [])
      | Some o' \<Rightarrow> (case file_info_move o' of (new, old) \<Rightarrow> (new, Some old, file_info_destroy i)))"

text \<open>Each move leaves every descriptor with exactly one owner.\<close>

lemma file_info_moves_own:
  "file_info_move a = (b, a') \<Longrightarrow> file_info_destroy b @ file_info_destroy a' = file_info_destroy a"
  "file_info_move_assign i other = (i', other', closed) \<Longrightarrow>
     mset (closed @ file_info_destroy i' @ concat (map file_info_destroy (case other' of None \<Rightarrow> [] | Some x \<Rightarrow> [x])))
     = mset (file_info_destroy i @ concat (map file_info_destroy (case other of None \<Rightarrow> [] | Some x \<Rightarrow> [x])))"
  "release_fd i = (fd, i') \<Longrightarrow> file_info_destroy i' = [] \<and> file_info_destroy i = (if 0 \<le> fd then [fd] else [])"
  by (auto simp: file_info_move_def file_info_move_assign_def file_info_destroy_def release_fd_def split: option.splits prod.splits)

subsection \<open>The constructor and \<open>open\<close>\<close>

definition file_server_root :: "fs \<Rightarrow> string \<Rightarrow> string" where
  "file_server_root fs root_dir =
     (case fs_realpath fs root_dir of Some real \<Rightarrow> real | None \<Rightarrow> root_dir)"

text \<open>The symbolic link step: the error, or the \<open>stat\<close> buffer to go on with.\<close>

definition resolve_symlink :: "fs \<Rightarrow> string \<Rightarrow> string \<Rightarrow> stat_buf \<Rightarrow> file_error + stat_buf" where
  "resolve_symlink fs root_dir full_path st =
     (if st_kind st = Symlink then
        (case fs_realpath fs full_path of
           None \<Rightarrow> Inl FE_FORBIDDEN
         | Some resolved \<Rightarrow>
             if \<not> is_within_root resolved root_dir then Inl FE_FORBIDDEN
             else (case fs_stat fs full_path of None \<Rightarrow> Inl FE_NOT_FOUND | Some st' \<Rightarrow> Inr st'))
      else Inr st)"

definition resolve_index :: "fs \<Rightarrow> string \<Rightarrow> stat_buf \<Rightarrow> file_error + stat_buf \<times> string" where
  "resolve_index fs full_path st =
     (if st_kind st = Directory then
        (let index_path = full_path @ ''/index.html'' in
         case fs_stat fs index_path of
           Some ist \<Rightarrow> if st_kind ist = Regular then Inr (ist, index_path) else Inl FE_IS_DIRECTORY
         | None \<Rightarrow> Inl FE_IS_DIRECTORY)
      else Inr (st, full_path))"

definition open_file :: "fs \<Rightarrow> string \<Rightarrow> string \<Rightarrow> file_result" where
  "open_file fs root_dir request_path =
     (let normalized = normalize_path request_path in
      if normalized = [] then Inl FE_BAD_REQUEST
      else let full_path = root_dir @ normalized in
      case fs_lstat fs full_path of
        None \<Rightarrow> Inl FE_NOT_FOUND
      | Some st \<Rightarrow>
      case resolve_symlink fs root_dir full_path st of
        Inl e \<Rightarrow> Inl e
      | Inr st \<Rightarrow>
      case resolve_index fs full_path st of
        Inl e \<Rightarrow> Inl e
      | Inr (st, full_path) \<Rightarrow>
      if st_kind st \<noteq> Regular then Inl FE_FORBIDDEN
      else let fd = fs_open fs full_path in
      if fd < 0 then Inl FE_NOT_FOUND
      else Inr \<lparr>fi_fd = fd, fi_size = st_size st, fi_last_modified = st_mtime st,
                fi_mime_type = detect_mime_type full_path, fi_resolved_path = full_path\<rparr>)"

subsection \<open>What an opened file satisfies\<close>

lemma resolve_symlink_Inr:
  "resolve_symlink fs root p st = Inr st' \<Longrightarrow>
   (st_kind st \<noteq> Symlink \<and> st' = st)
   \<or> (st_kind st = Symlink \<and> fs_stat fs p = Some st'
      \<and> (\<exists>r. fs_realpath fs p = Some r \<and> is_within_root r root))"
  by (auto simp: resolve_symlink_def split: if_splits option.splits)

lemma resolve_index_Inr:
  "resolve_index fs p st = Inr (st', p') \<Longrightarrow>
   (st_kind st \<noteq> Directory \<and> st' = st \<and> p' = p)
   \<or> (st_kind st = Directory \<and> p' = p @ ''/index.html'' \<and> fs_stat fs p' = Some st' \<and> st_kind st' = Regular)"
  by (auto simp: resolve_index_def Let_def split: if_splits option.splits)

definition served_path :: "string \<Rightarrow> string \<Rightarrow> bool" where
  "served_path root p \<longleftrightarrow> (\<exists>parts. (\<forall>n \<in> set parts. good_name n)
     \<and> (p = root @ join_parts parts \<or> p = root @ join_parts parts @ ''/index.html''))"

text \<open>
  C14: what a successful \<open>open\<close> guarantees.  The path served is the root followed by a
  canonical path, or the \<open>index.html\<close> of such a directory; a regular file stands there and
  gives the size and the time; the descriptor is valid; and if the requested name itself is a
  symbolic link, its target lies within the root.
\<close>

theorem open_file_safe:
  assumes "open_file fs root path = Inr info"
  shows "served_path root (fi_resolved_path info) \<and> 0 \<le> fi_fd info
    \<and> fi_fd info = fs_open fs (fi_resolved_path info)
    \<and> fi_mime_type info = detect_mime_type (fi_resolved_path info)
    \<and> (\<exists>st. (fs_lstat fs (fi_resolved_path info) = Some st \<or> fs_stat fs (fi_resolved_path info) = Some st)
         \<and> st_kind st = Regular \<and> fi_size info = st_size st \<and> fi_last_modified info = st_mtime st)
    \<and> (\<forall>st. fs_lstat fs (root @ normalize_path path) = Some st \<and> st_kind st = Symlink \<longrightarrow>
         (\<exists>r. fs_realpath fs (root @ normalize_path path) = Some r \<and> is_within_root r root))"
proof -
  let ?full = "root @ normalize_path path"
  from assms obtain st0 st1 st2 p2 where ne: "normalize_path path \<noteq> []"
    and st0: "fs_lstat fs ?full = Some st0"
    and st1: "resolve_symlink fs root ?full st0 = Inr st1"
    and st2: "resolve_index fs ?full st1 = Inr (st2, p2)"
    and reg: "st_kind st2 = Regular" and fd: "0 \<le> fs_open fs p2"
    and info: "info = \<lparr>fi_fd = fs_open fs p2, fi_size = st_size st2, fi_last_modified = st_mtime st2,
                fi_mime_type = detect_mime_type p2, fi_resolved_path = p2\<rparr>"
    by (auto simp: open_file_def Let_def split: if_splits option.splits sum.splits)
  obtain parts where "normalize_path path = join_parts parts" "\<forall>n \<in> set parts. good_name n"
    using normalize_shape [OF ne] by blast
  then have "served_path root p2"
    using resolve_index_Inr [OF st2] by (auto simp: served_path_def)
  moreover have "fs_lstat fs p2 = Some st2 \<or> fs_stat fs p2 = Some st2"
    using resolve_index_Inr [OF st2] resolve_symlink_Inr [OF st1] st0 by auto
  ultimately show ?thesis
    using resolve_symlink_Inr [OF st1] st0 reg fd info by auto
qed

definition example_fs :: "file_kind \<Rightarrow> fs" where
  "example_fs kind =
     \<lparr>fs_realpath = (\<lambda>p. Some ''/srv/x''),
      fs_lstat = (\<lambda>p. if p = ''/srv/a.txt'' then Some \<lparr>st_kind = kind, st_size = 5, st_mtime = 9\<rparr> else None),
      fs_stat = (\<lambda>p. if p = ''/srv/a.txt'' then Some \<lparr>st_kind = Regular, st_size = 5, st_mtime = 9\<rparr> else None),
      fs_open = (\<lambda>p. 7), fs_readdir = (\<lambda>p. None)\<rparr>"

lemma normalize_a_txt: "normalize_path ''/a.txt'' = ''/a.txt''"
  by (simp add: normalize_path_def resolve_segments_walk illegal_byte_def segments_def join_parts_def)

lemma mime_a_txt: "detect_mime_type ''/srv/a.txt'' = ''text/plain''"
proof -
  have "(''.txt'', ''text/plain'') \<in> set MIME_TABLE" by (simp add: MIME_TABLE_def)
  from mime_table_lookup [OF this] show ?thesis
    by (simp add: detect_mime_type_def rfind_char_def)
qed

lemma open_file_example:
  "open_file (example_fs Symlink) ''/srv'' ''/a.txt''
     = Inr \<lparr>fi_fd = 7, fi_size = 5, fi_last_modified = 9, fi_mime_type = ''text/plain'',
            fi_resolved_path = ''/srv/a.txt''\<rparr>"
  by (simp add: open_file_def normalize_a_txt mime_a_txt example_fs_def resolve_symlink_def
      resolve_index_def is_within_root_def)

lemma open_file_safe_witness:
  "served_path ''/srv'' ''/srv/a.txt''
   \<and> (\<exists>r. fs_realpath (example_fs Symlink) ''/srv/a.txt'' = Some r \<and> is_within_root r ''/srv'')"
  using open_file_safe [OF open_file_example] normalize_a_txt
  by (simp add: example_fs_def)



text \<open>
  C32: where the containment check is missing.  Unless the last component of the requested
  path is itself a symbolic link, the answer of \<open>open\<close> does not depend on \<open>realpath\<close> at all:
  a file reached through a linked directory, or a linked \<open>index.html\<close>, is served even when
  it resolves to a place outside the root.
\<close>

theorem open_file_unchecked:
  assumes "fs_lstat fs (root @ normalize_path path) = Some st" and "st_kind st \<noteq> Symlink"
  shows "open_file (fs\<lparr>fs_realpath := f\<rparr>) root path = open_file fs root path"
  using assms
  by (simp add: open_file_def Let_def resolve_symlink_def resolve_index_def
      split: option.split sum.split)

lemma open_file_unchecked_witness:
  "open_file ((example_fs Regular)\<lparr>fs_realpath := \<lambda>_. Some ''/etc/passwd''\<rparr>) ''/srv'' ''/a.txt''
     = Inr \<lparr>fi_fd = 7, fi_size = 5, fi_last_modified = 9, fi_mime_type = ''text/plain'',
            fi_resolved_path = ''/srv/a.txt''\<rparr>"
proof -
  have l: "fs_lstat (example_fs Regular) (''/srv'' @ normalize_path ''/a.txt'')
      = Some \<lparr>st_kind = Regular, st_size = 5, st_mtime = 9\<rparr>"
    by (simp add: normalize_a_txt example_fs_def)
  show ?thesis
    by (subst open_file_unchecked [OF l])
      (simp_all add: open_file_def normalize_a_txt mime_a_txt example_fs_def resolve_symlink_def
        resolve_index_def)
qed

end
