(* ===== verification/Loop_State.thy ===== *)
theory Loop_State
  imports Connection Connection_Pool Tls_Context File_Server
begin

text \<open>
  \<open>src/core/event_loop.{h,cpp}\<close>, the state of the class \<open>EventLoop\<close>, the changes it submits to
  \<open>kqueue\<close>, and the intrusive doubly linked list of the keep-alive connections.  A
  \<open>Connection*\<close> is the index of its slot in the pool; the flags of a \<open>kevent\<close> are a set.
\<close>

subsection \<open>Events and the state of the loop\<close>

datatype udata = Listener_Tag | Timer_Tag | Conn nat | Null_Tag

datatype ev_filter = EVFILT_READ | EVFILT_WRITE | EVFILT_TIMER

datatype ev_flag = EV_ADD | EV_DELETE | EV_ENABLE | EV_CLEAR | EV_ERROR | EV_EOF

record kevent =
  ke_ident :: int
  ke_filter :: ev_filter
  ke_flags :: "ev_flag set"
  ke_note_seconds :: bool
  ke_data :: int
  ke_udata :: udata

record event_loop =
  el_kq :: int
  el_listen_fd :: int
  el_tls_ctx :: "tls_context option"
  el_root_dir :: string
  el_pool :: "connection pool"
  el_keep_alive_timeout :: int
  el_keepalive_head :: "nat option"
  el_changelist :: "kevent list"

text \<open>
  The constructor, with the answers of \<open>kqueue\<close> and of the file system; \<open>set_tls_context\<close>; and the
  descriptor the destructor closes.
\<close>

definition event_loop_init :: "int \<Rightarrow> fs \<Rightarrow> string \<Rightarrow> int \<Rightarrow> event_loop" where
  "event_loop_init kq fs root_dir keep_alive_timeout =
     \<lparr>el_kq = kq, el_listen_fd = -1, el_tls_ctx = None, el_root_dir = file_server_root fs root_dir,
      el_pool = pool_init conn_default, el_keep_alive_timeout = keep_alive_timeout,
      el_keepalive_head = None, el_changelist = []\<rparr>"

definition set_tls_context :: "tls_context option \<Rightarrow> event_loop \<Rightarrow> event_loop" where
  "set_tls_context ctx el = el\<lparr>el_tls_ctx := ctx\<rparr>"

definition event_loop_destroy :: "event_loop \<Rightarrow> int list" where
  "event_loop_destroy el = (if 0 \<le> el_kq el then [el_kq el] else [])"

definition conn_at :: "nat \<Rightarrow> event_loop \<Rightarrow> connection" where
  "conn_at i el = pl_connections (el_pool el) ! i"

definition set_conn :: "nat \<Rightarrow> connection \<Rightarrow> event_loop \<Rightarrow> event_loop" where
  "set_conn i c el = el\<lparr>el_pool := (el_pool el)\<lparr>pl_connections := (pl_connections (el_pool el))[i := c]\<rparr>\<rparr>"

subsection \<open>Changes to the kernel queue\<close>

definition add_event :: "int \<Rightarrow> ev_filter \<Rightarrow> ev_flag set \<Rightarrow> udata \<Rightarrow> event_loop \<Rightarrow> event_loop" where
  "add_event ident flt flags ud el = el\<lparr>el_changelist := el_changelist el @
     [\<lparr>ke_ident = ident, ke_filter = flt, ke_flags = flags, ke_note_seconds = False, ke_data = 0, ke_udata = ud\<rparr>]\<rparr>"

text \<open>The changes a flush submits, and the loop afterwards.\<close>

definition flush_changelist :: "event_loop \<Rightarrow> event_loop \<times> kevent list" where
  "flush_changelist el =
     (if el_changelist el = [] then (el, []) else (el\<lparr>el_changelist := []\<rparr>, el_changelist el))"

definition update_events :: "nat \<Rightarrow> want \<Rightarrow> event_loop \<Rightarrow> event_loop" where
  "update_events i w el =
     (let fd = cn_fd (conn_at i el) in
      if fd < 0 \<or> cn_state (conn_at i el) = CLOSED then el
      else case w of
        Want_Read \<Rightarrow> add_event fd EVFILT_WRITE {EV_DELETE} Null_Tag
                       (add_event fd EVFILT_READ {EV_ADD, EV_ENABLE} (Conn i) el)
      | Want_Write \<Rightarrow> add_event fd EVFILT_WRITE {EV_ADD, EV_ENABLE} (Conn i)
                        (add_event fd EVFILT_READ {EV_DELETE} Null_Tag el)
      | Want_None \<Rightarrow> el)"

subsection \<open>The keep-alive list\<close>

definition add_to_keepalive_list :: "nat \<Rightarrow> event_loop \<Rightarrow> event_loop" where
  "add_to_keepalive_list i el =
     (if cn_in_list (conn_at i el) then el
      else let el = set_conn i ((conn_at i el)\<lparr>cn_in_list := True, cn_prev := None,
                                  cn_next := el_keepalive_head el\<rparr>) el;
               el = (case el_keepalive_head el of
                       None \<Rightarrow> el
                     | Some h \<Rightarrow> set_conn h ((conn_at h el)\<lparr>cn_prev := Some i\<rparr>) el)
           in el\<lparr>el_keepalive_head := Some i\<rparr>)"

definition remove_from_keepalive_list :: "nat \<Rightarrow> event_loop \<Rightarrow> event_loop" where
  "remove_from_keepalive_list i el =
     (if \<not> cn_in_list (conn_at i el) then el
      else let el = set_conn i ((conn_at i el)\<lparr>cn_in_list := False\<rparr>) el;
               el = (case cn_prev (conn_at i el) of
                       Some p \<Rightarrow> set_conn p ((conn_at p el)\<lparr>cn_next := cn_next (conn_at i el)\<rparr>) el
                     | None \<Rightarrow> el\<lparr>el_keepalive_head := cn_next (conn_at i el)\<rparr>);
               el = (case cn_next (conn_at i el) of
                       Some n \<Rightarrow> set_conn n ((conn_at n el)\<lparr>cn_prev := cn_prev (conn_at i el)\<rparr>) el
                     | None \<Rightarrow> el)
           in set_conn i ((conn_at i el)\<lparr>cn_prev := None, cn_next := None\<rparr>) el)"

end
