(* ===== verification/Keepalive_List.thy ===== *)
theory Keepalive_List
  imports Loop_State
begin

text \<open>
  The keep-alive list of \<open>src/core/event_loop.cpp\<close> refines an abstract list of slots.  A segment
  relates the pointers stored in the connections to a list; insertion at the head and removal
  are the abstract operations under it, and touch nothing but the links.
\<close>

subsection \<open>Accessing the pool\<close>

abbreviation conns :: "event_loop \<Rightarrow> connection list" where
  "conns el \<equiv> pl_connections (el_pool el)"

lemma conn_at_set_conn:
  "i < length (conns el) \<Longrightarrow> conn_at x (set_conn i c el) = (if x = i then c else conn_at x el)"
  by (simp add: conn_at_def set_conn_def)

lemma set_conn_simps [simp]:
  "length (conns (set_conn i c el)) = length (conns el)"
  "el_keepalive_head (set_conn i c el) = el_keepalive_head el"
  "el_changelist (set_conn i c el) = el_changelist el"
  "el_tls_ctx (set_conn i c el) = el_tls_ctx el"
  "el_root_dir (set_conn i c el) = el_root_dir el"
  "el_keep_alive_timeout (set_conn i c el) = el_keep_alive_timeout el"
  "lent (el_pool (set_conn i c el)) = lent (el_pool el)"
  "pl_free_head (el_pool (set_conn i c el)) = pl_free_head (el_pool el)"
  "pool_inv (el_pool (set_conn i c el)) = pool_inv (el_pool el)"
  "conn_at x (el\<lparr>el_keepalive_head := h\<rparr>) = conn_at x el"
  by (simp_all add: set_conn_def conn_at_def pool_inv_def free_slots_def)

subsection \<open>Segments of the list\<close>

fun seg :: "(nat \<Rightarrow> connection) \<Rightarrow> nat \<Rightarrow> nat option \<Rightarrow> nat option \<Rightarrow> nat list \<Rightarrow> nat option \<Rightarrow> bool" where
  "seg f n p cur [] q \<longleftrightarrow> cur = q"
| "seg f n p cur (x # xs) q \<longleftrightarrow> cur = Some x \<and> x < n \<and> cn_prev (f x) = p \<and> seg f n (Some x) (cn_next (f x)) xs q"

definition last_or :: "nat option \<Rightarrow> nat list \<Rightarrow> nat option" where
  "last_or p xs = (if xs = [] then p else Some (last xs))"

lemma last_or_simps [simp]: "last_or p [] = p" "last_or p (x # xs) = last_or (Some x) xs"
  by (simp_all add: last_or_def)

lemma seg_append: "seg f n p cur (as @ bs) q \<longleftrightarrow> (\<exists>m. seg f n p cur as m \<and> seg f n (last_or p as) m bs q)"
  by (induction as arbitrary: p cur) auto

lemma seg_cong:
  "\<forall>x \<in> set xs. cn_prev (g x) = cn_prev (f x) \<and> cn_next (g x) = cn_next (f x) \<Longrightarrow>
   seg g n p cur xs q = seg f n p cur xs q"
  by (induction xs arbitrary: p cur) auto

lemma seg_bounded: "seg f n p cur xs q \<Longrightarrow> x \<in> set xs \<Longrightarrow> x < n"
  by (induction xs arbitrary: p cur) auto

lemma seg_head: "seg f n p cur xs None \<Longrightarrow> cur = (if xs = [] then None else Some (hd xs))"
  by (cases xs) auto

definition ka_rep :: "event_loop \<Rightarrow> nat list \<Rightarrow> bool" where
  "ka_rep el xs \<longleftrightarrow> seg (\<lambda>x. conn_at x el) (length (conns el)) None (el_keepalive_head el) xs None
     \<and> distinct xs \<and> (\<forall>i < length (conns el). cn_in_list (conn_at i el) \<longleftrightarrow> i \<in> set xs)"

text \<open>The list read off the pointers; no list is longer than the pool.\<close>

fun ka_walk :: "event_loop \<Rightarrow> nat \<Rightarrow> nat option \<Rightarrow> nat list" where
  "ka_walk el fuel None = []"
| "ka_walk el 0 (Some x) = []"
| "ka_walk el (Suc fuel) (Some x) = x # ka_walk el fuel (cn_next (conn_at x el))"

definition ka_list :: "event_loop \<Rightarrow> nat list" where
  "ka_list el = ka_walk el (length (conns el)) (el_keepalive_head el)"

lemma ka_walk_seg:
  "seg (\<lambda>x. conn_at x el) n p cur xs None \<Longrightarrow> length xs \<le> fuel \<Longrightarrow> ka_walk el fuel cur = xs"
proof (induction xs arbitrary: p cur fuel)
  case (Cons x xs)
  then show ?case by (cases fuel) auto
qed simp

lemma ka_rep_length:
  assumes "ka_rep el xs"
  shows "length xs \<le> length (conns el)"
proof -
  have "set xs \<subseteq> {..<length (conns el)}" using assms seg_bounded by (fastforce simp: ka_rep_def)
  then have "card (set xs) \<le> length (conns el)" using card_mono [of "{..<length (conns el)}"] by fastforce
  then show ?thesis using assms distinct_card [of xs] by (simp add: ka_rep_def)
qed

lemma ka_rep_list: "ka_rep el xs \<Longrightarrow> ka_list el = xs"
  unfolding ka_list_def using ka_rep_length [of el xs] by (intro ka_walk_seg) (auto simp: ka_rep_def)

subsection \<open>Insertion\<close>

text \<open>The fields a connection has apart from its links.\<close>

definition unlinked :: "connection \<Rightarrow> connection" where
  "unlinked c = c\<lparr>cn_prev := None, cn_next := None, cn_in_list := False\<rparr>"

lemma unlinked_simps [simp]:
  "unlinked (c\<lparr>cn_prev := p\<rparr>) = unlinked c" "unlinked (c\<lparr>cn_next := p\<rparr>) = unlinked c"
  "unlinked (c\<lparr>cn_in_list := b\<rparr>) = unlinked c"
  by (simp_all add: unlinked_def)

lemma unlinked_fields:
  "unlinked c = unlinked c' \<Longrightarrow> cn_state c = cn_state c' \<and> cn_fd c = cn_fd c' \<and> cn_ssl c = cn_ssl c'
     \<and> cn_file_fd c = cn_file_fd c' \<and> cn_last_active c = cn_last_active c'"
  by (cases c; cases c') (simp add: unlinked_def)

lemma add_in_list: "cn_in_list (conn_at i el) \<Longrightarrow> add_to_keepalive_list i el = el"
  by (simp add: add_to_keepalive_list_def)

lemma add_fields:
  assumes "ka_rep el xs" and "i < length (conns el)" and "\<not> cn_in_list (conn_at i el)"
  defines "el' \<equiv> add_to_keepalive_list i el"
  shows "el_keepalive_head el' = Some i" and "length (conns el') = length (conns el)"
    and "cn_in_list (conn_at x el') \<longleftrightarrow> x = i \<or> cn_in_list (conn_at x el)"
    and "cn_next (conn_at x el') = (if x = i then el_keepalive_head el else cn_next (conn_at x el))"
    and "cn_prev (conn_at x el') = (if x = i then None else if el_keepalive_head el = Some x then Some i
           else cn_prev (conn_at x el))"
    and "unlinked (conn_at x el') = unlinked (conn_at x el)"
proof -
  have "i \<notin> set xs" using assms(1-3) by (simp add: ka_rep_def)
  then have h: "h < length (conns el) \<and> h \<noteq> i" if "el_keepalive_head el = Some h" for h
    using assms(1) that seg_head seg_bounded by (fastforce simp: ka_rep_def split: if_splits)
  show "el_keepalive_head el' = Some i" "length (conns el') = length (conns el)"
    using assms(3) by (auto simp: el'_def add_to_keepalive_list_def Let_def split: option.split)
  show "cn_in_list (conn_at x el') \<longleftrightarrow> x = i \<or> cn_in_list (conn_at x el)"
    "cn_next (conn_at x el') = (if x = i then el_keepalive_head el else cn_next (conn_at x el))"
    "cn_prev (conn_at x el') = (if x = i then None else if el_keepalive_head el = Some x then Some i
       else cn_prev (conn_at x el))"
    "unlinked (conn_at x el') = unlinked (conn_at x el)"
    using assms(2,3) h
    by (auto simp: el'_def add_to_keepalive_list_def Let_def conn_at_set_conn split: option.split)
qed

lemma add_rep:
  assumes "ka_rep el xs" and "i < length (conns el)"
  shows "ka_rep (add_to_keepalive_list i el) (if i \<in> set xs then xs else i # xs)"
proof (cases "i \<in> set xs")
  case True
  then show ?thesis using assms by (simp add: ka_rep_def add_in_list)
next
  case False
  then have nin: "\<not> cn_in_list (conn_at i el)" using assms by (simp add: ka_rep_def)
  note f = add_fields [OF assms nin]
  let ?el = "add_to_keepalive_list i el"
  let ?n = "length (conns el)"
  from assms(1) have s: "seg (\<lambda>x. conn_at x el) ?n None (el_keepalive_head el) xs None" and d: "distinct xs"
    by (simp_all add: ka_rep_def)
  have "seg (\<lambda>x. conn_at x ?el) ?n (Some i) (el_keepalive_head el) xs None"
  proof (cases xs)
    case Nil
    with s show ?thesis by simp
  next
    case (Cons h ys)
    have hd: "el_keepalive_head el = Some h" using s Cons by simp
    have "seg (\<lambda>x. conn_at x ?el) ?n (Some h) (cn_next (conn_at h el)) ys None
        = seg (\<lambda>x. conn_at x el) ?n (Some h) (cn_next (conn_at h el)) ys None"
      using d False Cons hd by (intro seg_cong ballI) (auto simp: f)
    with s Cons hd False show ?thesis by (auto simp: f)
  qed
  then show ?thesis using False assms d by (auto simp: ka_rep_def f)
qed

subsection \<open>Removal\<close>

lemma remove_not_in_list: "\<not> cn_in_list (conn_at i el) \<Longrightarrow> remove_from_keepalive_list i el = el"
  by (simp add: remove_from_keepalive_list_def)

lemma remove_fields:
  assumes "i < length (conns el)" and "cn_in_list (conn_at i el)"
    and p: "\<forall>p. cn_prev (conn_at i el) = Some p \<longrightarrow> p < length (conns el) \<and> p \<noteq> i"
    and n: "\<forall>n. cn_next (conn_at i el) = Some n \<longrightarrow> n < length (conns el) \<and> n \<noteq> i"
  defines "el' \<equiv> remove_from_keepalive_list i el"
  shows "el_keepalive_head el' = (if cn_prev (conn_at i el) = None then cn_next (conn_at i el) else el_keepalive_head el)"
    and "length (conns el') = length (conns el)"
    and "cn_in_list (conn_at x el') \<longleftrightarrow> x \<noteq> i \<and> cn_in_list (conn_at x el)"
    and "cn_next (conn_at x el') = (if x = i then None else if cn_prev (conn_at i el) = Some x
           then cn_next (conn_at i el) else cn_next (conn_at x el))"
    and "cn_prev (conn_at x el') = (if x = i then None else if cn_next (conn_at i el) = Some x
           then cn_prev (conn_at i el) else cn_prev (conn_at x el))"
    and "unlinked (conn_at x el') = unlinked (conn_at x el)"
  using assms(1,2) p n
  by (auto simp: el'_def remove_from_keepalive_list_def Let_def conn_at_set_conn split: option.split)

lemma seg_middle:
  assumes "seg f n None cur (as @ i # bs) None"
  shows "seg f n None cur as (Some i)" and "i < n" and "cn_prev (f i) = last_or None as"
    and "seg f n (Some i) (cn_next (f i)) bs None"
  using assms by (auto simp: seg_append)

text \<open>Redirecting the end of a segment: only the next pointer of its last element changes.\<close>

lemma seg_redirect:
  assumes "seg f n p cur as m" and "distinct as" and "as \<noteq> []"
    and "\<forall>x \<in> set as. cn_prev (g x) = cn_prev (f x)"
    and "\<forall>x \<in> set as. cn_next (g x) = (if x = last as then m' else cn_next (f x))"
  shows "seg g n p cur as m'"
  using assms
proof (induction as arbitrary: p cur)
  case (Cons x xs)
  show ?case
  proof (cases "xs = []")
    case False
    then have "x \<noteq> last xs" using Cons.prems(2) last_in_set by force
    then show ?thesis using Cons False by auto
  qed (use Cons in simp)
qed simp

text \<open>The neighbours of a member are slots of the pool, and not the member itself.\<close>

lemma remove_ptrs:
  assumes "ka_rep el xs" and "cn_in_list (conn_at i el)" and "i < length (conns el)"
  shows "\<forall>p. cn_prev (conn_at i el) = Some p \<longrightarrow> p < length (conns el) \<and> p \<noteq> i"
    and "\<forall>n. cn_next (conn_at i el) = Some n \<longrightarrow> n < length (conns el) \<and> n \<noteq> i"
proof -
  let ?f = "\<lambda>x. conn_at x el" and ?n = "length (conns el)"
  have "i \<in> set xs" using assms by (simp add: ka_rep_def)
  then obtain as bs where xs: "xs = as @ i # bs" by (metis split_list)
  have d: "distinct xs" and s: "seg ?f ?n None (el_keepalive_head el) (as @ i # bs) None"
    using assms xs by (simp_all add: ka_rep_def)
  note m = seg_middle [OF s]
  have nx: "cn_next (?f i) = (if bs = [] then None else Some (hd bs))" using m(4) by (rule seg_head)
  show "\<forall>p. cn_prev (?f i) = Some p \<longrightarrow> p < ?n \<and> p \<noteq> i"
    using m(3) d xs seg_bounded [OF m(1)] by (auto simp: last_or_def split: if_splits)
  show "\<forall>n. cn_next (?f i) = Some n \<longrightarrow> n < ?n \<and> n \<noteq> i"
    using nx d xs seg_bounded [OF m(4)] by (auto split: if_splits)
qed

lemma remove_rep:
  assumes "ka_rep el xs" and "i < length (conns el)"
  shows "ka_rep (remove_from_keepalive_list i el) (removeAll i xs)"
proof (cases "i \<in> set xs")
  case False
  then show ?thesis using assms by (simp add: ka_rep_def remove_not_in_list)
next
  case True
  let ?f = "\<lambda>x. conn_at x el" and ?n = "length (conns el)" and ?el = "remove_from_keepalive_list i el"
  let ?g = "\<lambda>x. conn_at x ?el"
  obtain as bs where xs: "xs = as @ i # bs" using True by (metis split_list)
  have d: "distinct xs" and inl: "cn_in_list (conn_at i el)" and
    s: "seg ?f ?n None (el_keepalive_head el) (as @ i # bs) None"
    using assms True xs by (simp_all add: ka_rep_def)
  note m = seg_middle [OF s]
  have nx: "cn_next (?f i) = (if bs = [] then None else Some (hd bs))" using m(4) by (rule seg_head)
  note f = remove_fields [OF assms(2) inl remove_ptrs [OF assms(1) inl assms(2)]]
  have not: "i \<notin> set as" "i \<notin> set bs" "set as \<inter> set bs = {}" "distinct as" "distinct bs" using d xs by auto
  have g_as: "cn_prev (?g x) = cn_prev (?f x)" "cn_next (?g x) = (if x = last as then cn_next (?f i) else cn_next (?f x))"
    if "x \<in> set as" for x
    using that not nx m(3) by (auto simp: f last_or_def split: if_splits)
  have left: "seg ?g ?n None (el_keepalive_head ?el) as (cn_next (?f i))"
  proof (cases "as = []")
    case True
    with m(3) show ?thesis by (simp add: f)
  next
    case False
    with m(3) have "el_keepalive_head ?el = el_keepalive_head el" by (simp add: f last_or_def)
    with seg_redirect [OF m(1) not(4) False] g_as show ?thesis by simp
  qed
  have right: "seg ?g ?n (last_or None as) (cn_next (?f i)) bs None"
  proof (cases bs)
    case Nil
    with m(4) show ?thesis by simp
  next
    case (Cons b bs')
    have nb: "cn_next (?f i) = Some b" using m(4) Cons by simp
    have "last_or None as \<noteq> Some x" if "x \<in> set bs" for x
    proof (cases "as = []")
      case False
      have "last as \<noteq> x" using last_in_set [OF False] that not(3) by blast
      then show ?thesis by (simp add: last_or_def)
    qed simp
    then have "seg ?g ?n (Some b) (cn_next (?f b)) bs' None = seg ?f ?n (Some b) (cn_next (?f b)) bs' None"
      using not Cons nb m(3) by (intro seg_cong ballI) (auto simp: f)
    moreover have "cn_next (?g b) = cn_next (?f b)"
      using not Cons m(3) \<open>\<And>x. x \<in> set bs \<Longrightarrow> last_or None as \<noteq> Some x\<close> by (auto simp: f)
    moreover have "cn_prev (?g b) = last_or None as" using not(2) Cons nb m(3) by (auto simp: f)
    ultimately show ?thesis using m(4) Cons nb by auto
  qed
  have "removeAll i xs = as @ bs" using xs not by simp
  then show ?thesis using left right d xs assms(1) not
    unfolding ka_rep_def by (auto simp: f(2,3) seg_append)
qed

subsection \<open>The contract of the list\<close>

text \<open>A client that marks and unmarks members; the operations are parameters.\<close>

datatype list_op = Insert nat | Remove nat

fun list_run :: "(nat \<Rightarrow> 's \<Rightarrow> 's) \<Rightarrow> (nat \<Rightarrow> 's \<Rightarrow> 's) \<Rightarrow> list_op list \<Rightarrow> 's \<Rightarrow> 's" where
  "list_run ins del [] s = s"
| "list_run ins del (Insert i # ops) s = list_run ins del ops (ins i s)"
| "list_run ins del (Remove i # ops) s = list_run ins del ops (del i s)"

fun op_slot :: "list_op \<Rightarrow> nat" where
  "op_slot (Insert i) = i"
| "op_slot (Remove i) = i"

text \<open>The same run on a plain list without duplicates, newest member first.\<close>

abbreviation abs_insert :: "nat \<Rightarrow> nat list \<Rightarrow> nat list" where
  "abs_insert i xs \<equiv> (if i \<in> set xs then xs else i # xs)"

locale member_list =
  fixes inv :: "'s \<Rightarrow> bool" and elems :: "'s \<Rightarrow> nat list" and cap :: nat
    and ins :: "nat \<Rightarrow> 's \<Rightarrow> 's" and del :: "nat \<Rightarrow> 's \<Rightarrow> 's"
  assumes elems_ok: "inv s \<Longrightarrow> distinct (elems s) \<and> set (elems s) \<subseteq> {..<cap}"
    and ins_step: "inv s \<Longrightarrow> i < cap \<Longrightarrow> inv (ins i s) \<and> elems (ins i s) = abs_insert i (elems s)"
    and del_step: "inv s \<Longrightarrow> i < cap \<Longrightarrow> inv (del i s) \<and> elems (del i s) = removeAll i (elems s)"
begin

lemma list_run_refines:
  assumes "inv s" and "\<forall>op \<in> set ops. op_slot op < cap"
  shows "inv (list_run ins del ops s) \<and> elems (list_run ins del ops s) = list_run abs_insert removeAll ops (elems s)"
  using assms
proof (induction ops arbitrary: s)
  case (Cons op ops)
  then show ?case using ins_step [of s] del_step [of s] by (cases op) simp_all
qed simp

lemma del_ins:
  assumes "inv s" and "i < cap" and "i \<notin> set (elems s)"
  shows "elems (del i (ins i s)) = elems s"
  using assms ins_step [OF assms(1,2)] del_step [of "ins i s" i] by simp

lemma idempotent:
  assumes "inv s" and "i < cap"
  shows "elems (ins i (ins i s)) = elems (ins i s)" and "elems (del i (del i s)) = elems (del i s)"
  using ins_step [OF assms] ins_step [of "ins i s" i] del_step [OF assms] del_step [of "del i s" i] assms(2) by auto

end

definition ka_inv :: "event_loop \<Rightarrow> bool" where
  "ka_inv el \<longleftrightarrow> length (conns el) = MAX_CONNECTIONS \<and> (\<exists>xs. ka_rep el xs)"

lemma ka_invD: "ka_inv el \<Longrightarrow> length (conns el) = MAX_CONNECTIONS \<and> ka_rep el (ka_list el)"
  using ka_rep_list by (auto simp: ka_inv_def)

lemma add_step:
  assumes "ka_inv el" and "i < MAX_CONNECTIONS"
  shows "ka_inv (add_to_keepalive_list i el) \<and> ka_list (add_to_keepalive_list i el) = abs_insert i (ka_list el)"
proof -
  from ka_invD [OF assms(1)] have len: "length (conns el) = MAX_CONNECTIONS" and rep: "ka_rep el (ka_list el)" by auto
  have i: "i < length (conns el)" using assms(2) len by simp
  have "length (conns (add_to_keepalive_list i el)) = length (conns el)"
    using add_fields(2) [OF rep i] add_in_list [of i el] by (cases "cn_in_list (conn_at i el)") simp_all
  then show ?thesis using add_rep [OF rep i] ka_rep_list len by (auto simp: ka_inv_def)
qed

lemma length_remove [simp]: "length (conns (remove_from_keepalive_list i el)) = length (conns el)"
  by (auto simp: remove_from_keepalive_list_def Let_def split: option.split)

lemma remove_step:
  assumes "ka_inv el" and "i < MAX_CONNECTIONS"
  shows "ka_inv (remove_from_keepalive_list i el) \<and> ka_list (remove_from_keepalive_list i el) = removeAll i (ka_list el)"
  using ka_invD [OF assms(1)] remove_rep [of el "ka_list el" i] ka_rep_list assms(2) by (auto simp: ka_inv_def)

interpretation keepalive: member_list ka_inv ka_list MAX_CONNECTIONS add_to_keepalive_list remove_from_keepalive_list
proof unfold_locales
  show "distinct (ka_list el) \<and> set (ka_list el) \<subseteq> {..<MAX_CONNECTIONS}" if "ka_inv el" for el
    using ka_invD [OF that] seg_bounded by (fastforce simp: ka_rep_def)
qed (auto dest: add_step remove_step)

lemma event_loop_init_ka: "ka_inv (event_loop_init kq fs root t)" "ka_list (event_loop_init kq fs root t) = []"
proof -
  have "ka_rep (event_loop_init kq fs root t) []"
    by (simp add: ka_rep_def event_loop_init_def conn_at_def conn_default_def)
  then show "ka_inv (event_loop_init kq fs root t)" "ka_list (event_loop_init kq fs root t) = []"
    using ka_rep_list by (auto simp: ka_inv_def event_loop_init_def)
qed

text \<open>
  C16: the intrusive list of the loop implements a list without duplicates.  Over any sequence of
  insertions and removals the slots read off the head and the \<open>next\<close> pointers are those
  of the same sequence on a plain list, newest first, and the pointers stay well formed.
\<close>

theorem keepalive_list_refines:
  assumes "ka_inv el" and "\<forall>op \<in> set ops. op_slot op < MAX_CONNECTIONS"
  shows "ka_inv (list_run add_to_keepalive_list remove_from_keepalive_list ops el)
    \<and> ka_list (list_run add_to_keepalive_list remove_from_keepalive_list ops el)
        = list_run abs_insert removeAll ops (ka_list el)"
  using assms by (rule keepalive.list_run_refines)

lemma keepalive_list_refines_witness:
  "ka_list (list_run add_to_keepalive_list remove_from_keepalive_list [Insert 3, Insert 5, Insert 3, Insert 7, Remove 5]
     (event_loop_init 0 (example_fs Regular) ''/w'' 75)) = [7, 3]"
  using keepalive_list_refines [of "event_loop_init 0 (example_fs Regular) ''/w'' 75"
      "[Insert 3, Insert 5, Insert 3, Insert 7, Remove 5]"]
  by (simp add: event_loop_init_ka MAX_CONNECTIONS_def)

end
