(* ===== verification/Escaping.thy ===== *)
theory Escaping
  imports Path_Normalize
begin

text \<open>
  \<open>src/server/file_server.cpp\<close>, the two byte-wise encoders of the directory listing:
  \<open>html_escape\<close> and \<open>url_encode_path\<close>.  Both replace each byte by a fragment; the locale
  \<open>escaper\<close> states what such an encoder promises (fragments over a safe alphabet, a decoder
  that takes each fragment back) and derives the laws of the encoder once.
\<close>

subsection \<open>The encoders\<close>

definition html_escape_char :: "char \<Rightarrow> string" where
  "html_escape_char c =
     (if c = CHR ''&'' then ''&amp;''
      else if c = CHR ''<'' then ''&lt;''
      else if c = CHR ''>'' then ''&gt;''
      else if c = CHR 0x22 then ''&quot;''
      else if c = CHR 0x27 then ''&#39;''
      else [c])"

definition html_escape :: "string \<Rightarrow> string" where
  "html_escape s = concat (map html_escape_char s)"

definition url_encode_char :: "char \<Rightarrow> string" where
  "url_encode_char c =
     (if is_alnum c \<or> c = CHR ''-'' \<or> c = CHR ''_'' \<or> c = CHR ''.'' \<or> c = CHR ''~'' \<or> c = CHR ''/''
      then [c]
      else if c = CHR '' '' then ''%20''
      else [CHR ''%'', hex_digit (byte_val c div 16), hex_digit (byte_val c mod 16)])"

definition url_encode_path :: "string \<Rightarrow> string" where
  "url_encode_path s = concat (map url_encode_char s)"

subsection \<open>The contract of a byte-wise encoder\<close>

locale escaper =
  fixes esc :: "char \<Rightarrow> string"
    and unesc :: "string \<Rightarrow> string"
    and encodable :: "char \<Rightarrow> bool"
    and safe :: "char \<Rightarrow> bool"
  assumes esc_safe: "list_all safe (esc c)"
    and unesc_esc: "encodable c \<Longrightarrow> unesc (esc c @ rest) = c # unesc rest"
    and unesc_Nil: "unesc [] = []"
begin

lemma escape_safe: "list_all safe (concat (map esc s))"
  by (induction s) (auto simp: esc_safe)

lemma escape_inverse_append:
  "list_all encodable s \<Longrightarrow> unesc (concat (map esc s) @ rest) = s @ unesc rest"
  by (induction s) (auto simp: unesc_esc)

lemma escape_inverse: "list_all encodable s \<Longrightarrow> unesc (concat (map esc s)) = s"
  using escape_inverse_append [of s "[]"] by (simp add: unesc_Nil)

lemma escape_inj:
  "list_all encodable s \<Longrightarrow> list_all encodable t \<Longrightarrow>
   concat (map esc s) = concat (map esc t) \<Longrightarrow> s = t"
  by (metis escape_inverse)

end

subsection \<open>HTML\<close>

text \<open>The specification side: how a browser reads the five character references.\<close>

function html_unescape :: "string \<Rightarrow> string" where
  "html_unescape [] = []"
| "html_unescape (c # cs) =
     (if c \<noteq> CHR ''&'' then c # html_unescape cs
      else if take 4 cs = ''amp;'' then CHR ''&'' # html_unescape (drop 4 cs)
      else if take 3 cs = ''lt;'' then CHR ''<'' # html_unescape (drop 3 cs)
      else if take 3 cs = ''gt;'' then CHR ''>'' # html_unescape (drop 3 cs)
      else if take 5 cs = ''quot;'' then CHR 0x22 # html_unescape (drop 5 cs)
      else if take 4 cs = ''#39;'' then CHR 0x27 # html_unescape (drop 4 cs)
      else c # html_unescape cs)"
  by pat_completeness auto
termination
  by (relation "measure length") auto

definition html_inert :: "char \<Rightarrow> bool" where
  "html_inert c \<longleftrightarrow> c \<noteq> CHR ''<'' \<and> c \<noteq> CHR ''>'' \<and> c \<noteq> CHR 0x22 \<and> c \<noteq> CHR 0x27"

interpretation html: escaper html_escape_char html_unescape "\<lambda>_. True" html_inert
  by unfold_locales (auto simp: html_escape_char_def html_inert_def)

subsection \<open>URL paths\<close>

definition url_inert :: "char \<Rightarrow> bool" where
  "url_inert c \<longleftrightarrow> is_alnum c \<or> c = CHR ''-'' \<or> c = CHR ''_'' \<or> c = CHR ''.'' \<or> c = CHR ''~''
     \<or> c = CHR ''/'' \<or> c = CHR ''%''"

lemma percent_not_alnum [simp]: "\<not> is_alnum CHR ''%''"
  by (simp add: is_alnum_def is_digit_def)

lemma space_hex: "''%20'' = [CHR ''%'', hex_digit (byte_val CHR '' '' div 16), hex_digit (byte_val CHR '' '' mod 16)]"
  by (simp add: hex_digit_def)

lemma url_encode_char_cases:
  obtains "url_encode_char c = [c]" and "c \<noteq> CHR ''%''" and "url_inert c"
  | "url_encode_char c = [CHR ''%'', hex_digit (byte_val c div 16), hex_digit (byte_val c mod 16)]"
proof (cases "is_alnum c \<or> c = CHR ''-'' \<or> c = CHR ''_'' \<or> c = CHR ''.'' \<or> c = CHR ''~'' \<or> c = CHR ''/''")
  case True
  then have "url_encode_char c = [c]" "c \<noteq> CHR ''%''" "url_inert c"
    by (auto simp: url_encode_char_def url_inert_def)
  with that show thesis by blast
next
  case False
  then show thesis
    by (cases "c = CHR '' ''") (simp_all add: that url_encode_char_def hex_digit_def)
qed

lemma byte_hex_bounds [simp]: "byte_val c div 16 < 16" "byte_val c mod 16 < 16"
  using byte_val_less [of c] by linarith+

lemma percent_decode_hex:
  assumes "c \<noteq> NUL"
  shows "percent_decode (CHR ''%'' # hex_digit (byte_val c div 16) # hex_digit (byte_val c mod 16) # rest)
    = c # percent_decode rest"
proof -
  have v: "16 * (byte_val c div 16) + byte_val c mod 16 = byte_val c" by simp
  have "strtol 16 [hex_digit (byte_val c div 16), hex_digit (byte_val c mod 16)] = (int (byte_val c), 2)"
    by (subst strtol_two_hex) (simp_all only: byte_hex_bounds v)
  moreover have "byte_val c \<noteq> byte_val NUL" using assms of_char_eq_iff by blast
  then have "0 < byte_val c" by simp
  ultimately show ?thesis by simp
qed

interpretation url: escaper url_encode_char percent_decode "\<lambda>c. c \<noteq> NUL" url_inert
proof unfold_locales
  fix c :: char and rest :: string
  have "url_inert (hex_digit (byte_val c div 16))" "url_inert (hex_digit (byte_val c mod 16))"
    by (simp_all add: url_inert_def hex_digit_plain)
  then show "list_all url_inert (url_encode_char c)"
    by (cases c rule: url_encode_char_cases) (auto simp: url_inert_def)
  assume "c \<noteq> NUL"
  then show "percent_decode (url_encode_char c @ rest) = c # percent_decode rest"
    by (cases c rule: url_encode_char_cases) (simp_all add: percent_decode_hex del: percent_decode.simps(2), simp)
qed simp

lemma illegal_NUL: "illegal_byte NUL"
  by (simp add: illegal_byte_def)

lemma good_name_encodable: "good_name p \<Longrightarrow> list_all (\<lambda>c. c \<noteq> NUL) p"
  using illegal_NUL by (auto simp: good_name_def list_all_iff)

lemma join_parts_encodable:
  assumes "\<forall>p \<in> set parts. good_name p"
  shows "list_all (\<lambda>c. c \<noteq> NUL) (join_parts parts)"
  using join_parts_legal [OF assms] illegal_NUL by (auto simp: list_ex_iff list_all_iff)

text \<open>
  C37: the links of a listing lead back to the entry.  The encoded form of a canonical path
  normalises to that path, whatever bytes its names hold.
\<close>

theorem normalize_url_encode:
  assumes "\<forall>p \<in> set parts. good_name p"
  shows "normalize_path (url_encode_path (join_parts parts)) = join_parts parts"
  using url.escape_inverse [OF join_parts_encodable [OF assms]] assms
  by (intro normalize_decoded) (simp_all add: url_encode_path_def)

lemma normalize_url_encode_witness:
  "normalize_path (url_encode_path (join_parts [''a%41 <b>''])) = ''/a%41 <b>''"
  by (subst normalize_url_encode) (auto simp: good_name_def illegal_byte_def join_parts_def)

text \<open>
  An encoded name holds unreserved characters, slashes and percent signs only, and a
  browser or the server that decodes it gets the name back.
\<close>

theorem url_encode_path_correct:
  assumes "list_all (\<lambda>c. c \<noteq> NUL) s"
  shows "list_all url_inert (url_encode_path s) \<and> percent_decode (url_encode_path s) = s"
  using url.escape_safe [of s] url.escape_inverse [OF assms] by (simp add: url_encode_path_def)

lemma url_encode_path_correct_witness:
  "list_all url_inert (url_encode_path ''a b?'') \<and> percent_decode (url_encode_path ''a b?'') = ''a b?''"
  by (rule url_encode_path_correct) simp

text \<open>
  Escaped text cannot open a tag or leave a quoted attribute, and a browser shows the
  original bytes.
\<close>

theorem html_escape_correct:
  "list_all html_inert (html_escape s) \<and> html_unescape (html_escape s) = s"
  using html.escape_safe [of s] html.escape_inverse [of s]
  by (simp add: html_escape_def list_all_iff)

end
