(* ===== verification/Dir_Listing.thy ===== *)
theory Dir_Listing
  imports Escaping File_Server C_Time "HOL-Library.Multiset"
begin

text \<open>
  \<open>src/server/file_server.cpp\<close>, the directory listing: \<open>list_directory\<close> reads, filters and
  sorts the entries of a directory, \<open>build_directory_html\<close> renders them.  The order of the
  comparator is the \<open>linorder\<close> instance of the key type \<open>dir_key\<close>.  The answers of
  \<open>localtime_r\<close>, which reads the time zone database, are the parameter \<open>localtime\<close>.
\<close>

subsection \<open>Entries and their order\<close>

record dir_entry =
  de_name :: string
  de_is_directory :: bool
  de_size :: int
  de_last_modified :: int

datatype dir_key = Dir_Key bool string

instantiation dir_key :: linorder
begin

fun less_dir_key :: "dir_key \<Rightarrow> dir_key \<Rightarrow> bool" where
  "less_dir_key (Dir_Key d1 n1) (Dir_Key d2 n2) \<longleftrightarrow> (if d1 \<noteq> d2 then d2 < d1 else n1 < n2)"

definition less_eq_dir_key :: "dir_key \<Rightarrow> dir_key \<Rightarrow> bool" where
  "less_eq_dir_key a b \<longleftrightarrow> a < b \<or> a = b"

instance
proof
  fix x y z :: dir_key
  show "(x < y) = (x \<le> y \<and> \<not> y \<le> x)"
    by (cases x; cases y) (auto simp: less_eq_dir_key_def)
  show "x \<le> x" by (simp add: less_eq_dir_key_def)
  show "x \<le> y \<Longrightarrow> y \<le> z \<Longrightarrow> x \<le> z"
    by (cases x; cases y; cases z) (auto simp: less_eq_dir_key_def split: if_splits)
  show "x \<le> y \<Longrightarrow> y \<le> x \<Longrightarrow> x = y"
    by (cases x; cases y) (auto simp: less_eq_dir_key_def split: if_splits)
  show "x \<le> y \<or> y \<le> x"
    by (cases x; cases y) (auto simp: less_eq_dir_key_def)
qed

end

definition entry_key :: "dir_entry \<Rightarrow> dir_key" where
  "entry_key e = Dir_Key (de_is_directory e) (de_name e)"

text \<open>The comparator given to \<open>std::sort\<close>.\<close>

definition entry_less :: "dir_entry \<Rightarrow> dir_entry \<Rightarrow> bool" where
  "entry_less a b =
     (if de_is_directory a \<noteq> de_is_directory b then de_is_directory b < de_is_directory a
      else string_less (de_name a) (de_name b))"

lemma entry_less_key: "entry_less a b \<longleftrightarrow> entry_key a < entry_key b"
  by (simp add: entry_less_def entry_key_def string_less_iff)

subsection \<open>Reading a directory\<close>

definition make_entry :: "fs \<Rightarrow> string \<Rightarrow> string \<Rightarrow> dir_entry option" where
  "make_entry fs dir_path name =
     (if name = [] \<or> hd name = CHR ''.'' then None
      else case fs_stat fs (dir_path @ name) of
             None \<Rightarrow> None
           | Some st \<Rightarrow> Some \<lparr>de_name = name, de_is_directory = (st_kind st = Directory),
                          de_size = st_size st, de_last_modified = st_mtime st\<rparr>)"

definition list_directory :: "fs \<Rightarrow> string \<Rightarrow> string \<Rightarrow> dir_entry list" where
  "list_directory fs root_dir request_path =
     (let normalized = normalize_path request_path in
      if normalized = [] then []
      else let path = root_dir @ normalized;
               dir_path = (if path = [] \<or> last path \<noteq> CHR ''/'' then path @ ''/'' else path) in
      case fs_readdir fs dir_path of
        None \<Rightarrow> []
      | Some names \<Rightarrow> sort_key entry_key (List.map_filter (make_entry fs dir_path) names))"

subsection \<open>Sizes\<close>

text \<open>
  \<open>%.1f\<close> prints the exact value of the \<open>double\<close>, rounded to tenths with ties to even.  The
  conversion of the size to \<open>double\<close> is exact below \<open>2^53\<close> and rounds to 53 bits above; the
  divisions are by powers of two and exact.
\<close>

definition round_half_even :: "int \<Rightarrow> int \<Rightarrow> int" where
  "round_half_even num den =
     (let q = num div den; r = num mod den in
      if 2 * r < den then q else if den < 2 * r then q + 1 else if even q then q else q + 1)"

fun bit_length :: "nat \<Rightarrow> nat" where
  "bit_length n = (if n = 0 then 0 else Suc (bit_length (n div 2)))"

declare bit_length.simps [simp del]

definition double_of :: "int \<Rightarrow> int" where
  "double_of n =
     (if n < 2 ^ 53 then n
      else let u = 2 ^ (bit_length (nat n) - 53) in round_half_even n u * u)"

definition fmt_1f :: "int \<Rightarrow> int \<Rightarrow> string" where
  "fmt_1f num den =
     (let t = round_half_even (10 * num) den in
      string_of_int (t div 10) @ ''.'' @ string_of_int (t mod 10))"

definition format_size :: "int \<Rightarrow> string" where
  "format_size sz =
     (if sz < 1024 then string_of_int sz @ '' B''
      else if sz < 1024 * 1024 then fmt_1f (double_of sz) 1024 @ '' KB''
      else if sz < 1024 * 1024 * 1024 then fmt_1f (double_of sz) (1024 * 1024) @ '' MB''
      else fmt_1f (double_of sz) (1024 * 1024 * 1024) @ '' GB'')"

text \<open>
  The static \<open>format_time\<close> of this file: \<open>strftime\<close> with \<open>"%Y-%m-%d %H:%M"\<close> on the local time,
  with the year in at least four digits, as the C library of the target system (macOS) prints it.  The text is
  at most 22 bytes long for every year of an \<open>int\<close>, so the buffer of 32 always holds it.
\<close>

definition format_local_time :: "(int \<Rightarrow> tm) \<Rightarrow> int \<Rightarrow> string" where
  "format_local_time localtime t =
     (let result = localtime t in
      fmt_0d 4 (tm_year result + 1900) @ ''-'' @ fmt_0d 2 (int (tm_mon result) + 1) @ ''-'' @ fmt_0d 2 (tm_mday result)
        @ '' '' @ fmt_0d 2 (tm_hour result) @ '':'' @ fmt_0d 2 (tm_min result))"

subsection \<open>The page\<close>

definition CSS :: string where
  "CSS =
     [LF] @
     ''*{margin:0;padding:0;box-sizing:border-box}'' @ [LF] @
     ''body{font-family:-apple-system,BlinkMacSystemFont,\"Segoe UI\",Helvetica,Arial,sans-serif;background:#0d1117;color:#e6edf3;line-height:1.6;min-height:100vh}'' @ [LF] @
     ''.container{max-width:960px;margin:0 auto;padding:32px 24px}'' @ [LF] @
     ''h1{font-size:24px;font-weight:600;margin-bottom:24px;color:#e6edf3;display:flex;align-items:center;gap:10px}'' @ [LF] @
     ''h1 .icon{font-size:26px}'' @ [LF] @
     ''table{width:100%;border-collapse:collapse;background:#161b22;border:1px solid #30363d;border-radius:8px;overflow:hidden}'' @ [LF] @
     ''thead th{text-align:left;padding:12px 16px;font-size:13px;font-weight:600;color:#8b949e;border-bottom:1px solid #30363d;background:#0d1117;user-select:none}'' @ [LF] @
     ''tbody tr{border-bottom:1px solid #21262d;transition:background .12s ease}'' @ [LF] @
     ''tbody tr:last-child{border-bottom:none}'' @ [LF] @
     ''tbody tr:hover{background:#1c2128}'' @ [LF] @
     ''td{padding:10px 16px;font-size:14px}'' @ [LF] @
     ''td.name a{color:#58a6ff;text-decoration:none;display:inline-flex;align-items:center;gap:8px}'' @ [LF] @
     ''td.name a:hover{color:#79c0ff;text-decoration:underline}'' @ [LF] @
     ''td.size{color:#8b949e;font-variant-numeric:tabular-nums;width:100px}'' @ [LF] @
     ''td.date{color:#8b949e;font-variant-numeric:tabular-nums;width:170px}'' @ [LF] @
     ''tr.parent td{border-bottom:1px solid #30363d;padding-top:10px;padding-bottom:10px}'' @ [LF] @
     ''tr.parent td.name a{color:#e6edf3;font-weight:500}'' @ [LF] @
     ''.icon-dir{color:#58a6ff}'' @ [LF] @
     ''.icon-file{color:#8b949e}'' @ [LF] @
     ''footer{margin-top:24px;text-align:center;font-size:12px;color:#484f58}'' @ [LF] @
     ''@media(max-width:600px){.container{padding:16px 12px}h1{font-size:20px}td.date{display:none}td.size{width:70px}}'' @ [LF]"

definition page_head :: "string \<Rightarrow> string" where
  "page_head request_path =
     ''<!DOCTYPE html>'' @ [LF] @ ''<html lang=\"zh-CN\">'' @ [LF] @ ''<head>'' @ [LF] @
     ''<meta charset=\"utf-8\">'' @ [LF] @
     ''<meta name=\"viewport\" content=\"width=device-width, initial-scale=1\">'' @ [LF] @
     ''<title>Index of '' @ html_escape request_path @
     ''</title>'' @ [LF] @ ''<style>'' @ [LF] @ CSS @
     ''</style>'' @ [LF] @ ''</head>'' @ [LF] @ ''<body>'' @ [LF] @
     ''<div class=\"container\">'' @ [LF] @
     ''<h1><span class=\"icon\">&#x1F4C1;</span> Index of '' @ html_escape request_path @
     ''</h1>'' @ [LF] @ ''<table>'' @ [LF] @ ''<thead>'' @ [LF] @ ''<tr>'' @
     ''<th>Name</th><th class=\"size\">Size</th><th class=\"date\">Modified</th>'' @
     ''</tr>'' @ [LF] @ ''</thead>'' @ [LF] @ ''<tbody>'' @ [LF]"

definition parent_row :: string where
  "parent_row =
     ''<tr class=\"parent\">'' @ [LF] @
     ''<td class=\"name\"><a href=\"../\">&#x1F4C2; ../</a></td>'' @ [LF] @
     ''<td class=\"size\">-</td>'' @ [LF] @
     ''<td class=\"date\">-</td>'' @ [LF] @ ''</tr>'' @ [LF]"

definition entry_href :: "string \<Rightarrow> bool \<Rightarrow> dir_entry \<Rightarrow> string" where
  "entry_href request_path show_parent e =
     (if show_parent then url_encode_path (de_name e)
      else (if request_path = [] \<or> last request_path \<noteq> CHR ''/'' then request_path @ ''/''
            else request_path) @ url_encode_path (de_name e))
     @ (if de_is_directory e then ''/'' else [])"

definition entry_row :: "(int \<Rightarrow> tm) \<Rightarrow> string \<Rightarrow> bool \<Rightarrow> dir_entry \<Rightarrow> string" where
  "entry_row localtime request_path show_parent e =
     ''<tr>'' @ [LF] @ ''<td class=\"name\"><a href=\"'' @ entry_href request_path show_parent e @
     ''\">'' @
     (if de_is_directory e then ''<span class=\"icon-dir\">&#x1F4C2;</span> ''
      else ''<span class=\"icon-file\">&#x1F4C4;</span> '') @
     html_escape (de_name e) @ (if de_is_directory e then ''/'' else []) @
     ''</a></td>'' @ [LF] @ ''<td class=\"size\">'' @
     (if de_is_directory e then ''-'' else format_size (de_size e)) @
     ''</td>'' @ [LF] @ ''<td class=\"date\">'' @ format_local_time localtime (de_last_modified e) @
     ''</td>'' @ [LF] @ ''</tr>'' @ [LF]"

definition page_foot :: string where
  "page_foot =
     ''</tbody>'' @ [LF] @ ''</table>'' @ [LF] @
     ''<footer>web_server_cpp/1.0</footer>'' @ [LF] @
     ''</div>'' @ [LF] @ ''</body>'' @ [LF] @ ''</html>''"

definition build_directory_html ::
  "(int \<Rightarrow> tm) \<Rightarrow> string \<Rightarrow> dir_entry list \<Rightarrow> bool \<Rightarrow> string" where
  "build_directory_html localtime request_path entries show_parent =
     page_head request_path @ (if show_parent then parent_row else []) @
     concat (map (entry_row localtime request_path show_parent) entries) @ page_foot"

subsection \<open>The listing\<close>

lemma make_entry_Some:
  "make_entry fs dir name = Some e \<Longrightarrow>
   de_name e = name \<and> name \<noteq> [] \<and> hd name \<noteq> CHR ''.''
   \<and> (\<exists>st. fs_stat fs (dir @ name) = Some st \<and> de_is_directory e = (st_kind st = Directory)
        \<and> de_size e = st_size st \<and> de_last_modified e = st_mtime st)"
  by (auto simp: make_entry_def split: if_splits option.splits)

lemma sorted_entries_iff:
  "sorted_wrt (\<lambda>a b. \<not> entry_less b a) es \<longleftrightarrow> sorted (map entry_key es)"
  by (simp add: entry_less_key sorted_wrt_map not_less)

lemma set_map_filter: "set (List.map_filter f xs) = {y. \<exists>x \<in> set xs. f x = Some y}"
  by (induction xs) (auto simp: map_filter_simps split: option.splits)

lemma last_join_parts:
  assumes "\<forall>p \<in> set parts. good_name p" and "parts \<noteq> []"
  shows "last (join_parts parts) \<noteq> CHR ''/''"
proof -
  obtain ps q where parts: "parts = ps @ [q]" using assms(2) by (metis rev_exhaust)
  with assms(1) have "q \<noteq> []" "last q \<noteq> CHR ''/''"
    by (auto simp: good_name_def) (metis last_in_set)
  with parts show ?thesis by (simp add: join_parts_def)
qed

text \<open>
  C26: the listing of a readable directory holds, for each name read that is not hidden and
  can be examined, one entry with the data of that file, and nothing else; directories come
  first and each group is in byte order of the names.
\<close>

theorem list_directory_correct:
  assumes "normalize_path path = join_parts parts" and "\<forall>p \<in> set parts. good_name p"
    and "dir = root @ join_parts parts @ (if parts = [] then [] else ''/'')"
    and "fs_readdir fs dir = Some names"
  shows "sorted_wrt (\<lambda>a b. \<not> entry_less b a) (list_directory fs root path)
    \<and> mset (list_directory fs root path) = mset (List.map_filter (make_entry fs dir) names)
    \<and> (\<forall>e \<in> set (list_directory fs root path). de_name e \<in> set names \<and> hd (de_name e) \<noteq> CHR ''.'')"
proof -
  let ?es = "List.map_filter (make_entry fs dir) names"
  have "parts \<noteq> [] \<Longrightarrow> last (join_parts parts) \<noteq> CHR ''/''"
    by (rule last_join_parts [OF assms(2)])
  then have eq: "list_directory fs root path = sort_key entry_key ?es"
    using assms by (auto simp: list_directory_def Let_def join_parts_def)
  have "e \<in> set ?es \<Longrightarrow> de_name e \<in> set names \<and> hd (de_name e) \<noteq> CHR ''.''" for e
    by (auto simp: set_map_filter dest: make_entry_Some)
  then show ?thesis by (simp add: eq sorted_entries_iff)
qed

definition example_dir_fs :: fs where
  "example_dir_fs =
     (example_fs Regular)\<lparr>fs_readdir := (\<lambda>p. if p = ''/srv/d/'' then Some [''.git'', ''b'', ''a''] else None),
       fs_stat := (\<lambda>p. Some \<lparr>st_kind = (if p = ''/srv/d/b'' then Directory else Regular),
                          st_size = 1, st_mtime = 0\<rparr>)\<rparr>"

lemma normalize_d: "normalize_path ''/d'' = join_parts [''d'']"
  by (simp add: normalize_path_def resolve_segments_walk illegal_byte_def segments_def join_parts_def)

lemma list_directory_correct_witness:
  "mset (map de_name (list_directory example_dir_fs ''/srv'' ''/d'')) = {#''a'', ''b''#}
   \<and> sorted_wrt (\<lambda>a b. \<not> entry_less b a) (list_directory example_dir_fs ''/srv'' ''/d'')"
proof -
  have j: "join_parts [''d''] = ''/d''" by (simp add: join_parts_def)
  have d: "''/srv/d/'' = ''/srv'' @ join_parts [''d''] @ (if [''d''] = [] then [] else ''/'')"
    by (simp add: j)
  have r: "fs_readdir example_dir_fs ''/srv/d/'' = Some [''.git'', ''b'', ''a'']"
    by (simp add: example_dir_fs_def)
  have g: "\<forall>p \<in> set [''d'']. good_name p" by (simp add: good_name_def illegal_byte_def)
  note c = list_directory_correct [OF normalize_d g d r]
  from c have "image_mset de_name (mset (list_directory example_dir_fs ''/srv'' ''/d'')) = {#''a'', ''b''#}"
    by (simp add: map_filter_simps make_entry_def example_dir_fs_def)
  with c show ?thesis by (simp add: mset_map)
qed

lemma filter_same_key:
  assumes "distinct (map f xs)" and "x \<in> set xs"
  shows "filter (\<lambda>y. f x = f y) xs = [x]"
  using assms by (induction xs) (auto simp: filter_empty_conv, metis imageI)

text \<open>
  \<open>std::sort\<close> leaves the order of equivalent elements open, yet here its result is
  determined: names in a directory are distinct, so every sorted arrangement of the entries
  is the one the model returns.
\<close>

theorem sort_entries_unique:
  assumes "distinct (map de_name es)" and "mset ys = mset es"
    and "sorted_wrt (\<lambda>a b. \<not> entry_less b a) ys"
  shows "ys = sort_key entry_key es"
proof -
  have "inj_on entry_key (set es)" and "distinct es"
    using assms(1) by (auto simp: entry_key_def distinct_map inj_on_def)
  then have d: "distinct (map entry_key es)" by (simp add: distinct_map)
  have set: "set ys = set es" using assms(2) by (metis set_mset_mset)
  have dy: "distinct (map entry_key ys)"
    using d assms(2) by (metis mset_map mset_eq_imp_distinct_iff)
  have "sort_key entry_key es = ys"
  proof (rule properties_for_sort_key)
    show "mset ys = mset es" by (rule assms(2))
    show "sorted (map entry_key ys)" using assms(3) by (simp add: sorted_entries_iff)
  next
    fix k assume "k \<in> set ys"
    then show "filter (\<lambda>x. entry_key k = entry_key x) ys = filter (\<lambda>x. entry_key k = entry_key x) es"
      using filter_same_key [OF d] filter_same_key [OF dy] set by auto
  qed
  then show ?thesis ..
qed

lemma sort_entries_unique_witness:
  "let e = (\<lambda>n d. \<lparr>de_name = n, de_is_directory = d, de_size = 0, de_last_modified = 0\<rparr>)
   in [e ''b'' True, e ''a'' False] = sort_key entry_key [e ''a'' False, e ''b'' True]"
  unfolding Let_def by (rule sort_entries_unique) (simp_all add: entry_less_def add_mset_commute)

subsection \<open>The links of the page\<close>

lemma split_slash_append_slash:
  "split_slash (xs @ CHR ''/'' # ys) = split_slash xs @ split_slash ys"
  by (induction xs) auto

lemma segments_append_slash: "segments (xs @ CHR ''/'' # ys) = segments xs @ segments ys"
  by (simp add: segments_def split_slash_append_slash)



end
