(* ===== verification/Connection_Safety.thy ===== *)
theory Connection_Safety
  imports Connection "HOL-Library.Multiset"
begin

text \<open>
  Safety of the operations of a connection: every \<open>do_*\<close> member keeps the well-formedness of
  the state, and every descriptor and SSL object it held before is afterwards either still held
  or has been given back, exactly once.
\<close>

subsection \<open>The invariant and the account of descriptors\<close>

text \<open>
  What holds between events: a closed connection owns nothing, the counters stay inside their
  buffers, a chunk in flight is part of what remains, the read buffer is bounded, and before a
  response is prepared nothing of an earlier one is left.
\<close>

definition awaiting :: "conn_state \<Rightarrow> bool" where
  "awaiting st \<longleftrightarrow> st = PROTO_DETECT \<or> st = TLS_ACCEPT \<or> st = READING"

lemma awaiting_simps [simp]:
  "awaiting PROTO_DETECT" "awaiting TLS_ACCEPT" "awaiting READING" "\<not> awaiting PARSING"
  "\<not> awaiting CLOSED" "\<not> awaiting SENDING_HEADERS" "\<not> awaiting SENDING_BODY" "\<not> awaiting KEEP_ALIVE"
  by (simp_all add: awaiting_def)

definition unsent :: "connection \<Rightarrow> bool" where
  "unsent c \<longleftrightarrow> cn_body_sent c = 0 \<and> cn_chunk_used c = 0 \<and> cn_chunk_sent c = 0"

definition no_file :: "connection \<Rightarrow> bool" where
  "no_file c \<longleftrightarrow> cn_file_fd c = -1 \<and> cn_send_remaining c = 0"

definition idle :: "connection \<Rightarrow> bool" where
  "idle c \<longleftrightarrow> no_file c \<and> rq_method (cn_request c) = UNKNOWN \<and> length (cn_read_buf c) \<le> 65536"

definition buffers_ok :: "connection \<Rightarrow> bool" where
  "buffers_ok c \<longleftrightarrow> cn_header_sent c \<le> length (cn_header_buf c)
     \<and> cn_body_sent c \<le> length (rs_body (cn_response c))
     \<and> cn_chunk_sent c \<le> cn_chunk_used c \<and> 0 \<le> cn_send_remaining c
     \<and> (cn_chunk_sent c < cn_chunk_used c \<longrightarrow>
          cn_chunk_used c \<le> length (cn_chunk_buf c) \<and> int (cn_chunk_used c) \<le> cn_send_remaining c)"

definition conn_base :: "connection \<Rightarrow> bool" where
  "conn_base c \<longleftrightarrow> buffers_ok c \<and> -1 \<le> cn_file_fd c \<and> length (cn_read_buf c) \<le> 69632
     \<and> (cn_state c = CLOSED \<longrightarrow> cn_fd c = -1 \<and> cn_ssl c = None \<and> cn_file_fd c = -1)
     \<and> (cn_state c \<noteq> CLOSED \<longrightarrow> 0 \<le> cn_fd c \<and> (cn_ssl c = None \<longrightarrow> cn_chunk_used c \<le> cn_chunk_sent c))"

definition conn_inv :: "connection \<Rightarrow> bool" where
  "conn_inv c \<longleftrightarrow> conn_base c \<and> (awaiting (cn_state c) \<or> cn_state c = PARSING \<longrightarrow> unsent c)
     \<and> (awaiting (cn_state c) \<longrightarrow> idle c)"

lemma conn_inv_updates [simp]:
  "\<not> awaiting (cn_state c) \<Longrightarrow> conn_inv (c\<lparr>cn_request := r\<rparr>) = conn_inv c" "conn_inv (c\<lparr>cn_last_active := t\<rparr>) = conn_inv c"
  "conn_inv (c\<lparr>cn_prev := p\<rparr>) = conn_inv c" "conn_inv (c\<lparr>cn_next := n\<rparr>) = conn_inv c"
  "conn_inv (c\<lparr>cn_in_list := b\<rparr>) = conn_inv c" "conn_inv (c\<lparr>cn_is_head := b\<rparr>) = conn_inv c"
  "conn_inv (c\<lparr>cn_tls_available := b\<rparr>) = conn_inv c"
  by (simp_all add: conn_inv_def conn_base_def buffers_ok_def unsent_def no_file_def idle_def)

definition owned :: "connection \<Rightarrow> int multiset" where
  "owned c = (if 0 \<le> cn_fd c then {#cn_fd c#} else {#}) + (if 0 \<le> cn_file_fd c then {#cn_file_fd c#} else {#})"

definition owned_ssl :: "connection \<Rightarrow> nat multiset" where
  "owned_ssl c = (case cn_ssl c of None \<Rightarrow> {#} | Some s \<Rightarrow> {#s#})"

definition same_links :: "connection \<Rightarrow> connection \<Rightarrow> bool" where
  "same_links c c' \<longleftrightarrow> cn_prev c' = cn_prev c \<and> cn_next c' = cn_next c \<and> cn_in_list c' = cn_in_list c"

text \<open>What was held and what was obtained is what was given back and what is held.\<close>

definition balanced :: "connection \<Rightarrow> effect list \<Rightarrow> connection \<Rightarrow> bool" where
  "balanced c es c' \<longleftrightarrow> owned c + mset (opened_fds es) = mset (closed_fds es) + owned c'
     \<and> owned_ssl c + mset (created_ssl es) = mset (freed_ssl es) + owned_ssl c'"

fun step_ok :: "connection \<Rightarrow> conn_step \<Rightarrow> bool" where
  "step_ok c (w, c', es) \<longleftrightarrow> conn_inv c' \<and> balanced c es c' \<and> same_links c c'
     \<and> (cn_state c' = CLOSED \<longrightarrow> w = Want_None) \<and> (cn_state c' \<noteq> CLOSED \<longrightarrow> cn_fd c' = cn_fd c)"

lemmas conn_inv_defs = conn_inv_def conn_base_def buffers_ok_def unsent_def no_file_def idle_def awaiting_def
lemmas owned_defs = owned_def owned_ssl_def balanced_def same_links_def

lemma balanced_simps [simp]:
  "balanced c [] c" "balanced c (E_Sendfile file fd off n # es) c' \<longleftrightarrow> balanced c es c'"
  by (simp_all add: balanced_def)

lemma multiset_balance:
  "a + m1 = k1 + b \<Longrightarrow> b + m2 = k2 + d \<Longrightarrow> a + (m1 + m2) = (k1 + k2) + (d :: 'a multiset)"
  by (metis add.assoc)

lemma balanced_trans: "balanced c es c1 \<Longrightarrow> balanced c1 es' c2 \<Longrightarrow> balanced c (es @ es') c2"
  unfolding balanced_def by (auto intro: multiset_balance)

lemma step_ok_trans:
  assumes "step_ok c (w, c1, es)" and "cn_state c1 \<noteq> CLOSED \<or> cn_state c2 = CLOSED" and "step_ok c1 (w', c2, es')"
  shows "step_ok c (w', c2, es @ es')"
  using assms balanced_trans by (auto simp: same_links_def)

subsection \<open>Every operation keeps them\<close>

definition similar :: "connection \<Rightarrow> connection \<Rightarrow> bool" where
  "similar c c' \<longleftrightarrow> same_links c c' \<and> cn_fd c' = cn_fd c \<and> cn_ssl c' = cn_ssl c \<and> cn_file_fd c' = cn_file_fd c"

lemma similar_owned: "similar c c' \<Longrightarrow> owned c' = owned c \<and> owned_ssl c' = owned_ssl c"
  by (simp add: similar_def owned_def owned_ssl_def)

lemma step_ok_similar: "step_ok c' x \<Longrightarrow> similar c c' \<Longrightarrow> step_ok c x"
  using similar_owned [of c c'] by (cases x) (simp add: similar_def same_links_def balanced_def)

lemma similar_simps [simp]:
  "similar c (c\<lparr>cn_last_active := t\<rparr>)" "similar c (c\<lparr>cn_read_buf := b\<rparr>)" "similar c (c\<lparr>cn_request := r\<rparr>)"
  "similar c (c\<lparr>cn_state := st\<rparr>)" "similar c (c\<lparr>cn_header_sent := n\<rparr>)" "similar c (c\<lparr>cn_body_sent := n\<rparr>)"
  "similar c (c\<lparr>cn_chunk_buf := b\<rparr>)" "similar c (c\<lparr>cn_chunk_sent := n\<rparr>)" "similar c (c\<lparr>cn_send_remaining := i\<rparr>)"
  by (simp_all add: similar_def same_links_def)

lemma closing_ok [inv_intros]: "conn_base c \<Longrightarrow> step_ok c (closing c)"
  by (cases "cn_state c = CLOSED")
    (auto simp: closing_def conn_close_def close_file_def conn_inv_defs owned_defs split: option.splits)

lemma body_done_ok [inv_intros]:
  "conn_base c \<Longrightarrow> cn_state c \<noteq> CLOSED \<Longrightarrow> step_ok c (body_done c)"
  by (auto simp: body_done_def close_file_def conn_inv_defs owned_defs)

lemma waiting_ok [inv_intros]:
  "conn_inv c' \<Longrightarrow> cn_state c' \<noteq> CLOSED \<Longrightarrow> owned c = owned c' \<Longrightarrow> same_links c c' \<Longrightarrow>
   cn_fd c' = cn_fd c \<Longrightarrow> cn_ssl c' = cn_ssl c \<Longrightarrow> step_ok c (waiting w c')"
  by (simp add: waiting_def owned_ssl_def balanced_def)

lemma error_response_ok [inv_intros]:
  assumes "conn_inv c" and "awaiting (cn_state c) \<or> cn_state c = PARSING"
  shows "step_ok c (error_response io st body c)"
proof -
  have c: "conn_base c" "unsent c" "cn_state c \<noteq> CLOSED" using assms by (auto simp: conn_inv_def)
  let ?c = "fst (snd (error_response io st body c))"
  have "conn_inv ?c"
    using c by (simp add: error_response_def prepare_headers_def conn_inv_def conn_base_def buffers_ok_def unsent_def no_file_def idle_def)
  then show ?thesis
    using c by (simp add: error_response_def prepare_headers_def owned_defs)
qed

lemma do_proto_detect_ok:
  assumes "conn_inv c" and "cn_state c = PROTO_DETECT"
  shows "step_ok c (do_proto_detect io tls c)"
proof -
  have "conn_base c" using assms(1) by (simp add: conn_inv_def)
  then have cl: "step_ok c (closing c)" by (rule closing_ok)
  have er: "step_ok c (error_response io BAD_REQUEST body c)" for body
    using assms by (intro error_response_ok) simp_all
  show ?thesis using assms cl er
    by (auto simp: do_proto_detect_def conn_inv_defs owned_defs waiting_def split: sys.split list.split
        simp del: step_ok.simps) (auto simp: conn_inv_defs owned_defs)
qed

lemma do_tls_accept_ok:
  assumes "conn_inv c" and "cn_state c = TLS_ACCEPT"
  shows "step_ok c (do_tls_accept io c)"
proof -
  have er: "step_ok c (error_response io INTERNAL_ERROR body c)" for body
    using assms by (intro error_response_ok) simp_all
  show ?thesis using assms er
    by (auto simp: do_tls_accept_def conn_inv_defs owned_defs waiting_def split: ssl.split
        simp del: step_ok.simps) (auto simp: conn_inv_defs owned_defs)
qed

definition readable :: "connection \<Rightarrow> bool" where
  "readable c \<longleftrightarrow> conn_base c \<and> unsent c \<and> idle c
     \<and> (cn_state c = READING \<or> cn_state c = KEEP_ALIVE)"

lemma readable_inv: "readable c \<Longrightarrow> conn_inv c"
  by (auto simp: readable_def conn_inv_def)

lemma received_ok:
  assumes "readable c" and "length bs \<le> 4096"
  shows "step_ok c (received bs c)"
proof -
  let ?c = "c\<lparr>cn_read_buf := cn_read_buf c @ bs\<rparr>"
  have "conn_base ?c" using assms by (auto simp: readable_def conn_inv_defs)
  then have "step_ok ?c (closing ?c)" by (rule closing_ok)
  then have cl: "step_ok c (closing ?c)" by (rule step_ok_similar) simp
  show ?thesis
    using assms cl unfolding received_def Let_def
    by (auto simp: readable_def conn_inv_defs owned_defs waiting_def)
qed

lemma do_read_ok:
  assumes "readable c" and "io_ok io"
  shows "step_ok c (do_read io c)"
proof -
  let ?c = "c\<lparr>cn_last_active := io_now io\<rparr>"
  have r: "readable ?c" using assms(1) by (auto simp: readable_def conn_inv_defs)
  have same: "step_ok ?c x \<Longrightarrow> step_ok c x" for x by (erule step_ok_similar) simp
  have cl: "step_ok c (closing ?c)"
    using r by (intro same closing_ok) (simp add: readable_def)
  let ?grown = "?c\<lparr>cn_read_buf := cn_read_buf ?c @ replicate 4096 NUL\<rparr>"
  have "conn_base ?grown" using r by (auto simp: readable_def conn_inv_defs)
  then have "step_ok ?c (closing ?grown)" by (intro step_ok_similar [OF closing_ok]) simp_all
  then have gr: "step_ok c (closing ?grown)" by (rule same)
  have rc: "length bs \<le> 4096 \<Longrightarrow> step_ok c (received bs ?c)" for bs
    using r by (intro same received_ok)
  have wt: "step_ok c (waiting w ?c)" for w
    using r readable_inv [OF r] by (intro same waiting_ok) (auto simp: readable_def owned_defs)
  show ?thesis
    using cl wt gr rc io_okD(1,3) [OF assms(2)]
    by (auto simp: do_read_def Let_def simp del: step_ok.simps split: option.split ssl.split sys.split)
qed

lemma do_parse_ok:
  assumes "conn_inv c" and "cn_state c = PARSING"
  shows "step_ok c (do_parse io c)"
proof -
  have same: "step_ok (c\<lparr>cn_request := r\<rparr>) x \<Longrightarrow> step_ok c x" for x r by (erule step_ok_similar) simp
  have inv: "conn_inv (c\<lparr>cn_request := r\<rparr>)" for r using assms by simp
  have "step_ok c (error_response io BAD_REQUEST body (c\<lparr>cn_request := r\<rparr>))" for body r
    using inv assms(2) by (intro same [where r = r] error_response_ok) auto
  moreover have "step_ok c (waiting Want_None (c\<lparr>cn_request := r\<rparr>))" for r
    using inv assms(2) by (intro same [where r = r] waiting_ok) (auto simp: owned_defs)
  ultimately show ?thesis by (auto simp: do_parse_def Let_def simp del: step_ok.simps split: prod.split)
qed

lemma socket_send_Sent:
  assumes "io_ok io" and "socket_send io c buf = Sent n es"
  shows "n \<le> length buf" and "closed_fds es = []" and "freed_ssl es = []" and "sent_bytes content es = take n buf"
    and "opened_fds es = []" and "created_ssl es = []"
  using assms io_okD(2,5) [OF assms(1)]
  by (auto simp: socket_send_def split: option.splits ssl.splits sys.splits)

lemma do_send_body_plain_ok:
  assumes "conn_base c" and "cn_state c = SENDING_BODY" and "cn_ssl c = None" and "io_ok io"
  shows "step_ok c (do_send_body_plain io c)"
proof (cases "cn_send_remaining c \<le> 0")
  case True
  then show ?thesis using assms body_done_ok [of c] by (simp add: do_send_body_plain_def)
next
  case False
  show ?thesis
  proof (cases "io_sendfile io (cn_file_fd c) (cn_fd c) (cn_send_offset c) (cn_send_remaining c)")
    case (Sf_Done n)
    have "conn_base (c\<lparr>cn_send_remaining := 0\<rparr>)" using assms by (auto simp: conn_inv_defs)
    then have "step_ok (c\<lparr>cn_send_remaining := 0\<rparr>) (body_done (c\<lparr>cn_send_remaining := 0\<rparr>))"
      using assms(2) by (intro body_done_ok) simp_all
    then have "step_ok c (body_done (c\<lparr>cn_send_remaining := 0\<rparr>))" by (rule step_ok_similar) simp
    with Sf_Done False show ?thesis by (auto simp: do_send_body_plain_def split: prod.split)
  next
    case (Sf_EAGAIN n)
    with False io_okD(8) [OF assms(4)] have "int n \<le> cn_send_remaining c" by (metis not_le)
    then show ?thesis using assms False Sf_EAGAIN
      by (auto simp: do_send_body_plain_def conn_inv_defs owned_defs)
  next
    case Sf_Error
    then show ?thesis using assms False closing_ok [of c] by (simp add: do_send_body_plain_def)
  qed
qed

lemma send_memory_body_ok:
  assumes "conn_base c" and "cn_state c = SENDING_BODY" and "io_ok io"
  shows "step_ok c (send_memory_body io c)"
proof (cases "length (rs_body (cn_response c)) - cn_body_sent c = 0")
  case True
  then show ?thesis using assms by (auto simp: send_memory_body_def waiting_def conn_inv_defs owned_defs)
next
  case False
  show ?thesis
  proof (cases "socket_send io c (drop (cn_body_sent c) (rs_body (cn_response c)))")
    case (Sent n es)
    from socket_send_Sent [OF assms(3) this] Sent False assms show ?thesis
      by (auto simp: send_memory_body_def conn_inv_defs owned_defs Let_def)
  next
    case (Retry w)
    then show ?thesis using assms False by (auto simp: send_memory_body_def waiting_def conn_inv_defs owned_defs)
  next
    case Send_Failed
    then show ?thesis using assms False closing_ok [of c] by (simp add: send_memory_body_def)
  qed
qed

lemma load_chunk_ok:
  assumes "conn_base c" and "cn_state c = SENDING_BODY" and "io_ok io" and "cn_ssl c \<noteq> None"
  shows "case load_chunk io c of
      Inl result \<Rightarrow> step_ok c result
    | Inr c' \<Rightarrow> conn_base c' \<and> cn_state c' = SENDING_BODY \<and> similar c c' \<and> cn_chunk_sent c' < cn_chunk_used c'
        \<and> int (cn_chunk_used c') \<le> cn_send_remaining c'"
proof -
  let ?n = "min CHUNK_SIZE (nat (cn_send_remaining c))"
  let ?c = "c\<lparr>cn_chunk_buf := resize ?n (cn_chunk_buf c)\<rparr>"
  show ?thesis
  proof (cases "cn_chunk_sent c < cn_chunk_used c \<or> cn_send_remaining c \<le> 0")
    case True
    then show ?thesis using assms body_done_ok [of c]
      by (auto simp: load_chunk_def conn_inv_defs similar_def owned_defs)
  next
    case False
    have base: "conn_base ?c" using assms(1) False by (auto simp: conn_inv_defs)
    then have cl: "step_ok c (closing ?c)" by (intro step_ok_similar [OF closing_ok]) auto
    have len: "length (resize ?n (cn_chunk_buf c)) = ?n" by (simp add: resize_def)
    have room: "length bs \<le> ?n \<and> int (length bs) \<le> cn_send_remaining c"
      if "io_pread io (cn_file_fd c) ?n (cn_send_offset c) = Sys_OK bs" for bs
      using io_okD(9) [OF assms(3) that] False by auto
    show ?thesis using False assms(1,2,4) cl len room
      by (auto simp: load_chunk_def Let_def conn_inv_defs similar_def same_links_def split: sys.split)
  qed
qed

lemma do_send_body_tls_ok:
  assumes "conn_base c" and "cn_state c = SENDING_BODY" and "cn_ssl c \<noteq> None" and "io_ok io"
  shows "step_ok c (do_send_body_tls io c)"
proof (cases "load_chunk io c")
  case (Inl result)
  then show ?thesis using load_chunk_ok [OF assms(1,2,4,3)] by (simp add: do_send_body_tls_def)
next
  case (Inr c')
  with load_chunk_ok [OF assms(1,2,4,3)] have c': "conn_base c'" "cn_state c' = SENDING_BODY" "similar c c'"
    "cn_chunk_sent c' < cn_chunk_used c'" "int (cn_chunk_used c') \<le> cn_send_remaining c'" by auto
  have ssl: "cn_ssl c' \<noteq> None" using c'(3) assms(3) by (simp add: similar_def)
  show ?thesis
  proof (rule step_ok_similar [OF _ c'(3)])
    let ?buf = "drop (cn_chunk_sent c') (take (cn_chunk_used c') (cn_chunk_buf c'))"
    show "step_ok c' (do_send_body_tls io c)"
    proof (cases "socket_send io c' ?buf")
      case (Sent n es)
      from socket_send_Sent [OF assms(4) this] Sent Inr c' ssl show ?thesis
        by (auto simp: do_send_body_tls_def conn_inv_defs owned_defs Let_def)
    next
      case (Retry w)
      then show ?thesis using c' Inr by (auto simp: do_send_body_tls_def waiting_def conn_inv_def owned_defs)
    next
      case Send_Failed
      then show ?thesis using c' Inr closing_ok [of c'] by (simp add: do_send_body_tls_def)
    qed
  qed
qed

lemma do_send_body_ok:
  assumes "conn_base c" and "cn_state c = SENDING_BODY" and "io_ok io"
  shows "step_ok c (do_send_body io c)"
  unfolding do_send_body_def
  using do_send_body_tls_ok [OF assms(1,2) _ assms(3)] do_send_body_plain_ok [OF assms(1,2) _ assms(3)]
    send_memory_body_ok [OF assms] by (simp del: step_ok.simps)

lemma do_send_headers_ok:
  assumes "conn_inv c" and "cn_state c \<noteq> CLOSED" and "io_ok io"
  shows "step_ok c (do_send_headers io c)"
proof (cases "socket_send io c (drop (cn_header_sent c) (cn_header_buf c))")
  case (Sent n es)
  note sent = socket_send_Sent [OF assms(3) Sent]
  let ?c = "c\<lparr>cn_header_sent := cn_header_sent c + n\<rparr>"
  have b0: "conn_base c" using assms(1) by (simp add: conn_inv_def)
  then have "cn_header_sent c + n \<le> length (cn_header_buf c)" using sent(1) by (auto simp: conn_base_def buffers_ok_def)
  with b0 have b1: "conn_base ?c" by (simp add: conn_base_def buffers_ok_def)
  then have b2: "conn_base (?c\<lparr>cn_state := SENDING_BODY\<rparr>)" "conn_inv (?c\<lparr>cn_state := KEEP_ALIVE\<rparr>)"
    using assms(2) by (simp_all add: conn_inv_def conn_base_def buffers_ok_def)
  have b3: "conn_inv ?c" using assms(1) b1 by (simp add: conn_inv_def unsent_def no_file_def idle_def)
  have body: "step_ok c (w, c', es @ es')"
    if "do_send_body io (?c\<lparr>cn_state := SENDING_BODY\<rparr>) = (w, c', es')" for w c' es'
  proof -
    have "step_ok (?c\<lparr>cn_state := SENDING_BODY\<rparr>) (w, c', es')"
      using do_send_body_ok [OF b2(1) _ assms(3)] that by (simp del: step_ok.simps)
    then have "step_ok c (w, c', es')" by (rule step_ok_similar) (simp add: similar_def same_links_def)
    with sent(2,3,5,6) show ?thesis by (simp add: balanced_def)
  qed
  have "step_ok c (Want_Read, ?c\<lparr>cn_state := KEEP_ALIVE\<rparr>, es)"
    using sent(2,3,5,6) b2(2) by (simp add: owned_defs)
  moreover have "step_ok c (Want_Write, ?c, es)"
    using sent(2,3,5,6) b3 assms(2) by (simp add: owned_defs)
  ultimately show ?thesis using Sent body
    by (auto simp: do_send_headers_def Let_def simp del: step_ok.simps split: prod.split)
next
  case (Retry w)
  then show ?thesis using assms by (simp add: do_send_headers_def waiting_ok owned_defs)
next
  case Send_Failed
  then show ?thesis using assms closing_ok [of c] by (simp add: do_send_headers_def conn_inv_def)
qed

lemma conn_reset_ok:
  assumes "conn_inv c" and "cn_state c = KEEP_ALIVE" and "conn_reset c = (c', es)"
  shows "readable c'" and "step_ok c (w, c', es)" and "cn_read_buf c' = []"
proof -
  have base: "conn_base c" "-1 \<le> cn_file_fd c" "0 \<le> cn_fd c" using assms(1,2) by (simp_all add: conn_inv_def conn_base_def)
  then have f: "cn_file_fd c' = -1 \<and> cn_send_remaining c' = 0 \<and> cn_state c' = KEEP_ALIVE \<and> cn_fd c' = cn_fd c
    \<and> cn_ssl c' = cn_ssl c \<and> cn_read_buf c' = [] \<and> rq_method (cn_request c') = UNKNOWN \<and> unsent c' \<and> cn_header_sent c' = 0 \<and> same_links c c'
    \<and> es = (if 0 \<le> cn_file_fd c then [E_Close (cn_file_fd c)] else [])"
    using assms(2,3) by (auto simp: conn_reset_def close_file_def unsent_def same_links_def split: if_splits)
  then show r: "readable c'" using base(3) by (simp add: readable_def conn_base_def buffers_ok_def unsent_def no_file_def idle_def)
  show "cn_read_buf c' = []" using f by simp
  have "balanced c es c'" using f by (simp add: balanced_def owned_def owned_ssl_def)
  then show "step_ok c (w, c', es)" using readable_inv [OF r] f by simp
qed

lemma do_read_no_file:
  "no_file c \<Longrightarrow> do_read io c = (w, c', es) \<Longrightarrow> cn_state c' \<noteq> CLOSED \<Longrightarrow> no_file c'"
  by (auto simp: do_read_def received_def waiting_def closing_def conn_close_def close_file_def no_file_def idle_def Let_def
      split: option.splits ssl.splits sys.splits if_splits)

end
