(* ===== verification/Connection_Delivery.thy ===== *)
theory Connection_Delivery
  imports Connection_Safety "HOL-Library.Sublist"
begin

text \<open>
  What a connection sends.  The bytes of a response still to go are a function of the state;
  each of \<open>do_send_headers\<close> and \<open>do_send_body\<close> sends a part of them and leaves the rest, over
  plain \<open>write\<close> and \<open>sendfile\<close> as over TLS with its chunk buffer.
\<close>

subsection \<open>The bytes still to go\<close>

definition pending_body :: "(int \<Rightarrow> string) \<Rightarrow> connection \<Rightarrow> string" where
  "pending_body content c =
     (let file = content (cn_file_fd c);
          k = (if cn_chunk_sent c < cn_chunk_used c then cn_chunk_used c else 0) in
      if cn_file_fd c < 0 \<and> has_body (cn_response c) then drop (cn_body_sent c) (rs_body (cn_response c))
      else drop (cn_chunk_sent c) (take k (cn_chunk_buf c))
        @ take (nat (cn_send_remaining c) - k) (drop (nat (cn_send_offset c) + k) file))"

definition pending_response :: "(int \<Rightarrow> string) \<Rightarrow> connection \<Rightarrow> string" where
  "pending_response content c = drop (cn_header_sent c) (cn_header_buf c) @
     (if cn_is_head c \<or> (\<not> has_body (cn_response c) \<and> cn_file_fd c < 0) then []
      else pending_body content c)"

definition pending :: "(int \<Rightarrow> string) \<Rightarrow> connection \<Rightarrow> string" where
  "pending content c =
     (case cn_state c of
        SENDING_HEADERS \<Rightarrow> pending_response content c
      | SENDING_BODY \<Rightarrow> pending_body content c
      | _ \<Rightarrow> [])"

text \<open>The part of the file to send lies inside the file.\<close>

definition covers :: "(int \<Rightarrow> string) \<Rightarrow> connection \<Rightarrow> bool" where
  "covers content c \<longleftrightarrow>
     (0 \<le> cn_file_fd c \<longrightarrow> 0 \<le> cn_send_offset c
        \<and> nat (cn_send_offset c) + nat (cn_send_remaining c) \<le> length (content (cn_file_fd c)))
     \<and> (cn_file_fd c < 0 \<longrightarrow> cn_send_remaining c = 0)"

fun delivers :: "(int \<Rightarrow> string) \<Rightarrow> connection \<Rightarrow> conn_step \<Rightarrow> bool" where
  "delivers content c (w, c', es) \<longleftrightarrow>
     (if cn_state c' = CLOSED then prefix (sent_bytes content es) (pending content c)
      else sent_bytes content es @ pending content c' = pending content c
        \<and> (cn_state c' \<noteq> KEEP_ALIVE \<longrightarrow> covers content c'))"

lemma take_split_at:
  "length bs \<le> r \<Longrightarrow> bs = take (length bs) (drop off xs) \<Longrightarrow>
   bs @ take (r - length bs) (drop (off + length bs) xs) = take r (drop off xs)"
  by (metis add.commute drop_drop le_add_diff_inverse take_add)

lemma closing_delivers: "cn_state c \<noteq> CLOSED \<Longrightarrow> delivers content c (closing c)"
  by (auto simp: closing_def conn_close_def close_file_def split: option.splits)

lemma closing_state: "cn_state (fst (snd (closing c))) = CLOSED"
  by (simp add: closing_def conn_close_def close_file_def)

lemma closing_sends [simp]: "closing c = (w, c', es) \<Longrightarrow> sent_bytes content es = [] \<and> cn_state c' = CLOSED"
  by (auto simp: closing_def conn_close_def close_file_def split: option.splits if_splits)

lemma body_done_delivers:
  assumes "cn_state c = SENDING_BODY" and "pending_body content c = []"
  shows "delivers content c (body_done c)"
  using assms by (simp add: body_done_def close_file_def pending_def)

lemma send_memory_body_delivers:
  assumes "conn_base c" and "cn_state c = SENDING_BODY" and "io_ok io" and "covers content c"
    and "cn_file_fd c < 0" and "has_body (cn_response c)"
  shows "delivers content c (send_memory_body io c)"
proof (cases "length (rs_body (cn_response c)) - cn_body_sent c = 0")
  case True
  then show ?thesis using assms
    by (simp add: send_memory_body_def waiting_def pending_def pending_body_def)
next
  case False
  show ?thesis
  proof (cases "socket_send io c (drop (cn_body_sent c) (rs_body (cn_response c)))")
    case (Sent n es)
    from socket_send_Sent [OF assms(3) this] Sent False assms show ?thesis
      by (auto simp: send_memory_body_def pending_def pending_body_def covers_def Let_def add.commute
          simp flip: drop_drop)
  next
    case (Retry w)
    then show ?thesis using assms False by (simp add: send_memory_body_def waiting_def)
  next
    case Send_Failed
    then show ?thesis using assms False closing_delivers [of c content] by (simp add: send_memory_body_def)
  qed
qed

lemma do_send_body_plain_delivers:
  assumes "conn_base c" and "cn_state c = SENDING_BODY" and "cn_ssl c = None" and "io_ok io"
    and "files_ok content io" and "covers content c" and "0 \<le> cn_file_fd c \<or> \<not> has_body (cn_response c)"
  shows "delivers content c (do_send_body_plain io c)"
proof -
  have empty: "cn_chunk_used c \<le> cn_chunk_sent c" using assms(1-3) by (simp add: conn_base_def)
  let ?f = "drop (nat (cn_send_offset c)) (content (cn_file_fd c))"
  have pend: "pending content c = take (nat (cn_send_remaining c)) ?f"
    using assms(2,7) empty by (auto simp: pending_def pending_body_def)
  show ?thesis
  proof (cases "cn_send_remaining c \<le> 0")
    case True
    then show ?thesis using assms(2) pend body_done_delivers [of c content]
      by (simp add: do_send_body_plain_def pending_def)
  next
    case False
    show ?thesis
    proof (cases "io_sendfile io (cn_file_fd c) (cn_fd c) (cn_send_offset c) (cn_send_remaining c)")
      case (Sf_Done n)
      have pos: "0 < cn_send_remaining c" using False by simp
      have "int n \<le> cn_send_remaining c" using io_okD(7) [OF assms(4) pos Sf_Done] .
      moreover have "int n = cn_send_remaining c \<or> length (content (cn_file_fd c)) \<le> nat (cn_send_offset c) + n"
        using files_okD(2) [OF assms(5) pos Sf_Done] .
      ultimately have "cn_send_remaining c = int n"
        using assms(6) pos unfolding covers_def by (cases "cn_file_fd c < 0") (auto simp: nat_le_iff)
      then have "take n ?f = take (nat (cn_send_remaining c)) ?f" by simp
      with Sf_Done False pend show ?thesis
        by (auto simp: do_send_body_plain_def body_done_def close_file_def pending_def split: if_splits)
    next
      case (Sf_EAGAIN n)
      have pos: "0 < cn_send_remaining c" using False by simp
      have n: "int n \<le> cn_send_remaining c" using io_okD(8) [OF assms(4) pos Sf_EAGAIN] .
      have "cn_file_fd c < 0 \<Longrightarrow> False" using assms(6) False by (simp add: covers_def)
      then have f: "0 \<le> cn_file_fd c" by (meson not_le)
      have *: "take n ?f @ take (nat (cn_send_remaining c - int n)) (drop n ?f) = take (nat (cn_send_remaining c)) ?f"
        using n take_add [of n "nat (cn_send_remaining c) - n" ?f]
        by (simp add: nat_diff_distrib le_nat_iff)
      show ?thesis using * assms(2,6) f empty False Sf_EAGAIN pend n
        by (auto simp: do_send_body_plain_def pending_def pending_body_def covers_def nat_add_distrib add.commute nat_diff_distrib)
    next
      case Sf_Error
      then show ?thesis using assms False closing_delivers [of c content] by (simp add: do_send_body_plain_def)
    qed
  qed
qed

lemma load_chunk_delivers:
  assumes "conn_base c" and "cn_state c = SENDING_BODY" and "io_ok io" and "files_ok content io"
    and "covers content c" and "0 \<le> cn_file_fd c \<or> \<not> has_body (cn_response c)"
  shows "case load_chunk io c of
      Inl result \<Rightarrow> delivers content c result
    | Inr c' \<Rightarrow> pending content c' = pending content c \<and> covers content c'
        \<and> cn_file_fd c' = cn_file_fd c \<and> cn_response c' = cn_response c"
proof (cases "cn_chunk_sent c < cn_chunk_used c")
  case True
  then show ?thesis using assms by (simp add: load_chunk_def)
next
  case exhausted: False
  let ?f = "drop (nat (cn_send_offset c)) (content (cn_file_fd c))"
  have pend: "pending content c = take (nat (cn_send_remaining c)) ?f"
    using assms(2,6) exhausted by (auto simp: pending_def pending_body_def)
  show ?thesis
  proof (cases "cn_send_remaining c \<le> 0")
    case True
    then show ?thesis using assms(2) pend exhausted body_done_delivers [of c content]
      by (simp add: load_chunk_def pending_def)
  next
    case False
    let ?n = "min CHUNK_SIZE (nat (cn_send_remaining c))"
    let ?c = "c\<lparr>cn_chunk_buf := resize ?n (cn_chunk_buf c)\<rparr>"
    have "delivers content c (closing ?c)" using closing_delivers [of ?c content] assms(2)
      by (cases "closing ?c") auto
    moreover have "pending content (?c\<lparr>cn_chunk_buf := bs @ drop (length bs) (cn_chunk_buf ?c),
          cn_chunk_used := length bs, cn_chunk_sent := 0\<rparr>) = pending content c"
      if "io_pread io (cn_file_fd c) ?n (cn_send_offset c) = Sys_OK bs" "bs \<noteq> []" for bs
    proof -
      have "length bs \<le> nat (cn_send_remaining c)" using io_okD(9) [OF assms(3) that(1)] by simp
      from take_split_at [OF this files_okD(1) [OF assms(4) that(1)]] that(2) assms(2,6) show ?thesis
        unfolding pend by (auto simp: pending_def pending_body_def)
    qed
    ultimately show ?thesis using False exhausted assms(5)
      by (auto simp: load_chunk_def Let_def covers_def split: sys.split)
  qed
qed

lemma do_send_body_tls_delivers:
  assumes "conn_base c" and "cn_state c = SENDING_BODY" and "cn_ssl c \<noteq> None" and "io_ok io"
    and "files_ok content io" and "covers content c" and "0 \<le> cn_file_fd c \<or> \<not> has_body (cn_response c)"
  shows "delivers content c (do_send_body_tls io c)"
proof (cases "load_chunk io c")
  case (Inl result)
  then show ?thesis using load_chunk_delivers [OF assms(1,2,4-7)] by (simp add: do_send_body_tls_def)
next
  case (Inr c')
  from load_chunk_delivers [OF assms(1,2,4-7)] Inr have d: "pending content c' = pending content c"
    "covers content c'" "cn_file_fd c' = cn_file_fd c" "cn_response c' = cn_response c" by simp_all
  from load_chunk_ok [OF assms(1,2,4,3)] Inr have c': "conn_base c'" "cn_state c' = SENDING_BODY"
    "cn_chunk_sent c' < cn_chunk_used c'" "int (cn_chunk_used c') \<le> cn_send_remaining c'" by simp_all
  let ?buf = "drop (cn_chunk_sent c') (take (cn_chunk_used c') (cn_chunk_buf c'))"
  let ?rest = "take (nat (cn_send_remaining c') - cn_chunk_used c')
    (drop (nat (cn_send_offset c') + cn_chunk_used c') (content (cn_file_fd c')))"
  have pend: "pending content c' = ?buf @ ?rest"
    using c'(2,3) d(3,4) assms(7) by (auto simp: pending_def pending_body_def Let_def)
  show ?thesis
  proof (cases "socket_send io c' ?buf")
    case (Sent n es)
    note sent = socket_send_Sent [OF assms(4) Sent]
    let ?c = "c'\<lparr>cn_chunk_sent := cn_chunk_sent c' + n\<rparr>"
    show ?thesis
    proof (cases "cn_chunk_used c' \<le> cn_chunk_sent c' + n")
      case True
      with sent(1) have "take n ?buf = ?buf" by simp
      moreover have "0 \<le> cn_file_fd c'" using c'(3,4) d(2) by (cases "cn_file_fd c' < 0") (auto simp: covers_def)
      moreover from this have "nat (cn_send_remaining c' - int (cn_chunk_used c')) = nat (cn_send_remaining c') - cn_chunk_used c'"
        "nat (cn_send_offset c' + int (cn_chunk_used c')) = nat (cn_send_offset c') + cn_chunk_used c'"
        using d(2) by (auto simp: covers_def nat_add_distrib nat_diff_distrib)
      ultimately show ?thesis using True Inr Sent sent(4) c'(2,4) d assms(7) pend
        by (auto simp: do_send_body_tls_def Let_def pending_def pending_body_def covers_def)
    next
      case False
      then have "drop n ?buf = drop (cn_chunk_sent c' + n) (take (cn_chunk_used c') (cn_chunk_buf c'))"
        by (simp add: add.commute)
      then have "?buf = take n ?buf @ drop (cn_chunk_sent c' + n) (take (cn_chunk_used c') (cn_chunk_buf c'))"
        using append_take_drop_id [of n ?buf] by simp
      then show ?thesis using False Inr Sent sent(4) c'(2) d assms(7) pend
        by (auto simp: do_send_body_tls_def Let_def pending_def pending_body_def covers_def)
    qed
  next
    case (Retry w)
    then show ?thesis using Inr d c'(2) assms(2) by (simp add: do_send_body_tls_def waiting_def)
  next
    case Send_Failed
    then show ?thesis using Inr c'(2) closing_delivers [of c' content] d(1)
      by (cases "closing c'") (auto simp: do_send_body_tls_def)
  qed
qed

lemma do_send_body_delivers:
  assumes "conn_base c" and "cn_state c = SENDING_BODY" and "io_ok io" and "files_ok content io" and "covers content c"
  shows "delivers content c (do_send_body io c)"
proof (cases "cn_file_fd c < 0 \<and> has_body (cn_response c)")
  case True
  then show ?thesis using assms send_memory_body_delivers by (simp add: do_send_body_def del: delivers.simps)
next
  case False
  then have "0 \<le> cn_file_fd c \<or> \<not> has_body (cn_response c)" by auto
  with False show ?thesis
    using do_send_body_tls_delivers [OF assms(1,2) _ assms(3-5)] do_send_body_plain_delivers [OF assms(1,2) _ assms(3-5)]
    by (auto simp: do_send_body_def simp del: delivers.simps)
qed

lemma do_send_body_state:
  "cn_state c = SENDING_BODY \<Longrightarrow> do_send_body io c = (w, c', es) \<Longrightarrow>
   cn_state c' = SENDING_BODY \<or> cn_state c' = KEEP_ALIVE \<or> cn_state c' = CLOSED"
  by (auto simp: do_send_body_def send_memory_body_def do_send_body_tls_def do_send_body_plain_def load_chunk_def
      body_done_def close_file_def waiting_def Let_def
      split: if_splits send_result.splits sendfile_result.splits sys.splits sum.splits prod.splits)

lemma pending_body_update [simp]:
  "pending_body content (c\<lparr>cn_header_sent := n\<rparr>) = pending_body content c"
  "pending_body content (c\<lparr>cn_state := st\<rparr>) = pending_body content c"
  "covers content (c\<lparr>cn_header_sent := n\<rparr>) = covers content c"
  "covers content (c\<lparr>cn_state := st\<rparr>) = covers content c"
  by (simp_all add: pending_body_def covers_def Let_def)

text \<open>
  One attempt at the headers, from whatever state: they are out and the body is under way, or
  the connection is closed, or the state is as before and the rest of the headers still to go.
\<close>

lemma do_send_headers_delivers:
  assumes "conn_base c" and "cn_state c \<noteq> CLOSED" and "io_ok io" and "files_ok content io" and "covers content c"
    and "do_send_headers io c = (w, c', es)"
  shows "if cn_state c' = CLOSED then prefix (sent_bytes content es) (pending_response content c)
    else (cn_state c' \<noteq> KEEP_ALIVE \<longrightarrow> covers content c') \<and>
      (sent_bytes content es @ pending content c' = pending_response content c
         \<and> (cn_state c' = SENDING_BODY \<or> cn_state c' = KEEP_ALIVE)
       \<or> sent_bytes content es @ pending_response content c' = pending_response content c
         \<and> cn_state c' = cn_state c \<and> (cn_header_sent c < length (cn_header_buf c) \<longrightarrow> cn_header_sent c' < length (cn_header_buf c')))"
proof (cases "socket_send io c (drop (cn_header_sent c) (cn_header_buf c))")
  case (Sent n es0)
  note sent = socket_send_Sent [OF assms(3) Sent]
  let ?c = "c\<lparr>cn_header_sent := cn_header_sent c + n\<rparr>"
  have le: "cn_header_sent c + n \<le> length (cn_header_buf c)"
    using sent(1) assms(1) by (auto simp: conn_base_def buffers_ok_def)
  have hdr: "sent_bytes content es0 @ drop (cn_header_sent c + n) (cn_header_buf c)
      = drop (cn_header_sent c) (cn_header_buf c)"
    using sent(4) append_take_drop_id [of n "drop (cn_header_sent c) (cn_header_buf c)"]
    by (simp add: add.commute)
  show ?thesis
  proof (cases "length (cn_header_buf c) \<le> cn_header_sent c + n")
    case False
    then show ?thesis using assms(2,5,6) Sent hdr
      by (auto simp: do_send_headers_def Let_def pending_response_def)
  next
    case True
    show ?thesis
    proof (cases "cn_is_head c \<or> (\<not> has_body (cn_response c) \<and> cn_file_fd c < 0)")
      case nobody: True
      with True show ?thesis using assms(5,6) Sent hdr
        by (auto simp: do_send_headers_def Let_def pending_response_def pending_def)
    next
      case body: False
      obtain w' es' where b: "do_send_body io (?c\<lparr>cn_state := SENDING_BODY\<rparr>) = (w', c', es')" "es = es0 @ es'"
        using body True assms(6) Sent by (auto simp: do_send_headers_def Let_def split: prod.splits if_splits)
      have base: "conn_base (?c\<lparr>cn_state := SENDING_BODY\<rparr>)"
        using assms(1,2) le by (simp add: conn_base_def buffers_ok_def)
      have "delivers content (?c\<lparr>cn_state := SENDING_BODY\<rparr>) (w', c', es')"
        using do_send_body_delivers [OF base _ assms(3,4)] assms(5) b by (simp del: delivers.simps)
      moreover have "pending_response content c = sent_bytes content es0 @ pending_body content c"
        using body hdr True by (auto simp: pending_response_def)
      ultimately show ?thesis
        using b do_send_body_state [OF _ b(1)] by (auto simp: pending_def)
    qed
  qed
next
  case (Retry w)
  then show ?thesis using assms by (auto simp: do_send_headers_def waiting_def)
next
  case Send_Failed
  then show ?thesis using assms by (auto simp: do_send_headers_def)
qed

subsection \<open>A response sent over many events\<close>

text \<open>The cases of the event loop's switch for a response under way, one event after the other.\<close>

definition send_step :: "io \<Rightarrow> connection \<Rightarrow> conn_step" where
  "send_step io c =
     (case cn_state c of
        SENDING_HEADERS \<Rightarrow> do_send_headers io c
      | SENDING_BODY \<Rightarrow> do_send_body io c
      | _ \<Rightarrow> waiting Want_None c)"

fun send_run :: "io list \<Rightarrow> connection \<Rightarrow> connection \<times> effect list" where
  "send_run [] c = (c, [])"
| "send_run (io # ios) c =
     (case send_step io c of (_, c1, es1) \<Rightarrow>
      case send_run ios c1 of (c2, es2) \<Rightarrow> (c2, es1 @ es2))"

definition sending :: "(int \<Rightarrow> string) \<Rightarrow> connection \<Rightarrow> bool" where
  "sending content c \<longleftrightarrow> conn_inv c \<and> covers content c \<and>
     (cn_state c = SENDING_HEADERS \<and> cn_header_sent c < length (cn_header_buf c) \<or> cn_state c = SENDING_BODY)"

lemma send_step_delivers:
  assumes "sending content c" and "io_ok io" and "files_ok content io" and "send_step io c = (w, c', es)"
  shows "if cn_state c' = CLOSED then prefix (sent_bytes content es) (pending content c)
    else sent_bytes content es @ pending content c' = pending content c \<and> (cn_state c' = KEEP_ALIVE \<or> sending content c')"
proof (cases "cn_state c = SENDING_HEADERS")
  case True
  have base: "conn_base c" and inv: "conn_inv c" and cov: "covers content c"
    and hs: "cn_header_sent c < length (cn_header_buf c)"
    using assms(1) True by (auto simp: sending_def conn_inv_def)
  have step: "do_send_headers io c = (w, c', es)" using assms(4) True by (simp add: send_step_def)
  have "step_ok c (w, c', es)" using do_send_headers_ok [OF inv _ assms(2)] step True by (simp del: step_ok.simps)
  then have "conn_inv c'" by simp
  with do_send_headers_delivers [OF base _ assms(2,3) cov step] True hs show ?thesis
    by (auto simp: sending_def pending_def split: if_splits)
next
  case False
  have base: "conn_base c" and inv: "conn_inv c" and cov: "covers content c" and st: "cn_state c = SENDING_BODY"
    using assms(1) False by (auto simp: sending_def conn_inv_def)
  have step: "do_send_body io c = (w, c', es)" using assms(4) st by (simp add: send_step_def)
  have "step_ok c (w, c', es)" using do_send_body_ok [OF base st assms(2)] step by (simp del: step_ok.simps)
  moreover have "delivers content c (w, c', es)"
    using do_send_body_delivers [OF base st assms(2,3) cov] step by (simp del: delivers.simps)
  ultimately show ?thesis using do_send_body_state [OF st step] by (auto simp: sending_def)
qed

lemma send_step_done:
  "cn_state c = KEEP_ALIVE \<or> cn_state c = CLOSED \<Longrightarrow> send_step io c = (Want_None, c, [])"
  by (auto simp: send_step_def waiting_def)

lemma send_run_done: "cn_state c = KEEP_ALIVE \<or> cn_state c = CLOSED \<Longrightarrow> send_run ios c = (c, [])"
  by (induction ios) (simp_all add: send_step_done)


text \<open>A system in which every call that is asked for work does some, short of the end of a file.\<close>

definition makes_progress :: "(int \<Rightarrow> string) \<Rightarrow> io \<Rightarrow> bool" where
  "makes_progress content io \<longleftrightarrow>
     (\<forall>fd bs. bs \<noteq> [] \<longrightarrow> (\<exists>n > 0. io_write io fd bs = Sys_OK n))
     \<and> (\<forall>s bs. bs \<noteq> [] \<longrightarrow> (\<exists>n > 0. io_ssl_write io s bs = Ssl_OK n))
     \<and> (\<forall>file fd off cnt. 0 < cnt \<longrightarrow> (\<exists>n. io_sendfile io file fd off cnt = Sf_Done n)
          \<or> (\<exists>n > 0. io_sendfile io file fd off cnt = Sf_EAGAIN n))
     \<and> (\<forall>file k off. 0 < k \<and> nat off < length (content file) \<longrightarrow> (\<exists>bs. io_pread io file k off = Sys_OK bs \<and> bs \<noteq> []))"

lemma makes_progressD:
  assumes "makes_progress content io"
  shows "bs \<noteq> [] \<Longrightarrow> \<exists>n > 0. io_write io fd bs = Sys_OK n"
    and "bs \<noteq> [] \<Longrightarrow> \<exists>n > 0. io_ssl_write io s bs = Ssl_OK n"
    and "0 < cnt \<Longrightarrow> (\<exists>n. io_sendfile io file fd off cnt = Sf_Done n) \<or> (\<exists>n > 0. io_sendfile io file fd off cnt = Sf_EAGAIN n)"
    and "0 < k \<Longrightarrow> nat off < length (content file) \<Longrightarrow> \<exists>bs. io_pread io file k off = Sys_OK bs \<and> bs \<noteq> []"
  using assms by (simp_all add: makes_progress_def)

lemma socket_send_progress:
  assumes "makes_progress content io" and "buf \<noteq> []"
  shows "\<exists>n es. socket_send io c buf = Sent n es \<and> 0 < n"
proof (cases "cn_ssl c")
  case None
  from makes_progressD(1) [OF assms] obtain n where "0 < n" "io_write io (cn_fd c) buf = Sys_OK n" by blast
  with None show ?thesis by (simp add: socket_send_def)
next
  case (Some s)
  from makes_progressD(2) [OF assms] obtain n where "0 < n" "io_ssl_write io s buf = Ssl_OK n" by blast
  with Some show ?thesis by (simp add: socket_send_def)
qed

abbreviation advances :: "(int \<Rightarrow> string) \<Rightarrow> conn_step \<Rightarrow> bool" where
  "advances content r \<equiv> cn_state (fst (snd r)) = KEEP_ALIVE
     \<or> cn_state (fst (snd r)) \<noteq> CLOSED \<and> sent_bytes content (snd (snd r)) \<noteq> []"

lemma body_done_state [simp]: "cn_state (fst (snd (body_done c))) = KEEP_ALIVE"
  by (simp add: body_done_def close_file_def)

lemma send_memory_body_advances:
  assumes "makes_progress content io" and "io_ok io" and "cn_state c = SENDING_BODY"
  shows "advances content (send_memory_body io c)"
proof (cases "length (rs_body (cn_response c)) - cn_body_sent c = 0")
  case False
  then have "drop (cn_body_sent c) (rs_body (cn_response c)) \<noteq> []" by simp
  from socket_send_progress [OF assms(1) this] obtain n es where
    s: "socket_send io c (drop (cn_body_sent c) (rs_body (cn_response c))) = Sent n es" "0 < n" by blast
  from s False assms(3) socket_send_Sent(4) [OF assms(2) s(1)] show ?thesis
    by (auto simp: send_memory_body_def Let_def)
qed (simp add: send_memory_body_def waiting_def)

lemma do_send_body_plain_advances:
  assumes "makes_progress content io" and "covers content c" and "cn_state c = SENDING_BODY"
  shows "advances content (do_send_body_plain io c)"
proof (cases "cn_send_remaining c \<le> 0")
  case False
  then have pos: "0 < cn_send_remaining c" by simp
  have inside: "nat (cn_send_offset c) < length (content (cn_file_fd c))"
    using assms(2) pos by (cases "cn_file_fd c < 0") (auto simp: covers_def)
  from makes_progressD(3) [OF assms(1) pos] consider
    (finished) n where "io_sendfile io (cn_file_fd c) (cn_fd c) (cn_send_offset c) (cn_send_remaining c) = Sf_Done n"
    | (again) n where "0 < n" "io_sendfile io (cn_file_fd c) (cn_fd c) (cn_send_offset c) (cn_send_remaining c) = Sf_EAGAIN n"
    by blast
  then show ?thesis
  proof cases
    case (finished n)
    then show ?thesis using False by (auto simp: do_send_body_plain_def body_done_def close_file_def)
  next
    case (again n)
    then show ?thesis using False inside assms(3) by (auto simp: do_send_body_plain_def)
  qed
qed (simp add: do_send_body_plain_def)

lemma do_send_body_tls_advances:
  assumes "makes_progress content io" and "covers content c" and "conn_base c" and "cn_state c = SENDING_BODY"
    and "cn_ssl c \<noteq> None" and "io_ok io"
  shows "advances content (do_send_body_tls io c)"
proof (cases "load_chunk io c")
  case (Inl r)
  have "r = body_done c"
  proof (rule ccontr)
    assume ne: "r \<noteq> body_done c"
    then have pos: "\<not> cn_chunk_sent c < cn_chunk_used c" "0 < cn_send_remaining c"
      using Inl by (auto simp: load_chunk_def split: if_splits)
    have "nat (cn_send_offset c) < length (content (cn_file_fd c))"
      using assms(2) pos by (cases "cn_file_fd c < 0") (auto simp: covers_def)
    moreover have "0 < min CHUNK_SIZE (nat (cn_send_remaining c))" using pos by (simp add: CHUNK_SIZE_def)
    ultimately obtain bs where "io_pread io (cn_file_fd c) (min CHUNK_SIZE (nat (cn_send_remaining c)))
        (cn_send_offset c) = Sys_OK bs" "bs \<noteq> []"
      using makes_progressD(4) [OF assms(1)] by blast
    with Inl pos show False by (simp add: load_chunk_def Let_def)
  qed
  then show ?thesis using Inl by (simp add: do_send_body_tls_def)
next
  case (Inr c')
  from load_chunk_ok [OF assms(3,4,6,5)] Inr have c': "conn_base c'" "cn_state c' = SENDING_BODY"
    "cn_chunk_sent c' < cn_chunk_used c'" by simp_all
  then have "drop (cn_chunk_sent c') (take (cn_chunk_used c') (cn_chunk_buf c')) \<noteq> []"
    by (auto simp: conn_base_def buffers_ok_def)
  from socket_send_progress [OF assms(1) this] obtain n es where
    s: "socket_send io c' (drop (cn_chunk_sent c') (take (cn_chunk_used c') (cn_chunk_buf c'))) = Sent n es" "0 < n"
    by blast
  have "take n (drop (cn_chunk_sent c') (take (cn_chunk_used c') (cn_chunk_buf c'))) \<noteq> []"
    using s(2) \<open>drop _ _ \<noteq> []\<close> by (metis gr_implies_not0 take_eq_Nil)
  with s(1) Inr c'(2) socket_send_Sent(4) [OF assms(6) s(1)] show ?thesis
    by (auto simp: do_send_body_tls_def Let_def)
qed

lemma do_send_body_advances:
  assumes "makes_progress content io" and "covers content c" and "conn_base c" and "cn_state c = SENDING_BODY" and "io_ok io"
  shows "advances content (do_send_body io c)"
  using assms send_memory_body_advances [OF assms(1,5,4)] do_send_body_plain_advances [OF assms(1,2,4)]
    do_send_body_tls_advances [OF assms(1-4) _ assms(5)]
  by (simp add: do_send_body_def del: disj_not1)

lemma send_step_advances:
  assumes "sending content c" and "io_ok io" and "files_ok content io" and "makes_progress content io"
  shows "advances content (send_step io c)"
proof (cases "cn_state c = SENDING_BODY")
  case True
  then show ?thesis using assms do_send_body_advances [OF assms(4)]
    by (simp add: send_step_def sending_def conn_inv_def)
next
  case False
  then have st: "cn_state c = SENDING_HEADERS" and hs: "cn_header_sent c < length (cn_header_buf c)"
    and base: "conn_base c" and cov: "covers content c"
    using assms(1) by (auto simp: sending_def conn_inv_def)
  then have ne: "drop (cn_header_sent c) (cn_header_buf c) \<noteq> []" by simp
  obtain n es where s: "socket_send io c (drop (cn_header_sent c) (cn_header_buf c)) = Sent n es" "0 < n"
    using socket_send_progress [OF assms(4) ne] by blast
  note sent = socket_send_Sent [OF assms(2) s(1)]
  have bytes: "sent_bytes content es \<noteq> []" using sent(4) s(2) ne by (metis gr_implies_not0 take_eq_Nil)
  let ?c = "c\<lparr>cn_header_sent := cn_header_sent c + n, cn_state := SENDING_BODY\<rparr>"
  have "conn_base ?c" using base sent(1) hs st by (auto simp: conn_base_def buffers_ok_def)
  then have "advances content (do_send_body io ?c)"
    using cov by (intro do_send_body_advances [OF assms(4) _ _ _ assms(2)]) (simp_all add: covers_def)
  then show ?thesis using s(1) st bytes
    by (cases "do_send_body io ?c") (auto simp: send_step_def do_send_headers_def Let_def)
qed

text \<open>A small response for the examples: headers \<open>HI\<close> and the body \<open>B\<close>, nothing sent yet.\<close>

definition example_conn :: connection where
  "example_conn = conn_default\<lparr>cn_fd := 5, cn_state := SENDING_HEADERS, cn_header_buf := ''HI'',
     cn_response := set_body ''B'' response_init\<rparr>"

definition io_one :: io where
  "io_one = io_idle\<lparr>io_write := \<lambda>_ bs. Sys_OK (min 1 (length bs)), io_ssl_write := \<lambda>_ bs. if bs = [] then Ssl_Error else Ssl_OK 1,
     io_sendfile := \<lambda>_ _ _ n. if 1 < n then Sf_EAGAIN 1 else Sf_Done (nat n)\<rparr>"

lemma io_one_ok: "io_ok io_one" "files_ok (\<lambda>_. []) io_one" "makes_progress (\<lambda>_. []) io_one"
  by (auto simp: io_one_def io_idle_def io_ok_def files_ok_def makes_progress_def Suc_le_eq split: if_splits)

lemma example_conn_sending: "sending content example_conn"
  by (simp add: sending_def example_conn_def conn_default_def conn_inv_def conn_base_def buffers_ok_def covers_def
      response_init_def)

lemma example_conn_pending: "pending content example_conn = ''HIB''"
  by (simp add: pending_def pending_response_def pending_body_def example_conn_def conn_default_def
      response_setters response_init_def Let_def)


text \<open>
  A response under way ends.  If every call makes some progress, one event per byte still
  pending and one more always suffice to send the rest and bring the connection to
  \<open>KEEP_ALIVE\<close>.
\<close>

theorem response_completes:
  assumes "sending content c" and "\<forall>io \<in> set ios. io_ok io \<and> files_ok content io \<and> makes_progress content io"
    and "length (pending content c) < length ios"
  shows "\<exists>c' es. send_run ios c = (c', es) \<and> cn_state c' = KEEP_ALIVE \<and> sent_bytes content es = pending content c"
  using assms
proof (induction ios arbitrary: c)
  case (Cons io ios)
  obtain w c1 es1 where s1: "send_step io c = (w, c1, es1)" by (cases "send_step io c")
  have io: "io_ok io" "files_ok content io" "makes_progress content io" using Cons.prems(2) by simp_all
  have adv: "cn_state c1 = KEEP_ALIVE \<or> cn_state c1 \<noteq> CLOSED \<and> sent_bytes content es1 \<noteq> []"
    using send_step_advances [OF Cons.prems(1) io] s1 by simp
  then have del: "sent_bytes content es1 @ pending content c1 = pending content c"
    "cn_state c1 = KEEP_ALIVE \<or> sending content c1"
    using send_step_delivers [OF Cons.prems(1) io(1,2) s1] by (auto split: if_splits)
  show ?case
  proof (cases "cn_state c1 = KEEP_ALIVE")
    case True
    then show ?thesis using s1 del(1) send_run_done [of c1 ios] by (simp add: pending_def)
  next
    case False
    with adv have "0 < length (sent_bytes content es1)" by simp
    moreover have "length (sent_bytes content es1) + length (pending content c1) = length (pending content c)"
      using del(1) by (metis length_append)
    moreover have "length (pending content c) < Suc (length ios)" using Cons.prems(3) by simp
    ultimately have "length (pending content c1) < length ios" by linarith
    then obtain c' es2 where "send_run ios c1 = (c', es2)" "cn_state c' = KEEP_ALIVE"
      "sent_bytes content es2 = pending content c1"
      using Cons.IH [of c1] False del(2) Cons.prems(2) by auto
    then show ?thesis using s1 del(1) by simp
  qed
qed simp

lemma response_completes_witness:
  "\<exists>c es. send_run (replicate 4 io_one) example_conn = (c, es) \<and> cn_state c = KEEP_ALIVE
     \<and> sent_bytes (\<lambda>_. []) es = ''HIB''"
  using response_completes [OF example_conn_sending [of "\<lambda>_. []"], of "replicate 4 io_one"] io_one_ok
  by (simp add: example_conn_pending)

end
