(* ===== verification/Prepare_Response.thy ===== *)
theory Prepare_Response
  imports Dir_Listing Connection_Delivery
begin

text \<open>
  \<open>src/core/event_loop.cpp\<close>, \<open>EventLoop::prepare_response\<close>: from the parsed request to the
  response of a connection.  The answers of the system that this function needs beyond
  those of the connection are the record \<open>server_io\<close>.
\<close>

subsection \<open>The function\<close>

record server_io =
  si_io :: io
  si_fs :: fs
  si_strptime :: "string \<Rightarrow> tm option"
  si_localtime :: "int \<Rightarrow> tm"

text \<open>The page of a request that serves no file: the five branches that end with a text body.\<close>

definition text_response :: "io \<Rightarrow> status \<Rightarrow> string \<Rightarrow> connection \<Rightarrow> connection" where
  "text_response io st body c = prepare_headers io (c\<lparr>cn_response :=
     set_content_length (of_nat (length body)) (set_content_type ''text/html; charset=utf-8''
       (set_body body (set_status st (cn_response c))))\<rparr>)"

fun status_of_error :: "file_error \<Rightarrow> status" where
  "status_of_error FE_NOT_FOUND = NOT_FOUND"
| "status_of_error FE_FORBIDDEN = FORBIDDEN"
| "status_of_error FE_BAD_REQUEST = BAD_REQUEST"
| "status_of_error FE_IS_DIRECTORY = INTERNAL_ERROR"

definition directory_page :: "server_io \<Rightarrow> string \<Rightarrow> string \<Rightarrow> string" where
  "directory_page si root path =
     (let norm = normalize_path path;
          show_parent = (norm \<noteq> ''/'');
          entries = list_directory (si_fs si) root path
      in build_directory_html (si_localtime si) path entries show_parent)"

definition not_modified :: "server_io \<Rightarrow> file_info \<Rightarrow> connection \<Rightarrow> connection" where
  "not_modified si info c = prepare_headers (si_io si)
     (c\<lparr>cn_response := set_last_modified (fi_last_modified info) (set_status NOT_MODIFIED (cn_response c))\<rparr>)"

definition content_range :: "int \<Rightarrow> int \<Rightarrow> int \<Rightarrow> string" where
  "content_range start stop sz =
     ''bytes '' @ string_of_int start @ ''-'' @ string_of_int stop @ ''/'' @ string_of_int sz"

definition file_response :: "server_io \<Rightarrow> file_info \<Rightarrow> (int \<times> int) option \<Rightarrow> bool \<Rightarrow> connection \<Rightarrow> connection" where
  "file_response si info rng is_head c =
     (let resp = cn_response c;
          (range_start, range_end) = (case rng of Some r \<Rightarrow> r | None \<Rightarrow> (0, fi_size info - 1));
          resp = (case rng of
                    Some _ \<Rightarrow> set_header ''Content-Range'' (content_range range_start range_end (fi_size info))
                                (set_status PARTIAL_CONTENT resp)
                  | None \<Rightarrow> resp);
          content_length = (if 0 < fi_size info then range_end - range_start + 1 else 0);
          resp = set_status (if rng \<noteq> None then PARTIAL_CONTENT else ST_OK) resp;
          resp = set_content_type (fi_mime_type info) resp;
          resp = set_content_length (of_int content_length) resp;
          resp = set_last_modified (fi_last_modified info) resp;
          resp = set_accept_ranges True resp;
          c = prepare_headers (si_io si) (c\<lparr>cn_response := resp\<rparr>);
          (fd, info) = release_fd info
      in set_send_file fd (fi_size info) range_start range_end is_head c)"

definition prepare_response :: "server_io \<Rightarrow> string \<Rightarrow> connection \<Rightarrow> (connection \<times> effect list) cpp" where
  "prepare_response si root c =
     (let req = cn_request c;
          is_head = (rq_method req = HEAD);
          c = c\<lparr>cn_response := set_keep_alive (is_keep_alive req) (response_reset (cn_response c)),
                cn_is_head := is_head\<rparr>
      in if rq_method req \<noteq> GET \<and> rq_method req \<noteq> HEAD
         then Inr (text_response (si_io si) NOT_IMPLEMENTED (error_body NOT_IMPLEMENTED) c, [])
         else case open_file (si_fs si) root (rq_path req) of
           Inl FE_IS_DIRECTORY \<Rightarrow> Inr (text_response (si_io si) ST_OK (directory_page si root (rq_path req)) c, [])
         | Inl e \<Rightarrow> Inr (text_response (si_io si) (status_of_error e) (error_body (status_of_error e)) c, [])
         | Inr info \<Rightarrow>
             if (case parse_if_modified_since (si_strptime si) timegm req of
                   Some ims \<Rightarrow> fi_last_modified info \<le> ims | None \<Rightarrow> False)
             then Inr (not_modified si info c, E_Open (fi_fd info) # map E_Close (file_info_destroy info))
             else case parse_range req (fi_size info) of
               Inl u \<Rightarrow> Inl u
             | Inr rng \<Rightarrow> Inr (file_response si info rng is_head c, [E_Open (fi_fd info)]))"

subsection \<open>What is sent\<close>

lemma open_file_fd: "open_file fs root p = Inr info \<Longrightarrow> 0 \<le> fi_fd info"
  by (auto simp: open_file_def Let_def split: if_splits option.splits sum.splits prod.splits)

lemma text_response_fields [simp]:
  "cn_file_fd (text_response io st body c) = cn_file_fd c"
  "rs_body (cn_response (text_response io st body c)) = body"
  "rs_status (cn_response (text_response io st body c)) = st"
  "rs_has_content_length (cn_response (text_response io st body c))"
  "rs_content_length (cn_response (text_response io st body c)) = of_nat (length body)"
  "rs_keep_alive (cn_response (text_response io st body c)) = rs_keep_alive (cn_response c)"
  "cn_is_head (text_response io st body c) = cn_is_head c"
  "cn_body_sent (text_response io st body c) = cn_body_sent c"
  "cn_chunk_used (text_response io st body c) = cn_chunk_used c"
  "cn_chunk_sent (text_response io st body c) = cn_chunk_sent c"
  "cn_send_remaining (text_response io st body c) = cn_send_remaining c"
  "has_body (cn_response (text_response io st body c)) \<longleftrightarrow> body \<noteq> []"
  by (simp_all add: text_response_def prepare_headers_def response_setters)

lemma file_response_fields [simp]:
  "cn_file_fd (file_response si info rng h c) = fi_fd info"
  "cn_send_offset (file_response si info rng h c) = (case rng of Some (a, b) \<Rightarrow> a | None \<Rightarrow> 0)"
  "cn_send_remaining (file_response si info rng h c) =
     (case rng of Some (a, b) \<Rightarrow> if a \<le> b then b - a + 1 else 0 | None \<Rightarrow> max 0 (fi_size info))"
  "rs_status (cn_response (file_response si info rng h c)) = (if rng = None then ST_OK else PARTIAL_CONTENT)"
  "rs_has_content_length (cn_response (file_response si info rng h c))"
  "rs_content_length (cn_response (file_response si info rng h c)) =
     of_int (if 0 < fi_size info then (case rng of Some (a, b) \<Rightarrow> b - a + 1 | None \<Rightarrow> fi_size info) else 0)"
  "rs_body (cn_response (file_response si info rng h c)) = rs_body (cn_response c)"
  "rs_headers (cn_response (file_response si info rng h c)) = rs_headers (cn_response c) @
     (case rng of Some (a, b) \<Rightarrow> [(''Content-Range'', content_range a b (fi_size info))] | None \<Rightarrow> [])"
  "rs_keep_alive (cn_response (file_response si info rng h c)) = rs_keep_alive (cn_response c)"
  "rs_content_type (cn_response (file_response si info rng h c)) = fi_mime_type info"
  "rs_last_modified (cn_response (file_response si info rng h c)) = fi_last_modified info"
  "rs_has_last_modified (cn_response (file_response si info rng h c))"
  "cn_is_head (file_response si info rng h c) = h"
  "cn_chunk_used (file_response si info rng h c) = cn_chunk_used c"
  "cn_chunk_sent (file_response si info rng h c) = cn_chunk_sent c"
  "cn_chunk_buf (file_response si info rng h c) = cn_chunk_buf c"
  by (auto simp: file_response_def Let_def prepare_headers_def set_send_file_def release_fd_def response_setters
      split: option.split prod.split)

lemma prepare_response_file:
  assumes "rq_method (cn_request c) \<noteq> UNKNOWN" and "open_file (si_fs si) root (rq_path (cn_request c)) = Inr info"
  shows "prepare_response si root c =
    (let c0 = c\<lparr>cn_response := set_keep_alive (is_keep_alive (cn_request c)) response_init,
                cn_is_head := rq_method (cn_request c) = HEAD\<rparr> in
     if \<exists>t. parse_if_modified_since (si_strptime si) timegm (cn_request c) = Some t \<and> fi_last_modified info \<le> t
     then Inr (not_modified si info c0, [E_Open (fi_fd info), E_Close (fi_fd info)])
     else map_sum id (\<lambda>rng. (file_response si info rng (rq_method (cn_request c) = HEAD) c0, [E_Open (fi_fd info)]))
            (parse_range (cn_request c) (fi_size info)))"
proof -
  have "rq_method (cn_request c) = GET \<or> rq_method (cn_request c) = HEAD"
    using assms(1) by (cases "rq_method (cn_request c)") simp_all
  then show ?thesis using assms(2) open_file_fd [OF assms(2)]
    by (auto simp: prepare_response_def Let_def file_info_destroy_def split: option.split sum.split)
qed

text \<open>The three kinds of answer: a page in memory, 304, and a file or a part of it.\<close>

abbreviation answering :: "connection \<Rightarrow> connection" where
  "answering c \<equiv> c\<lparr>cn_response := set_keep_alive (is_keep_alive (cn_request c)) response_init,
     cn_is_head := rq_method (cn_request c) = HEAD\<rparr>"

lemma prepare_response_cases:
  assumes "prepare_response si root c = Inr (c', es)"
  obtains (page) st body where "c' = text_response (si_io si) st body (answering c)" "es = []" "st \<noteq> NOT_MODIFIED"
    | (unchanged) info where "c' = not_modified si info (answering c)" "es = [E_Open (fi_fd info), E_Close (fi_fd info)]"
    | (content) info rng where "c' = file_response si info rng (rq_method (cn_request c) = HEAD) (answering c)"
        "es = [E_Open (fi_fd info)]" "open_file (si_fs si) root (rq_path (cn_request c)) = Inr info"
        "parse_range (cn_request c) (fi_size info) = Inr rng"
proof (cases "rq_method (cn_request c) = UNKNOWN")
  case True
  then show ?thesis using assms page [of NOT_IMPLEMENTED "error_body NOT_IMPLEMENTED"]
    by (simp add: prepare_response_def Let_def)
next
  case False
  show ?thesis
  proof (cases "open_file (si_fs si) root (rq_path (cn_request c))")
    case (Inl e)
    have "rq_method (cn_request c) = GET \<or> rq_method (cn_request c) = HEAD"
      using False by (cases "rq_method (cn_request c)") simp_all
    then show ?thesis using assms Inl page by (cases e) (auto simp: prepare_response_def Let_def)
  next
    case (Inr info)
    show ?thesis using assms unchanged content [OF _ _ Inr] unfolding prepare_response_file [OF False Inr] Let_def
      by (cases "parse_range (cn_request c) (fi_size info)") (auto split: if_splits)
  qed
qed

text \<open>
  A \<open>GET\<close> for a file with a range in one of the documented forms.  A satisfiable range is
  answered with 206, its \<open>Content-Range\<close> and exactly those bytes of the file; any other
  with 200 and the whole file.
\<close>

theorem range_request_body:
  assumes "rq_method (cn_request c) = GET" and "open_file (si_fs si) root (rq_path (cn_request c)) = Inr info"
    and "header (cn_request c) ''if-modified-since'' = []"
    and "header (cn_request c) ''range'' = render_range f" and "range_fits f"
    and "0 \<le> fi_size info" and "length (content (fi_fd info)) = nat (fi_size info)" and "unsent c"
  shows "\<exists>c'. prepare_response si root c = Inr (c', [E_Open (fi_fd info)]) \<and>
    (case range_spec (fi_size info) f of
       Some (a, b) \<Rightarrow> rs_status (cn_response c') = PARTIAL_CONTENT
         \<and> rs_headers (cn_response c') = [(''Content-Range'', content_range a b (fi_size info))]
         \<and> pending_body content c' = take (nat (b - a + 1)) (drop (nat a) (content (fi_fd info)))
     | None \<Rightarrow> rs_status (cn_response c') = ST_OK \<and> pending_body content c' = content (fi_fd info))"
proof -
  let ?c = "c\<lparr>cn_response := set_keep_alive (is_keep_alive (cn_request c)) response_init, cn_is_head := False\<rparr>"
  let ?r = "file_response si info (range_spec (fi_size info) f) False ?c"
  have fd: "0 \<le> fi_fd info" using open_file_fd [OF assms(2)] .
  have pr: "parse_range (cn_request c) (fi_size info) = Inr (range_spec (fi_size info) f)"
    using parse_range_render [OF assms(4), of "fi_size info"] assms(5) by simp
  have nomod: "parse_if_modified_since (si_strptime si) timegm (cn_request c) = None"
    using assms(3) by (simp add: parse_if_modified_since_def)
  have "prepare_response si root c = Inr (?r, [E_Open (fi_fd info)])"
    using prepare_response_file [OF _ assms(2)] assms(1) nomod pr by simp
  moreover have "pending_body content ?r = take (nat (cn_send_remaining ?r)) (drop (nat (cn_send_offset ?r)) (content (fi_fd info)))"
    using fd assms(8) by (simp add: pending_body_def unsent_def)
  moreover have "a \<le> b" if "range_spec (fi_size info) f = Some (a, b)" for a b
    using parse_range_inside pr that by fastforce
  ultimately show ?thesis
    using assms(6,7) by (auto split: option.split simp: response_setters response_init_def)
qed

definition example_si :: server_io where
  "example_si = \<lparr>si_io = io_idle, si_fs = example_fs Symlink, si_strptime = \<lambda>s. Some (gmtime 9), si_localtime = gmtime\<rparr>"

definition example_request :: "(string \<times> string) list \<Rightarrow> connection" where
  "example_request hs = conn_default\<lparr>cn_fd := 5, cn_state := PARSING, cn_request :=
     \<lparr>rq_method = GET, rq_raw_method = ''GET'', rq_path = ''/a.txt'', rq_version = ''HTTP/1.1'', rq_headers = hs\<rparr>\<rparr>"

lemma example_request_open:
  "open_file (si_fs example_si) ''/srv'' (rq_path (cn_request (example_request hs)))
     = Inr \<lparr>fi_fd = 7, fi_size = 5, fi_last_modified = 9, fi_mime_type = ''text/plain'',
            fi_resolved_path = ''/srv/a.txt''\<rparr>"
  by (simp add: example_si_def example_request_def open_file_example)

lemma range_request_body_witness:
  "\<exists>c'. prepare_response example_si ''/srv'' (example_request [(''range'', render_range (Interval 1 3))])
      = Inr (c', [E_Open 7]) \<and> pending_body (\<lambda>_. ''hello'') c' = ''ell''"
proof -
  let ?c = "example_request [(''range'', render_range (Interval 1 3))]"
  have "rq_method (cn_request ?c) = GET" "header (cn_request ?c) ''if-modified-since'' = []"
    "header (cn_request ?c) ''range'' = render_range (Interval 1 3)" "unsent ?c" "range_fits (Interval 1 3)"
    by (simp_all add: example_request_def header_def unsent_def conn_default_def off_max_def)
  from range_request_body [OF this(1) example_request_open this(2,3,5) _ _ this(4), of "\<lambda>_. ''hello''"]
  show ?thesis by auto
qed

lemma file_response_length:
  fixes si :: server_io and h :: bool
  assumes "parse_range req (fi_size info) = Inr rng" and "unsent c" and "0 \<le> fi_fd info"
    and "0 \<le> fi_size info" and "fi_size info \<le> off_max" and "length (content (fi_fd info)) = nat (fi_size info)"
  defines "c' \<equiv> file_response si info rng h c"
  shows "unat (rs_content_length (cn_response c')) = length (pending_body content c')"
proof -
  have "pending_body content c' = take (nat (cn_send_remaining c')) (drop (nat (cn_send_offset c')) (content (fi_fd info)))"
    using assms(2,3) by (simp add: c'_def pending_body_def unsent_def)
  moreover have inside: "0 \<le> a \<and> a \<le> b \<and> b < fi_size info" if "rng = Some (a, b)" for a b
    using parse_range_inside assms(1) that by simp
  define k where "k = (if 0 < fi_size info then (case rng of Some (a, b) \<Rightarrow> b - a + 1 | None \<Rightarrow> fi_size info) else 0)"
  have k: "0 \<le> k" "k \<le> off_max" using inside assms(4,5) by (auto simp: k_def split: option.split)
  have "length (take (nat (cn_send_remaining c')) (drop (nat (cn_send_offset c')) (content (fi_fd info)))) = nat k"
    using inside assms(4-6) by (cases rng) (auto simp: c'_def k_def min_def)
  moreover have "rs_content_length (cn_response c') = of_int k" by (simp add: c'_def k_def)
  moreover have "unat (of_int k :: 64 word) = nat k"
    using k by (simp add: unsigned_of_int take_bit_int_eq_self off_max_def)
  ultimately show ?thesis by simp
qed

text \<open>
  The framing of every answer.  The announced \<open>Content-Length\<close> is the number of bytes of
  the body that will follow the headers of a \<open>GET\<close> (a \<open>HEAD\<close> announces the same and sends
  none); a 304 announces none and has none.
\<close>

theorem content_length_is_body:
  assumes "prepare_response si root c = Inr (c', es)" and "unsent c" and "no_file c"
    and "\<And>info. open_file (si_fs si) root (rq_path (cn_request c)) = Inr info \<Longrightarrow>
      0 \<le> fi_size info \<and> fi_size info \<le> off_max \<and> length (content (fi_fd info)) = nat (fi_size info)"
    and "length (rs_body (cn_response c')) < 2 ^ 64"
  shows "if rs_status (cn_response c') = NOT_MODIFIED
    then pending_body content c' = [] \<and> \<not> rs_has_content_length (cn_response c')
    else rs_has_content_length (cn_response c')
      \<and> unat (rs_content_length (cn_response c')) = length (pending_body content c')"
  using assms(1)
proof (cases rule: prepare_response_cases)
  case (page st body)
  have "pending_body content c' = body"
    using assms(2,3) page(1) by (simp add: pending_body_def no_file_def unsent_def)
  moreover have "unat (of_nat (length body) :: 64 word) = length body"
    using assms(5) page(1) by (simp add: unsigned_of_nat take_bit_nat_eq_self)
  ultimately show ?thesis using page by simp
next
  case unchanged
  then show ?thesis using assms(2,3)
    by (simp add: not_modified_def prepare_headers_def pending_body_def no_file_def unsent_def
        response_setters response_init_def)
next
  case (content info rng)
  have "unsent (answering c)" using assms(2) by (simp add: unsent_def)
  note len = file_response_length [OF content(4) this open_file_fd [OF content(3)]]
  show ?thesis using len assms(4) [OF content(3)] content(1) by simp
qed

lemma content_length_is_body_witness:
  "\<exists>c'. prepare_response example_si ''/srv'' (example_request []) = Inr (c', [E_Open 7])
     \<and> unat (rs_content_length (cn_response c')) = length (pending_body (\<lambda>_. ''hello'') c')"
proof -
  let ?c = "example_request []"
  have u: "unsent ?c" "no_file ?c" by (simp_all add: example_request_def unsent_def no_file_def conn_default_def)
  have "rq_method (cn_request ?c) \<noteq> UNKNOWN" by (simp add: example_request_def)
  from prepare_response_file [OF this example_request_open] obtain c' where
    p: "prepare_response example_si ''/srv'' ?c = Inr (c', [E_Open 7])"
    and st: "rs_status (cn_response c') = ST_OK" and b: "rs_body (cn_response c') = []"
    by (simp add: example_request_def parse_if_modified_since_def header_def parse_range_def response_setters
        response_init_def Let_def)
  from content_length_is_body [OF p u, of "\<lambda>_. ''hello''"] st b show ?thesis
    using p example_request_open by (auto simp: off_max_def)
qed

lemma format_time_nonempty: "format_time t \<noteq> []"
  using weekday_name_plain [of "tm_wday (gmtime t)"] by (auto simp: format_time_def Let_def)

text \<open>
  C24: revalidation.  If \<open>strptime\<close> reads the date format of the server back, a client that
  repeats the \<open>Last-Modified\<close> it was given gets 304 without a body as long as the file has
  not changed, whatever range it asks for, and the file that was opened is closed again.
\<close>

theorem revalidation_not_modified:
  assumes "rq_method (cn_request c) \<noteq> UNKNOWN" and "open_file (si_fs si) root (rq_path (cn_request c)) = Inr info"
    and "header (cn_request c) ''if-modified-since'' = format_time t" and "fi_last_modified info = t"
    and "si_strptime si (format_time t) = Some (gmtime t)" and "no_file c"
  shows "\<exists>c'. prepare_response si root c = Inr (c', [E_Open (fi_fd info), E_Close (fi_fd info)])
    \<and> rs_status (cn_response c') = NOT_MODIFIED \<and> \<not> has_body (cn_response c') \<and> cn_file_fd c' < 0"
proof -
  have "parse_if_modified_since (si_strptime si) timegm (cn_request c) = Some t"
    using assms(3,5) by (simp add: parse_if_modified_since_def timegm_gmtime format_time_nonempty)
  then show ?thesis
    using prepare_response_file [OF assms(1,2)] assms(4,6)
    by (auto simp: not_modified_def prepare_headers_def response_setters response_init_def no_file_def Let_def)
qed

lemma revalidation_not_modified_witness:
  "\<exists>c'. prepare_response example_si ''/srv'' (example_request [(''if-modified-since'', format_time 9)])
      = Inr (c', [E_Open 7, E_Close 7]) \<and> rs_status (cn_response c') = NOT_MODIFIED"
proof -
  let ?c = "example_request [(''if-modified-since'', format_time 9)]"
  have "rq_method (cn_request ?c) \<noteq> UNKNOWN" "header (cn_request ?c) ''if-modified-since'' = format_time 9"
    "si_strptime example_si (format_time 9) = Some (gmtime 9)" "no_file ?c"
    by (simp_all add: example_request_def example_si_def header_def no_file_def conn_default_def)
  from revalidation_not_modified [OF this(1) example_request_open this(2) _ this(3,4)] show ?thesis by auto
qed

subsection \<open>It keeps the connection well formed\<close>

abbreviation with_response :: "http_response \<Rightarrow> string \<Rightarrow> bool \<Rightarrow> connection \<Rightarrow> connection" where
  "with_response r h is_head c \<equiv>
     c\<lparr>cn_response := r, cn_header_buf := h, cn_header_sent := 0, cn_is_head := is_head\<rparr>"

lemma build_headers_nonempty: "build_headers t r \<noteq> []"
  by (simp add: build_headers_def)

lemma text_response_shape:
  fixes c r0 b io st body
  defines "c' \<equiv> text_response io st body (c\<lparr>cn_response := r0, cn_is_head := b\<rparr>)"
  shows "cn_header_buf c' \<noteq> [] \<and> c' = with_response (cn_response c') (cn_header_buf c') b c"
  by (simp add: c'_def text_response_def prepare_headers_def build_headers_nonempty)

lemma not_modified_shape:
  fixes c r0 b si info
  defines "c' \<equiv> not_modified si info (c\<lparr>cn_response := r0, cn_is_head := b\<rparr>)"
  shows "cn_header_buf c' \<noteq> [] \<and> c' = with_response (cn_response c') (cn_header_buf c') b c"
  by (simp add: c'_def not_modified_def prepare_headers_def build_headers_nonempty)

lemma file_response_shape:
  fixes c r0 b si info rng
  defines "c' \<equiv> file_response si info rng b (c\<lparr>cn_response := r0, cn_is_head := b\<rparr>)"
  shows "cn_header_buf c' \<noteq> [] \<and> 0 \<le> cn_send_remaining c' \<and> c' =
     (with_response (cn_response c') (cn_header_buf c') b c)\<lparr>cn_file_fd := fi_fd info, cn_file_size := fi_size info,
        cn_send_offset := cn_send_offset c', cn_send_remaining := cn_send_remaining c'\<rparr>"
  unfolding c'_def file_response_def Let_def set_send_file_def prepare_headers_def release_fd_def
  by (cases rng; cases "the rng") (simp_all add: build_headers_nonempty)

text \<open>
  What \<open>prepare_response\<close> may change: the response, the headers and, when a file is sent, the
  fields of the file.
\<close>

lemma prepare_response_shape:
  assumes "prepare_response si root c = Inr (c', es)"
  shows "\<exists>r h b. h \<noteq> [] \<and>
    ((\<exists>fd. c' = with_response r h b c \<and> (es = [] \<or> es = [E_Open fd, E_Close fd]))
     \<or> (\<exists>fd sz off n. 0 \<le> fd \<and> 0 \<le> n \<and> es = [E_Open fd] \<and>
          c' = (with_response r h b c)\<lparr>cn_file_fd := fd, cn_file_size := sz, cn_send_offset := off,
                                       cn_send_remaining := n\<rparr>))"
  using assms
proof (cases rule: prepare_response_cases)
  case page
  have "cn_header_buf c' \<noteq> [] \<and> c' = with_response (cn_response c') (cn_header_buf c') (rq_method (cn_request c) = HEAD) c"
    unfolding page(1) by (rule text_response_shape)
  with page(2) show ?thesis by blast
next
  case unchanged
  have "cn_header_buf c' \<noteq> [] \<and> c' = with_response (cn_response c') (cn_header_buf c') (rq_method (cn_request c) = HEAD) c"
    unfolding unchanged(1) by (rule not_modified_shape)
  with unchanged(2) show ?thesis by blast
next
  case (content info)
  have "cn_header_buf c' \<noteq> [] \<and> 0 \<le> cn_send_remaining c' \<and> c' =
      (with_response (cn_response c') (cn_header_buf c') (rq_method (cn_request c) = HEAD) c)\<lparr>cn_file_fd := fi_fd info,
        cn_file_size := fi_size info, cn_send_offset := cn_send_offset c', cn_send_remaining := cn_send_remaining c'\<rparr>"
    unfolding content(1) by (rule file_response_shape)
  with content(2) open_file_fd [OF content(3)] show ?thesis by blast
qed

lemma prepare_response_safe:
  assumes "prepare_response si root c = Inr (c', es)" and "conn_base c" and "unsent c" and "cn_state c \<noteq> CLOSED"
  shows "conn_base c'" and "unsent c'" and "cn_state c' = cn_state c" and "same_links c c'"
    and "cn_fd c' = cn_fd c" and "cn_ssl c' = cn_ssl c" and "cn_request c' = cn_request c"
    and "cn_read_buf c' = cn_read_buf c" and "cn_header_sent c' = 0" and "cn_header_buf c' \<noteq> []"
    and "no_file c \<Longrightarrow> owned c + mset (opened_fds es) = owned c' + mset (closed_fds es)"
    and "freed_ssl es = []" and "created_ssl es = []"
proof -
  have "conn_base c' \<and> unsent c' \<and> cn_state c' = cn_state c \<and> same_links c c' \<and> cn_fd c' = cn_fd c
    \<and> cn_ssl c' = cn_ssl c \<and> cn_request c' = cn_request c \<and> cn_read_buf c' = cn_read_buf c
    \<and> cn_header_sent c' = 0 \<and> cn_header_buf c' \<noteq> []
    \<and> (no_file c \<longrightarrow> owned c + mset (opened_fds es) = owned c' + mset (closed_fds es)) \<and> freed_ssl es = [] \<and> created_ssl es = []"
    using prepare_response_shape [OF assms(1)] assms(2-4)
    by (elim exE conjE disjE)
      (simp_all add: conn_base_def buffers_ok_def unsent_def same_links_def owned_def no_file_def)
  then show "conn_base c'" and "unsent c'" and "cn_state c' = cn_state c" and "same_links c c'"
    and "cn_fd c' = cn_fd c" and "cn_ssl c' = cn_ssl c" and "cn_request c' = cn_request c"
    and "cn_read_buf c' = cn_read_buf c" and "cn_header_sent c' = 0" and "cn_header_buf c' \<noteq> []"
    and "no_file c \<Longrightarrow> owned c + mset (opened_fds es) = owned c' + mset (closed_fds es)"
    and "freed_ssl es = []" and "created_ssl es = []" by simp_all
qed

end
