(* ===== verification/Event_Loop.thy ===== *)
theory Event_Loop
  imports Keepalive_List Prepare_Response
begin

text \<open>
  \<open>src/core/event_loop.cpp\<close>: the operations of the class \<open>EventLoop\<close>.  Every handler is a function
  from the answers of the system and the loop to the loop afterwards and the effects, or to
  the undefined behaviour it runs into.  \<open>loop_io\<close> adds to the answers of one connection
  those of \<open>accept\<close> (the descriptors in their order, then a failure) and of \<open>SSL_new\<close>.
\<close>

record loop_io =
  li_server :: server_io
  li_accept :: "int list"
  li_ssl_new :: "nat option"

abbreviation li_io :: "loop_io \<Rightarrow> io" where "li_io li \<equiv> si_io (li_server li)"

type_synonym loop_result = "(event_loop \<times> effect list) cpp"

subsection \<open>Connections of the pool\<close>

definition create_connection :: "int \<Rightarrow> int \<Rightarrow> event_loop \<Rightarrow> nat option \<times> event_loop" where
  "create_connection now fd el =
     (case acquire (el_pool el) of
        None \<Rightarrow> (None, el)
      | Some (i, p) \<Rightarrow>
          let el = el\<lparr>el_pool := p\<rparr>;
              c = conn_init now fd (el_root_dir el) (el_keep_alive_timeout el) (conn_at i el);
              c = c\<lparr>cn_tls_available := (el_tls_ctx el \<noteq> None)\<rparr>
          in (Some i, add_event fd EVFILT_READ {EV_ADD, EV_ENABLE} (Conn i) (set_conn i c el)))"

definition destroy_connection :: "nat \<Rightarrow> event_loop \<Rightarrow> loop_result" where
  "destroy_connection i el =
     (let el = remove_from_keepalive_list i el;
          fd = cn_fd (conn_at i el);
          el = (if 0 \<le> fd then add_event fd EVFILT_WRITE {EV_DELETE} Null_Tag
                                 (add_event fd EVFILT_READ {EV_DELETE} Null_Tag el) else el)
      in case conn_close (conn_at i el) of (c, es) \<Rightarrow>
         let el = set_conn i c el in
         case release i (el_pool el) of
           Inl u \<Rightarrow> Inl u
         | Inr p \<Rightarrow> Inr (el\<lparr>el_pool := p\<rparr>, es))"

subsection \<open>Accepting\<close>

fun accept_loop :: "int \<Rightarrow> int list \<Rightarrow> event_loop \<Rightarrow> event_loop \<times> effect list" where
  "accept_loop now [] el = (el, [])"
| "accept_loop now (fd # fds) el =
     (if fd < 0 then (el, [])
      else case create_connection now fd el of
        (None, el) \<Rightarrow> (el, [E_Accept fd, E_Close fd])
      | (Some _, el) \<Rightarrow> (case accept_loop now fds el of (el, es) \<Rightarrow> (el, E_Accept fd # es)))"

definition handle_accept :: "loop_io \<Rightarrow> event_loop \<Rightarrow> event_loop \<times> effect list" where
  "handle_accept li el = accept_loop (io_now (li_io li)) (li_accept li) el"

subsection \<open>The state machine of a connection\<close>

text \<open>The switch on the state.\<close>

definition conn_action :: "io \<Rightarrow> bool \<Rightarrow> connection \<Rightarrow> conn_step" where
  "conn_action io tls c =
     (case cn_state c of
        PROTO_DETECT \<Rightarrow> do_proto_detect io tls c
      | TLS_ACCEPT \<Rightarrow> do_tls_accept io c
      | READING \<Rightarrow> do_read io c
      | PARSING \<Rightarrow> do_parse io c
      | SENDING_HEADERS \<Rightarrow> do_send_headers io c
      | SENDING_BODY \<Rightarrow> do_send_body io c
      | KEEP_ALIVE \<Rightarrow>
          (case conn_reset c of (c, es) \<Rightarrow> case do_read io c of (w, c, es') \<Rightarrow> (w, c, es @ es'))
      | CLOSED \<Rightarrow> waiting Want_None c)"

text \<open>TLS was detected: the SSL object is injected and the handshake starts at once.\<close>

definition inject_ssl :: "loop_io \<Rightarrow> tls_context option \<Rightarrow> conn_step \<Rightarrow> conn_step" where
  "inject_ssl li tls step =
     (case step of (w, c, es) \<Rightarrow>
       if cn_state c = TLS_ACCEPT \<and> cn_ssl c = None then
         let ssl = (case tls of None \<Rightarrow> None | Some t \<Rightarrow> new_ssl (li_ssl_new li) t);
             (c, es) = (case ssl of None \<Rightarrow> (c, es) | Some s \<Rightarrow> (c\<lparr>cn_ssl := Some s\<rparr>, es @ [E_Ssl_New s]))
         in case do_tls_accept (li_io li) c of (w, c, es') \<Rightarrow> (w, c, es @ es')
       else step)"

definition inline_parse :: "io \<Rightarrow> conn_step \<Rightarrow> conn_step" where
  "inline_parse io step =
     (case step of (w, c, es) \<Rightarrow>
       if cn_state c = PARSING \<and> rq_method (cn_request c) = UNKNOWN
       then case do_parse io c of (w, c, es') \<Rightarrow> (w, c, es @ es')
       else step)"

definition respond :: "loop_io \<Rightarrow> string \<Rightarrow> conn_step \<Rightarrow> conn_step cpp" where
  "respond li root step =
     (case step of (w, c, es) \<Rightarrow>
       if (cn_state c = PARSING \<or> cn_state c = READING) \<and> rq_method (cn_request c) \<noteq> UNKNOWN
       then case prepare_response (li_server li) root c of
              Inl u \<Rightarrow> Inl u
            | Inr (c, es') \<Rightarrow>
                (case do_send_headers (li_io li) c of (w, c, es'') \<Rightarrow> Inr (w, c, es @ es' @ es''))
       else Inr step)"

definition sync_keepalive :: "conn_state \<Rightarrow> nat \<Rightarrow> event_loop \<Rightarrow> event_loop" where
  "sync_keepalive prev_state i el =
     (let st = cn_state (conn_at i el) in
      if prev_state \<noteq> KEEP_ALIVE \<and> st = KEEP_ALIVE then add_to_keepalive_list i el
      else if prev_state = KEEP_ALIVE \<and> st \<noteq> KEEP_ALIVE then remove_from_keepalive_list i el
      else el)"

definition process_connection :: "loop_io \<Rightarrow> nat \<Rightarrow> event_loop \<Rightarrow> loop_result" where
  "process_connection li i el =
     (let c = conn_at i el; prev_state = cn_state c in
      if prev_state = CLOSED then Inr (el, [])
      else case inject_ssl li (el_tls_ctx el) (conn_action (li_io li) (el_tls_ctx el \<noteq> None) c) of
        (w, c, es) \<Rightarrow>
          if cn_state c = CLOSED
          then map_sum id (\<lambda>(el, es'). (el, es @ es')) (destroy_connection i (set_conn i c el))
          else case respond li (el_root_dir el) (inline_parse (li_io li) (w, c, es)) of
            Inl u \<Rightarrow> Inl u
          | Inr (w, c, es) \<Rightarrow> Inr (update_events i w (sync_keepalive prev_state i (set_conn i c el)), es))"

subsection \<open>The timer\<close>

text \<open>
  The walk along the \<open>next\<close> pointers; the pointer of a node is read before the node may be
  destroyed.  \<open>None\<close> is a walk that never ends.
\<close>

partial_function (option) timer_loop :: "int \<Rightarrow> int \<Rightarrow> nat option \<Rightarrow> event_loop \<Rightarrow> effect list \<Rightarrow> loop_result option" where
  "timer_loop now timeout cur el es =
     (case cur of
        None \<Rightarrow> Some (Inr (el, es))
      | Some i \<Rightarrow>
          let nxt = cn_next (conn_at i el) in
          if is_expired now timeout (conn_at i el)
          then (case destroy_connection i el of
                  Inl u \<Rightarrow> Some (Inl u)
                | Inr (el', es') \<Rightarrow> timer_loop now timeout nxt el' (es @ es'))
          else timer_loop now timeout nxt el es)"

definition handle_timer :: "loop_io \<Rightarrow> event_loop \<Rightarrow> loop_result option" where
  "handle_timer li el =
     timer_loop (io_now (li_io li)) (el_keep_alive_timeout el * 1000000000) (el_keepalive_head el) el []"

subsection \<open>Dispatch\<close>

text \<open>The event itself is not looked at: the state of the connection says what to do.\<close>

definition handle_connection_event :: "loop_io \<Rightarrow> nat \<Rightarrow> kevent \<Rightarrow> event_loop \<Rightarrow> loop_result" where
  [simp]: "handle_connection_event li i ev el = process_connection li i el"

definition dispatch :: "loop_io \<Rightarrow> kevent \<Rightarrow> event_loop \<Rightarrow> loop_result option" where
  "dispatch li ev el =
     (if EV_ERROR \<in> ke_flags ev \<or> EV_EOF \<in> ke_flags ev then
        (case ke_udata ev of Conn i \<Rightarrow> Some (destroy_connection i el) | _ \<Rightarrow> Some (Inr (el, [])))
      else case ke_udata ev of
        Listener_Tag \<Rightarrow> Some (Inr (handle_accept li el))
      | Timer_Tag \<Rightarrow> handle_timer li el
      | Conn i \<Rightarrow> Some (handle_connection_event li i ev el)
      | Null_Tag \<Rightarrow> Some (Inl Null_Pointer))"

text \<open>The events one call of \<open>kevent\<close> returned, in their order.\<close>

fun dispatch_all :: "(loop_io \<times> kevent) list \<Rightarrow> event_loop \<Rightarrow> loop_result option" where
  "dispatch_all [] el = Some (Inr (el, []))"
| "dispatch_all ((li, ev) # evs) el =
     (case dispatch li ev el of
        None \<Rightarrow> None
      | Some (Inl u) \<Rightarrow> Some (Inl u)
      | Some (Inr (el, es)) \<Rightarrow> map_option (map_sum id (\<lambda>(el, es'). (el, es @ es'))) (dispatch_all evs el))"

text \<open>
  The main loop.  A round is the value of \<open>g_running\<close> the loop reads (a signal clears it at any
  time) and the answer of \<open>kevent\<close>: the events, each with the answers of the calls made while
  it is handled, or a failure.  The result also lists the changes each round submitted; the list
  of rounds may be any prefix of a run.
\<close>

datatype kevent_answer = Kq_Events "(loop_io \<times> kevent) list" | Kq_EINTR | Kq_Error

fun run :: "(bool \<times> kevent_answer) list \<Rightarrow> event_loop \<Rightarrow> (event_loop \<times> effect list \<times> kevent list list) cpp option" where
  "run [] el = Some (Inr (el, [], []))"
| "run ((running, answer) # rounds) el =
     (if \<not> running then Some (Inr (el, [], []))
      else let changes = el_changelist el; el = el\<lparr>el_changelist := []\<rparr> in
      case answer of
        Kq_Error \<Rightarrow> Some (Inr (el, [], [changes]))
      | Kq_EINTR \<Rightarrow> map_option (map_sum id (\<lambda>(el, es, cs). (el, es, changes # cs))) (run rounds el)
      | Kq_Events evs \<Rightarrow>
          (case dispatch_all evs el of
             None \<Rightarrow> None
           | Some (Inl u) \<Rightarrow> Some (Inl u)
           | Some (Inr (el, es)) \<Rightarrow>
               map_option (map_sum id (\<lambda>(el, es', cs). (el, es @ es', changes # cs))) (run rounds el)))"

definition add_listener :: "int \<Rightarrow> event_loop \<Rightarrow> event_loop \<times> kevent list" where
  "add_listener fd el =
     (let el = el\<lparr>el_listen_fd := fd\<rparr>;
          el = add_event fd EVFILT_READ {EV_ADD, EV_ENABLE} Listener_Tag el;
          el = el\<lparr>el_changelist := el_changelist el @
                 [\<lparr>ke_ident = 1, ke_filter = EVFILT_TIMER, ke_flags = {EV_ADD, EV_ENABLE, EV_CLEAR},
                   ke_note_seconds = True, ke_data = 1, ke_udata = Timer_Tag\<rparr>]\<rparr>
      in flush_changelist el)"

end
