(* ===== verification/Loop_Invariant.thy ===== *)
theory Loop_Invariant
  imports Event_Loop
begin

text \<open>
  The invariant of the event loop: the pool is well formed, so is every connection in it,
  the slots that are not lent hold closed connections, and the keep-alive list holds exactly
  the connections in the state \<open>KEEP_ALIVE\<close>.  Every handler keeps it and meets no undefined
  behaviour of the pool.
\<close>

subsection \<open>The work on one connection\<close>

declare step_ok.simps [simp del]

lemma conn_action_ok:
  assumes "conn_inv c" and "io_ok io"
  shows "step_ok c (conn_action io tls c)"
proof (cases "cn_state c")
  case CLOSED
  then show ?thesis using assms(1) by (simp add: conn_action_def waiting_def same_links_def step_ok.simps)
next
  case PROTO_DETECT
  then show ?thesis using do_proto_detect_ok [OF assms(1)] by (simp add: conn_action_def)
next
  case TLS_ACCEPT
  then show ?thesis using do_tls_accept_ok [OF assms(1)] by (simp add: conn_action_def)
next
  case READING
  then have "readable c" using assms(1) by (auto simp: readable_def conn_inv_def)
  then show ?thesis using do_read_ok [OF _ assms(2)] READING by (simp add: conn_action_def)
next
  case PARSING
  then show ?thesis using do_parse_ok [OF assms(1)] by (simp add: conn_action_def)
next
  case SENDING_HEADERS
  then show ?thesis using do_send_headers_ok [OF assms(1) _ assms(2)] by (simp add: conn_action_def)
next
  case SENDING_BODY
  then have "conn_base c" using assms(1) by (simp add: conn_inv_def)
  then show ?thesis using do_send_body_ok [OF _ SENDING_BODY assms(2)] SENDING_BODY
    by (simp add: conn_action_def)
next
  case KEEP_ALIVE
  obtain c1 es1 where r: "conn_reset c = (c1, es1)" by (cases "conn_reset c")
  obtain w c2 es2 where d: "do_read io c1 = (w, c2, es2)" by (cases "do_read io c1")
  note reset = conn_reset_ok [OF assms(1) KEEP_ALIVE r]
  have "step_ok c1 (w, c2, es2)" using do_read_ok [OF reset(1) assms(2)] unfolding d .
  moreover have "cn_state c1 \<noteq> CLOSED" using reset(1) by (auto simp: readable_def)
  ultimately have "step_ok c (w, c2, es1 @ es2)" using step_ok_trans [OF reset(2)] by blast
  then show ?thesis using KEEP_ALIVE r d by (simp add: conn_action_def)
qed

lemma inject_ssl_ok:
  assumes "step_ok c (w, c1, es)"
  shows "step_ok c (inject_ssl li tls (w, c1, es))"
proof (cases "cn_state c1 = TLS_ACCEPT \<and> cn_ssl c1 = None")
  case False
  then show ?thesis using assms by (auto simp: inject_ssl_def)
next
  case True
  have inv: "conn_inv c1" using assms by (simp add: step_ok.simps)
  have handshake: "step_ok c (case do_tls_accept (li_io li) c2 of (w, c3, es') \<Rightarrow> (w, c3, (es @ es1) @ es'))"
    if "step_ok c (w, c2, es @ es1)" "cn_state c2 = TLS_ACCEPT" for c2 es1
  proof -
    obtain w' c3 es' where d: "do_tls_accept (li_io li) c2 = (w', c3, es')" by (cases "do_tls_accept (li_io li) c2")
    have "step_ok c2 (w', c3, es')" using do_tls_accept_ok [of c2 "li_io li"] that unfolding d by (simp add: step_ok.simps)
    then have "step_ok c (w', c3, (es @ es1) @ es')" using that(2) by (intro step_ok_trans [OF that(1)]) simp_all
    then show ?thesis using d by simp
  qed
  have some: "step_ok c (w, c1\<lparr>cn_ssl := Some s\<rparr>, es @ [E_Ssl_New s])" for s
  proof -
    have "conn_inv (c1\<lparr>cn_ssl := Some s\<rparr>)" using inv True by (auto simp: conn_inv_defs)
    moreover have "balanced c1 [E_Ssl_New s] (c1\<lparr>cn_ssl := Some s\<rparr>)"
      using True by (simp add: balanced_def owned_def owned_ssl_def)
    ultimately show ?thesis using assms True balanced_trans by (auto simp: same_links_def step_ok.simps)
  qed
  show ?thesis using True handshake [OF some] handshake [of c1 "[]"] assms
    by (auto simp: inject_ssl_def Let_def split: option.split)
qed

lemma inline_parse_ok:
  assumes "step_ok c (w, c1, es)"
  shows "step_ok c (inline_parse io (w, c1, es))"
proof (cases "cn_state c1 = PARSING \<and> rq_method (cn_request c1) = UNKNOWN")
  case True
  obtain w' c2 es' where d: "do_parse io c1 = (w', c2, es')" by (cases "do_parse io c1")
  have "step_ok c1 (w', c2, es')" using do_parse_ok [of c1 io] assms True unfolding d by (simp add: step_ok.simps)
  then have "step_ok c (w', c2, es @ es')" using True by (intro step_ok_trans [OF assms]) simp_all
  then show ?thesis using True d by (simp add: inline_parse_def)
qed (use assms in \<open>auto simp: inline_parse_def\<close>)

lemma respond_ok:
  assumes "step_ok c (w, c1, es)" and "cn_state c1 \<noteq> CLOSED" and "io_ok (li_io li)"
    and "respond li root (w, c1, es) = Inr (w', c2, es')"
  shows "conn_inv c2" and "same_links c c2" and "cn_state c2 = CLOSED \<longrightarrow> w' = Want_None"
    and "cn_state c2 \<noteq> CLOSED \<longrightarrow> cn_fd c2 = cn_fd c" and "no_file c1 \<or> cn_state c1 \<noteq> PARSING \<Longrightarrow> balanced c es' c2"
proof -
  have "conn_inv c2 \<and> same_links c c2 \<and> (cn_state c2 = CLOSED \<longrightarrow> w' = Want_None)
    \<and> (cn_state c2 \<noteq> CLOSED \<longrightarrow> cn_fd c2 = cn_fd c) \<and> (no_file c1 \<or> cn_state c1 \<noteq> PARSING \<longrightarrow> balanced c es' c2)"
  proof (cases "(cn_state c1 = PARSING \<or> cn_state c1 = READING) \<and> rq_method (cn_request c1) \<noteq> UNKNOWN")
    case False
    then show ?thesis using assms(1,4) by (auto simp: respond_def step_ok.simps)
  next
    case True
    have inv: "conn_inv c1" and fd: "cn_fd c1 = cn_fd c" and links: "same_links c c1" and bal: "balanced c es c1"
      using assms(1,2) by (simp_all add: step_ok.simps)
    have st: "cn_state c1 = PARSING" using True inv by (auto simp: conn_inv_def idle_def)
    obtain c' es1 where p: "prepare_response (li_server li) root c1 = Inr (c', es1)"
      using assms(4) True by (cases "prepare_response (li_server li) root c1") (auto simp: respond_def)
    obtain w'' es2 where d: "do_send_headers (li_io li) c' = (w'', c2, es2)"
      and r: "w' = w''" "es' = es @ es1 @ es2"
      using assms(4) True p by (auto simp: respond_def split: prod.splits)
    have base: "conn_base c1" "unsent c1" using inv st by (simp_all add: conn_inv_def)
    note safe = prepare_response_safe [OF p base assms(2)]
    have inv': "conn_inv c'" using safe(1-3) st by (simp add: conn_inv_def)
    have step: "step_ok c' (w'', c2, es2)" using do_send_headers_ok [OF inv' _ assms(3)] safe(3) st unfolding d by simp
    have "balanced c1 es1 c'" if "no_file c1"
      using safe(6,11,12,13) that by (simp add: balanced_def owned_ssl_def add.commute)
    then have "balanced c (es @ es1 @ es2) c2" if "no_file c1"
      using bal step that balanced_trans by (auto simp: step_ok.simps)
    then show ?thesis using step safe(3-5) links fd st r by (auto simp: step_ok.simps same_links_def)
  qed
  then show "conn_inv c2" and "same_links c c2" and "cn_state c2 = CLOSED \<longrightarrow> w' = Want_None"
    and "cn_state c2 \<noteq> CLOSED \<longrightarrow> cn_fd c2 = cn_fd c" and "no_file c1 \<or> cn_state c1 \<noteq> PARSING \<Longrightarrow> balanced c es' c2"
    by simp_all
qed

subsection \<open>Frames\<close>

lemma unlinked_conn_inv: "unlinked c = unlinked c' \<Longrightarrow> conn_inv c = conn_inv c'"
proof -
  have "conn_inv c = conn_inv (unlinked c)" for c by (simp add: unlinked_def)
  then show "unlinked c = unlinked c' \<Longrightarrow> conn_inv c = conn_inv c'" by metis
qed

lemma loop_frame [simp]:
  "conn_at x (el\<lparr>el_changelist := cl\<rparr>) = conn_at x el"
  "conn_at x (add_event ident flt flags ud el) = conn_at x el"
  "el_pool (add_event ident flt flags ud el) = el_pool el"
  "el_keepalive_head (add_event ident flt flags ud el) = el_keepalive_head el"
  "el_tls_ctx (add_event ident flt flags ud el) = el_tls_ctx el"
  "el_root_dir (add_event ident flt flags ud el) = el_root_dir el"
  "el_keep_alive_timeout (add_event ident flt flags ud el) = el_keep_alive_timeout el"
  by (simp_all add: conn_at_def add_event_def)

lemma ka_frame:
  assumes "ka_inv el" and "length (conns el') = length (conns el)" and "el_keepalive_head el' = el_keepalive_head el"
    and "\<And>x. same_links (conn_at x el) (conn_at x el')"
  shows "ka_inv el'" and "ka_list el' = ka_list el"
proof -
  from ka_invD [OF assms(1)] have rep: "ka_rep el (ka_list el)" and len: "length (conns el) = MAX_CONNECTIONS" by auto
  have seg_same: "seg (\<lambda>x. conn_at x el') n p cur xs q = seg (\<lambda>x. conn_at x el) n p cur xs q" for n p cur xs q
    using assms(4) by (intro seg_cong ballI) (simp add: same_links_def)
  have in_same: "cn_in_list (conn_at x el') = cn_in_list (conn_at x el)" for x
    using assms(4) [of x] by (simp add: same_links_def)
  have "ka_rep el' (ka_list el)"
    using rep unfolding ka_rep_def seg_same in_same assms(2,3) .
  then show "ka_inv el'" "ka_list el' = ka_list el" using len assms(2) ka_rep_list by (auto simp: ka_inv_def)
qed

lemma add_frame:
  assumes "ka_inv el" and "i < MAX_CONNECTIONS"
  shows "unlinked (conn_at x (add_to_keepalive_list i el)) = unlinked (conn_at x el)"
  using ka_invD [OF assms(1)] add_fields(6) [of el "ka_list el" i x] add_in_list [of i el] assms(2)
  by (cases "cn_in_list (conn_at i el)") simp_all

lemma remove_frame:
  assumes "ka_inv el" and "i < MAX_CONNECTIONS"
  shows "unlinked (conn_at x (remove_from_keepalive_list i el)) = unlinked (conn_at x el)"
    and "\<not> cn_in_list (conn_at i (remove_from_keepalive_list i el))"
proof -
  from ka_invD [OF assms(1)] have rep: "ka_rep el (ka_list el)" and len: "length (conns el) = MAX_CONNECTIONS" by auto
  have "unlinked (conn_at x (remove_from_keepalive_list i el)) = unlinked (conn_at x el) \<and>
      \<not> cn_in_list (conn_at i (remove_from_keepalive_list i el))"
  proof (cases "cn_in_list (conn_at i el)")
    case False
    then show ?thesis by (simp add: remove_not_in_list)
  next
    case True
    have i: "i < length (conns el)" using len assms(2) by simp
    note f = remove_fields [OF i True remove_ptrs [OF rep True i]]
    show ?thesis using f(3) [of i] f(6) [of x] by blast
  qed
  then show "unlinked (conn_at x (remove_from_keepalive_list i el)) = unlinked (conn_at x el)"
    and "\<not> cn_in_list (conn_at i (remove_from_keepalive_list i el))" by simp_all
qed

lemma keepalive_frame [simp]:
  "lent (el_pool (add_to_keepalive_list i el)) = lent (el_pool el)"
  "pool_inv (el_pool (add_to_keepalive_list i el)) = pool_inv (el_pool el)"
  "el_tls_ctx (add_to_keepalive_list i el) = el_tls_ctx el"
  "el_root_dir (add_to_keepalive_list i el) = el_root_dir el"
  "el_keep_alive_timeout (add_to_keepalive_list i el) = el_keep_alive_timeout el"
  "lent (el_pool (remove_from_keepalive_list i el)) = lent (el_pool el)"
  "pool_inv (el_pool (remove_from_keepalive_list i el)) = pool_inv (el_pool el)"
  "el_tls_ctx (remove_from_keepalive_list i el) = el_tls_ctx el"
  "el_root_dir (remove_from_keepalive_list i el) = el_root_dir el"
  "el_keep_alive_timeout (remove_from_keepalive_list i el) = el_keep_alive_timeout el"
  by (simp_all add: add_to_keepalive_list_def remove_from_keepalive_list_def Let_def split: option.split)

subsection \<open>The invariant\<close>

definition loop_base :: "event_loop \<Rightarrow> bool" where
  "loop_base el \<longleftrightarrow> pool_inv (el_pool el) \<and> ka_inv el \<and> (\<forall>i < MAX_CONNECTIONS. conn_inv (conn_at i el))
     \<and> (\<forall>i < MAX_CONNECTIONS. i \<notin> lent (el_pool el) \<longrightarrow> cn_state (conn_at i el) = CLOSED)"

text \<open>The list holds the idle connections, the slots in \<open>out\<close> aside.\<close>

definition listed :: "nat set \<Rightarrow> event_loop \<Rightarrow> bool" where
  "listed out el \<longleftrightarrow> (\<forall>i < MAX_CONNECTIONS. i \<notin> out \<longrightarrow> (i \<in> set (ka_list el) \<longleftrightarrow> cn_state (conn_at i el) = KEEP_ALIVE))"

definition loop_inv :: "event_loop \<Rightarrow> bool" where
  "loop_inv el \<longleftrightarrow> loop_base el \<and> listed {} el"

lemma event_loop_init_inv: "loop_inv (event_loop_init kq fs root t)"
proof -
  have "conn_at i (event_loop_init kq fs root t) = conn_default" if "i < MAX_CONNECTIONS" for i
    using that by (simp add: event_loop_init_def conn_at_def)
  moreover have "conn_inv conn_default"
    by (simp add: conn_default_def conn_inv_def conn_base_def buffers_ok_def response_init_def)
  moreover have "el_pool (event_loop_init kq fs root t) = pool_init conn_default" by (simp add: event_loop_init_def)
  ultimately show ?thesis
    by (simp add: loop_inv_def loop_base_def listed_def event_loop_init_ka pool_init_inv conn_default_def)
qed

lemma store_base:
  assumes "loop_base el" and "i \<in> lent (el_pool el)" and "conn_inv c" and "same_links (conn_at i el) c"
    and "listed out el"
  shows "loop_base (set_conn i c el)" and "listed (insert i out) (set_conn i c el)" and "ka_list (set_conn i c el) = ka_list el"
    and "i < MAX_CONNECTIONS" and "conn_at x (set_conn i c el) = (if x = i then c else conn_at x el)"
proof -
  show i: "i < MAX_CONNECTIONS" using assms(2) by (simp add: lent_def)
  have len: "length (conns el) = MAX_CONNECTIONS" using assms(1) ka_invD by (auto simp: loop_base_def)
  have at: "conn_at x (set_conn i c el) = (if x = i then c else conn_at x el)" for x
    using i len by (simp add: conn_at_set_conn)
  then show "conn_at x (set_conn i c el) = (if x = i then c else conn_at x el)" .
  have ka: "ka_inv el" using assms(1) by (simp add: loop_base_def)
  have links: "same_links (conn_at x el) (conn_at x (set_conn i c el))" for x
    using assms(4) by (simp add: at same_links_def)
  note fr = ka_frame [OF ka _ _ links]
  show l: "ka_list (set_conn i c el) = ka_list el" using fr(2) by simp
  show "loop_base (set_conn i c el)" using assms(1-3) fr(1) at by (simp add: loop_base_def)
  show "listed (insert i out) (set_conn i c el)" using assms(5) at l by (simp add: listed_def)
qed

subsection \<open>Destroying a connection\<close>

lemma conn_close_ok:
  assumes "conn_inv c" and "conn_close c = (c', es)"
  shows "conn_inv c'" and "same_links c c'" and "cn_state c' = CLOSED" and "balanced c es c'"
proof -
  have "conn_base c" using assms(1) by (simp add: conn_inv_def)
  then have "step_ok c (closing c)" by (rule closing_ok)
  then show "conn_inv c'" "same_links c c'" "balanced c es c'" using assms(2) by (simp_all add: closing_def step_ok.simps)
  show "cn_state c' = CLOSED" using assms(2) by (auto simp: conn_close_def close_file_def split: if_splits)
qed

text \<open>Taking a connection off the list, and giving the slot of a closed one back.\<close>

lemma remove_base:
  assumes "loop_base el" and "listed {i} el" and "i < MAX_CONNECTIONS"
  defines "el' \<equiv> remove_from_keepalive_list i el"
  shows "loop_base el'" and "listed {i} el'" and "ka_list el' = removeAll i (ka_list el)"
    and "unlinked (conn_at x el') = unlinked (conn_at x el)"
proof -
  have ka: "ka_inv el" using assms(1) by (simp add: loop_base_def)
  show un: "unlinked (conn_at x el') = unlinked (conn_at x el)" for x
    unfolding el'_def by (rule remove_frame(1) [OF ka assms(3)])
  have st: "cn_state (conn_at x el') = cn_state (conn_at x el)" for x using unlinked_fields [OF un [of x]] by blast
  have ka': "ka_inv el'" and l: "ka_list el' = removeAll i (ka_list el)"
    using remove_step [OF ka assms(3)] by (simp_all add: el'_def)
  show "ka_list el' = removeAll i (ka_list el)" by (rule l)
  have "pool_inv (el_pool el') = pool_inv (el_pool el)" "lent (el_pool el') = lent (el_pool el)" by (simp_all add: el'_def)
  then show "loop_base el'" using assms(1) ka' st unlinked_conn_inv [OF un] by (simp add: loop_base_def)
  show "listed {i} el'" using assms(2) st l by (simp add: listed_def)
qed

lemma give_back_ok:
  assumes "loop_base el" and "listed {i} el" and "i \<in> lent (el_pool el)"
    and "cn_state (conn_at i el) = CLOSED" and "i \<notin> set (ka_list el)"
  shows "\<exists>p. release i (el_pool el) = Inr p \<and> loop_inv (el\<lparr>el_pool := p\<rparr>) \<and> lent p = lent (el_pool el) - {i}
    \<and> ka_list (el\<lparr>el_pool := p\<rparr>) = ka_list el \<and> (\<forall>x. conn_at x (el\<lparr>el_pool := p\<rparr>) = conn_at x el)"
proof -
  have ka: "ka_inv el" and "pool_inv (el_pool el)" using assms(1) by (simp_all add: loop_base_def)
  then obtain p where p: "release i (el_pool el) = Inr p" "pool_inv p" "lent p = lent (el_pool el) - {i}"
    using release_step [OF _ assms(3)] by blast
  have at: "conn_at x (el\<lparr>el_pool := p\<rparr>) = conn_at x el" and cs: "conns (el\<lparr>el_pool := p\<rparr>) = conns el" for x
    using release_connections [OF p(1)] by (simp_all add: conn_at_def)
  have ka': "ka_inv (el\<lparr>el_pool := p\<rparr>)" "ka_list (el\<lparr>el_pool := p\<rparr>) = ka_list el"
    using ka_frame [OF ka, of "el\<lparr>el_pool := p\<rparr>"] at cs by (simp_all add: same_links_def)
  have "loop_base (el\<lparr>el_pool := p\<rparr>)" using assms(1,4) p(2,3) ka'(1) at by (auto simp: loop_base_def)
  moreover have "listed {} (el\<lparr>el_pool := p\<rparr>)" using assms(2,4,5) ka'(2) at by (auto simp: listed_def)
  ultimately show ?thesis using p(1,3) ka'(2) at by (auto simp: loop_inv_def)
qed

lemma loop_base_cong:
  assumes "el_pool el' = el_pool el" and "el_keepalive_head el' = el_keepalive_head el" and "loop_base el"
  shows "loop_base el'" and "ka_list el' = ka_list el" and "conn_at x el' = conn_at x el"
proof -
  show at: "conn_at x el' = conn_at x el" for x using assms(1) by (simp add: conn_at_def)
  have ka: "ka_inv el" using assms(3) by (simp add: loop_base_def)
  note fr = ka_frame [OF ka, of el']
  have "ka_inv el'" and l: "ka_list el' = ka_list el" using fr assms(1,2) at by (simp_all add: same_links_def)
  then show "loop_base el'" and "ka_list el' = ka_list el" using assms(1,3) at by (simp_all add: loop_base_def)
qed

text \<open>
  Destroying a connection that is lent closes it and everything it owns, takes it off the list
  and gives its slot back; no other connection changes but in its links.
\<close>

lemma destroy_connection_ok:
  assumes "loop_base el" and "listed {i} el" and "i \<in> lent (el_pool el)"
  shows "\<exists>el' es. destroy_connection i el = Inr (el', es) \<and> loop_inv el' \<and> lent (el_pool el') = lent (el_pool el) - {i}
    \<and> ka_list el' = removeAll i (ka_list el) \<and> cn_state (conn_at i el') = CLOSED
    \<and> balanced (conn_at i el) es (conn_at i el') \<and> el_keep_alive_timeout el' = el_keep_alive_timeout el
    \<and> (\<forall>x. x \<noteq> i \<longrightarrow> unlinked (conn_at x el') = unlinked (conn_at x el))"
proof -
  have i: "i < MAX_CONNECTIONS" using assms(3) by (simp add: lent_def)
  let ?el1 = "remove_from_keepalive_list i el"
  note rm = remove_base [OF assms(1,2) i]
  define el2 where "el2 = (if 0 \<le> cn_fd (conn_at i ?el1) then add_event (cn_fd (conn_at i ?el1)) EVFILT_WRITE {EV_DELETE} Null_Tag
    (add_event (cn_fd (conn_at i ?el1)) EVFILT_READ {EV_DELETE} Null_Tag ?el1) else ?el1)"
  have el2: "el_pool el2 = el_pool ?el1" "el_keepalive_head el2 = el_keepalive_head ?el1"
    "el_keep_alive_timeout el2 = el_keep_alive_timeout el" by (simp_all add: el2_def)
  note c2 = loop_base_cong [OF el2(1,2) rm(1)]
  obtain c es where cl: "conn_close (conn_at i ?el1) = (c, es)" by (cases "conn_close (conn_at i ?el1)")
  have "conn_inv (conn_at i ?el1)" using rm(1) i by (simp add: loop_base_def)
  note close = conn_close_ok [OF this cl]
  have lent2: "i \<in> lent (el_pool el2)" using assms(3) by (simp add: el2(1))
  have "listed {i} el2" using rm(2) c2(2,3) by (simp add: listed_def)
  note st = store_base [OF c2(1) lent2 close(1) _ this, unfolded c2(3), OF close(2)]
  have "i \<in> lent (el_pool (set_conn i c el2))" "i \<notin> set (ka_list (set_conn i c el2))"
    using lent2 st(3) c2(2) rm(3) by simp_all
  from give_back_ok [OF st(1) _ this(1) _ this(2)] st(2,5) close(3) obtain p where
    p: "release i (el_pool (set_conn i c el2)) = Inr p" "loop_inv ((set_conn i c el2)\<lparr>el_pool := p\<rparr>)"
      "lent p = lent (el_pool el) - {i}" "ka_list ((set_conn i c el2)\<lparr>el_pool := p\<rparr>) = removeAll i (ka_list el)"
      "\<forall>x. conn_at x ((set_conn i c el2)\<lparr>el_pool := p\<rparr>) = (if x = i then c else conn_at x ?el1)"
    using c2(2,3) rm(3) st(3) by (auto simp: el2(1))
  have "destroy_connection i el = Inr ((set_conn i c el2)\<lparr>el_pool := p\<rparr>, es)"
    using cl p(1) unfolding destroy_connection_def Let_def el2_def [symmetric] c2(3) by simp
  moreover have "balanced (conn_at i el) es c"
  proof -
    have "owned (conn_at i ?el1) = owned (conn_at i el)" "owned_ssl (conn_at i ?el1) = owned_ssl (conn_at i el)"
      using unlinked_fields [OF rm(4) [of i]] by (simp_all add: owned_def owned_ssl_def)
    then show ?thesis using close(4) by (simp add: balanced_def)
  qed
  ultimately show ?thesis using p(2-5) close(3) rm(4) el2(3)
    by (intro exI [of _ "(set_conn i c el2)\<lparr>el_pool := p\<rparr>"] exI [of _ es]) simp
qed

end
