(* ===== verification/Loop_Safety.thy ===== *)
theory Loop_Safety
  imports Loop_Invariant
begin

text \<open>
  The handlers of the event loop keep its invariant: serving a connection, accepting, the walk of
  the timer, the dispatch of one event and a whole run of \<open>run\<close>.
\<close>

subsection \<open>The list follows the state\<close>

lemma sync_keepalive_ok:
  assumes "loop_base el" and "listed {i} el" and "i < MAX_CONNECTIONS"
    and "i \<in> set (ka_list el) \<longleftrightarrow> prev = KEEP_ALIVE"
  defines "el' \<equiv> sync_keepalive prev i el"
  shows "loop_inv el'" and "lent (el_pool el') = lent (el_pool el)"
    and "unlinked (conn_at x el') = unlinked (conn_at x el)"
    and "el_keep_alive_timeout el' = el_keep_alive_timeout el"
proof -
  have ka: "ka_inv el" using assms(1) by (simp add: loop_base_def)
  show un: "unlinked (conn_at x el') = unlinked (conn_at x el)" for x
    using add_frame [OF ka assms(3)] remove_frame [OF ka assms(3)] by (simp add: el'_def sync_keepalive_def Let_def)
  show le: "lent (el_pool el') = lent (el_pool el)" "el_keep_alive_timeout el' = el_keep_alive_timeout el"
    by (simp_all add: el'_def sync_keepalive_def Let_def)
  have pl: "pool_inv (el_pool el') = pool_inv (el_pool el)"
    by (simp add: el'_def sync_keepalive_def Let_def)
  have ka': "ka_inv el'" "set (ka_list el') - {i} = set (ka_list el) - {i}"
    "i \<in> set (ka_list el') \<longleftrightarrow> cn_state (conn_at i el) = KEEP_ALIVE"
    using add_step [OF ka assms(3)] remove_step [OF ka assms(3)] ka assms(4)
    by (auto simp: el'_def sync_keepalive_def Let_def)
  have st: "cn_state (conn_at x el') = cn_state (conn_at x el)" for x
    using unlinked_fields [OF un [of x]] by blast
  have "loop_base el'" using assms(1) ka'(1) le st pl unlinked_conn_inv [OF un] by (simp add: loop_base_def)
  moreover have "listed {} el'"
  proof -
    have "x \<in> set (ka_list el') \<longleftrightarrow> x \<in> set (ka_list el)" if "x \<noteq> i" for x using ka'(2) that by blast
    then show ?thesis using assms(2) ka'(3) st unfolding listed_def by (metis singletonD)
  qed
  ultimately show "loop_inv el'" by (simp add: loop_inv_def)
qed

lemma update_events_frame [simp]:
  "el_pool (update_events i w el) = el_pool el"
  "el_keepalive_head (update_events i w el) = el_keepalive_head el"
  "el_keep_alive_timeout (update_events i w el) = el_keep_alive_timeout el"
  "el_tls_ctx (update_events i w el) = el_tls_ctx el"
  "conn_at x (update_events i w el) = conn_at x el"
  by (simp_all add: update_events_def Let_def split: want.split)

text \<open>Only the pool and the list matter for the invariant.\<close>

lemma loop_inv_cong:
  assumes "el_pool el' = el_pool el" and "el_keepalive_head el' = el_keepalive_head el" and "loop_inv el"
  shows "loop_inv el'" and "ka_list el' = ka_list el"
proof -
  have base: "loop_base el" "listed {} el" using assms(3) by (simp_all add: loop_inv_def)
  note c = loop_base_cong [OF assms(1,2) base(1)]
  show "ka_list el' = ka_list el" by (rule c(2))
  show "loop_inv el'" using base(2) c by (simp add: loop_inv_def listed_def)
qed

subsection \<open>Serving a connection\<close>

text \<open>
  The only undefined behaviour of a request is the overflow of a number in its \<open>Range\<close> header.
\<close>

lemma digit_loop_Inl: "digit_loop acc s = Inl u \<Longrightarrow> u = Signed_Overflow"
  by (induction acc s rule: digit_loop.induct) (auto split: if_splits sum.splits)

lemma parse_range_Inl: "parse_range req n = Inl u \<Longrightarrow> u = Signed_Overflow"
  by (auto simp: parse_range_def suffix_range_def interval_range_def Let_def dest: digit_loop_Inl
      split: if_splits option.splits sum.splits prod.splits)

lemma prepare_response_Inl: "prepare_response si root c = Inl u \<Longrightarrow> u = Signed_Overflow"
  by (auto simp: prepare_response_def Let_def dest: parse_range_Inl
      split: if_splits option.splits sum.splits file_error.splits)

lemma respond_Inl: "respond li root step = Inl u \<Longrightarrow> u = Signed_Overflow"
  by (auto simp: respond_def dest: prepare_response_Inl split: prod.splits if_splits sum.splits)

text \<open>What holds after an event on the slot \<open>i\<close>.\<close>

definition served :: "nat \<Rightarrow> event_loop \<Rightarrow> event_loop \<Rightarrow> bool" where
  "served i el el' \<longleftrightarrow> loop_inv el'
     \<and> (lent (el_pool el') = lent (el_pool el)
        \<or> lent (el_pool el') = lent (el_pool el) - {i} \<and> cn_state (conn_at i el') = CLOSED)
     \<and> (\<forall>x. x \<noteq> i \<longrightarrow> unlinked (conn_at x el') = unlinked (conn_at x el))"

lemma destroy_served:
  assumes "loop_inv el" and "i \<in> lent (el_pool el)" and "conn_inv c" and "same_links (conn_at i el) c"
  shows "\<exists>el' es. destroy_connection i (set_conn i c el) = Inr (el', es) \<and> served i el el'"
proof -
  have base: "loop_base el" "listed {} el" using assms(1) by (simp_all add: loop_inv_def)
  note st = store_base [OF base(1) assms(2-4) base(2)]
  have "i \<in> lent (el_pool (set_conn i c el))" using assms(2) by simp
  from destroy_connection_ok [OF st(1,2) this] obtain el' es where
    d: "destroy_connection i (set_conn i c el) = Inr (el', es)" "loop_inv el'"
      "lent (el_pool el') = lent (el_pool el) - {i}" "cn_state (conn_at i el') = CLOSED"
      "\<forall>x. x \<noteq> i \<longrightarrow> unlinked (conn_at x el') = unlinked (conn_at x (set_conn i c el))" by auto
  have "served i el el'" using d(2-5) st(5) by (simp add: served_def)
  then show ?thesis using d(1) by blast
qed

lemma store_sync_served:
  assumes "loop_inv el" and "i \<in> lent (el_pool el)" and "conn_inv c" and "same_links (conn_at i el) c"
  shows "served i el (update_events i w (sync_keepalive (cn_state (conn_at i el)) i (set_conn i c el)))"
proof -
  have base: "loop_base el" "listed {} el" using assms(1) by (simp_all add: loop_inv_def)
  note st = store_base [OF base(1) assms(2-4) base(2)]
  have "i \<in> set (ka_list (set_conn i c el)) \<longleftrightarrow> cn_state (conn_at i el) = KEEP_ALIVE"
    using base(2) st(3,4) by (simp add: listed_def)
  note sy = sync_keepalive_ok [OF st(1,2,4) this]
  have "loop_inv (update_events i w (sync_keepalive (cn_state (conn_at i el)) i (set_conn i c el)))"
    by (rule loop_inv_cong(1) [OF _ _ sy(1)]) simp_all
  then show ?thesis using sy(2,3) st(5) by (simp add: served_def)
qed

text \<open>
  An event on a slot of the pool, lent or not: the invariant holds again, the other connections
  change at most in their links, and the slot is given back only when the connection was closed.
\<close>

lemma process_connection_ok:
  assumes "loop_inv el" and "i < MAX_CONNECTIONS" and "io_ok (li_io li)"
  shows "process_connection li i el = Inl Signed_Overflow
    \<or> (\<exists>el' es. process_connection li i el = Inr (el', es) \<and> served i el el')"
proof (cases "cn_state (conn_at i el) = CLOSED")
  case True
  then show ?thesis using assms(1) by (simp add: process_connection_def served_def)
next
  case False
  let ?c = "conn_at i el" and ?tls = "el_tls_ctx el"
  have inv: "conn_inv ?c" and lent: "i \<in> lent (el_pool el)"
    using assms(1,2) False by (auto simp: loop_inv_def loop_base_def)
  obtain w c es where step: "inject_ssl li ?tls (conn_action (li_io li) (?tls \<noteq> None) ?c) = (w, c, es)"
    by (cases "inject_ssl li ?tls (conn_action (li_io li) (?tls \<noteq> None) ?c)")
  have ok: "step_ok ?c (w, c, es)"
    using inject_ssl_ok conn_action_ok [OF inv assms(3), of "?tls \<noteq> None"] step by (metis prod_cases3)
  then have c: "conn_inv c" "same_links ?c c" by (simp_all add: step_ok.simps)
  show ?thesis
  proof (cases "cn_state c = CLOSED")
    case True
    then show ?thesis using destroy_served [OF assms(1) lent c] False step
      by (auto simp: process_connection_def Let_def)
  next
    case still_open: False
    obtain w1 c1 es1 where ip: "inline_parse (li_io li) (w, c, es) = (w1, c1, es1)"
      by (cases "inline_parse (li_io li) (w, c, es)")
    have ok1: "step_ok ?c (w1, c1, es1)" using inline_parse_ok [OF ok, of "li_io li"] ip by simp
    have open1: "cn_state c1 \<noteq> CLOSED" using ip still_open
      by (auto simp: inline_parse_def do_parse_def error_response_def prepare_headers_def waiting_def Let_def
          split: prod.splits if_splits)
    show ?thesis
    proof (cases "respond li (el_root_dir el) (w1, c1, es1)")
      case (Inl u)
      then show ?thesis using False step still_open ip respond_Inl [OF Inl]
        by (simp add: process_connection_def Let_def)
    next
      case (Inr r)
      obtain w2 c2 es2 where r: "r = (w2, c2, es2)" by (cases r)
      note rs = respond_ok [OF ok1 open1 assms(3) Inr [unfolded r]]
      show ?thesis using store_sync_served [OF assms(1) lent rs(1,2), of w2] False step still_open ip Inr r
        by (simp add: process_connection_def Let_def)
    qed
  qed
qed

subsection \<open>Accepting\<close>

lemma unlisted_frame:
  assumes "ka_inv el" and "i < MAX_CONNECTIONS" and "i \<notin> set (ka_list el)" and "\<not> cn_in_list c"
  shows "ka_inv (set_conn i c el)" and "ka_list (set_conn i c el) = ka_list el"
proof -
  from ka_invD [OF assms(1)] have rep: "ka_rep el (ka_list el)" and len: "length (conns el) = MAX_CONNECTIONS" by auto
  have at: "conn_at x (set_conn i c el) = (if x = i then c else conn_at x el)" for x
    using assms(2) len by (simp add: conn_at_set_conn)
  have "seg (\<lambda>x. conn_at x (set_conn i c el)) n p cur (ka_list el) q = seg (\<lambda>x. conn_at x el) n p cur (ka_list el) q"
    for n p cur q using assms(3) at by (intro seg_cong) auto
  then have "ka_rep (set_conn i c el) (ka_list el)"
    using rep assms(3,4) by (simp add: ka_rep_def at)
  then show "ka_inv (set_conn i c el)" "ka_list (set_conn i c el) = ka_list el"
    using len ka_rep_list by (auto simp: ka_inv_def)
qed

lemma conn_init_inv:
  assumes "conn_inv c" and "cn_state c = CLOSED" and "0 \<le> fd"
  shows "conn_inv (conn_init now fd root t c)"
  using assms by (simp add: conn_init_def conn_inv_defs request_reset_def response_reset_def request_init_def response_init_def)

text \<open>A slot taken from the pool gets a connection that is not idle.\<close>

lemma install_ok:
  assumes "loop_inv el" and "acquire (el_pool el) = Some (j, p)"
    and "conn_inv c" and "cn_state c \<noteq> KEEP_ALIVE" and "\<not> cn_in_list c"
  defines "el' \<equiv> set_conn j c (el\<lparr>el_pool := p\<rparr>)"
  shows "loop_inv el'" and "lent (el_pool el') = insert j (lent (el_pool el))"
    and "conn_at x el' = (if x = j then c else conn_at x el)"
proof -
  have base: "loop_base el" "listed {} el" using assms(1) by (simp_all add: loop_inv_def)
  have pool: "pool_inv (el_pool el)" and ka: "ka_inv el" using base(1) by (simp_all add: loop_base_def)
  from acquire_step [OF pool assms(2)] have p: "pool_inv p" "j < MAX_CONNECTIONS" "j \<notin> lent (el_pool el)"
    "lent p = insert j (lent (el_pool el))" by blast+
  let ?el1 = "el\<lparr>el_pool := p\<rparr>"
  have at1: "conn_at x ?el1 = conn_at x el" and cs: "conns ?el1 = conns el" for x
    using acquire_connections [OF assms(2)] by (simp_all add: conn_at_def)
  have ka1: "ka_inv ?el1" "ka_list ?el1 = ka_list el"
    using ka_frame [OF ka, of ?el1] at1 cs by (simp_all add: same_links_def)
  have free: "j \<notin> set (ka_list ?el1)" using base p(2,3) ka1(2) by (simp add: listed_def loop_base_def)
  note ka2 = unlisted_frame [OF ka1(1) p(2) free assms(5), folded el'_def]
  have len: "j < length (conns ?el1)" using ka_invD [OF ka1(1)] p(2) by simp
  have at2: "conn_at x el' = (if x = j then c else conn_at x el)" for x
    using conn_at_set_conn [OF len] at1 by (simp add: el'_def)
  then show "conn_at x el' = (if x = j then c else conn_at x el)" .
  show l: "lent (el_pool el') = insert j (lent (el_pool el))" by (simp add: el'_def p(4))
  have "pool_inv (el_pool el')" using p(1) by (simp add: el'_def)
  then have "loop_base el'" using base(1) ka2(1) assms(3) l by (simp add: loop_base_def at2)
  moreover have "listed {} el'" using base(2) ka1(2) ka2(2) free assms(4) by (auto simp: listed_def at2)
  ultimately show "loop_inv el'" by (simp add: loop_inv_def)
qed

text \<open>
  A new connection takes a free slot, starts from a fresh state whatever the slot held before, and
  leaves every other connection as it is.
\<close>

lemma create_connection_ok:
  assumes "loop_inv el" and "0 \<le> fd" and "create_connection now fd el = (r, el')"
  shows "loop_inv el'" and "r = None \<Longrightarrow> el' = el \<and> lent (el_pool el) = {..<MAX_CONNECTIONS}"
    and "r = Some i \<Longrightarrow> i \<notin> lent (el_pool el) \<and> lent (el_pool el') = insert i (lent (el_pool el))
      \<and> cn_state (conn_at i el') = PROTO_DETECT \<and> cn_fd (conn_at i el') = fd \<and> owned (conn_at i el') = {#fd#}
      \<and> owned_ssl (conn_at i el') = {#} \<and> (\<forall>x. x \<noteq> i \<longrightarrow> conn_at x el' = conn_at x el)"
proof -
  have base: "loop_base el" and pool: "pool_inv (el_pool el)" using assms(1) by (simp_all add: loop_inv_def loop_base_def)
  have "loop_inv el' \<and> (r = None \<longrightarrow> el' = el \<and> lent (el_pool el) = {..<MAX_CONNECTIONS})
    \<and> (r = Some i \<longrightarrow> i \<notin> lent (el_pool el) \<and> lent (el_pool el') = insert i (lent (el_pool el))
      \<and> cn_state (conn_at i el') = PROTO_DETECT \<and> cn_fd (conn_at i el') = fd \<and> owned (conn_at i el') = {#fd#}
      \<and> owned_ssl (conn_at i el') = {#} \<and> (\<forall>x. x \<noteq> i \<longrightarrow> conn_at x el' = conn_at x el))"
  proof (cases "acquire (el_pool el)")
    case None
    then show ?thesis using assms(1,3) acquire_None_iff [OF pool] by (simp add: create_connection_def)
  next
    case (Some s)
    obtain j p where s: "acquire (el_pool el) = Some (j, p)" using Some by (cases s) simp
    have j: "j < MAX_CONNECTIONS" "j \<notin> lent (el_pool el)" using acquire_step [OF pool s] by blast+
    define c where "c = (conn_init now fd (el_root_dir el) (el_keep_alive_timeout el) (conn_at j el))\<lparr>cn_tls_available := (el_tls_ctx el \<noteq> None)\<rparr>"
    have "conn_inv (conn_at j el)" "cn_state (conn_at j el) = CLOSED" using base j by (simp_all add: loop_base_def)
    then have "conn_inv c" unfolding c_def conn_inv_updates by (rule conn_init_inv [OF _ _ assms(2)])
    then have c: "conn_inv c" "cn_state c = PROTO_DETECT" "cn_fd c = fd" "\<not> cn_in_list c" "owned c = {#fd#}" "owned_ssl c = {#}"
      using assms(2) by (simp_all add: c_def conn_init_def owned_def owned_ssl_def)
    have "cn_state c \<noteq> KEEP_ALIVE" by (simp add: c(2))
    note new = install_ok [OF assms(1) s c(1) this c(4)]
    have "conn_at j (el\<lparr>el_pool := p\<rparr>) = conn_at j el" using acquire_connections [OF s] by (simp add: conn_at_def)
    then have r: "r = Some j" "el' = add_event fd EVFILT_READ {EV_ADD, EV_ENABLE} (Conn j) (set_conn j c (el\<lparr>el_pool := p\<rparr>))"
      using assms(3) s by (simp_all add: create_connection_def Let_def c_def)
    have "loop_inv el'" unfolding r(2) by (rule loop_inv_cong(1) [OF _ _ new(1)]) simp_all
    then show ?thesis using r j(2) c new(2,3) by auto
  qed
  then show "loop_inv el'" and "r = None \<Longrightarrow> el' = el \<and> lent (el_pool el) = {..<MAX_CONNECTIONS}"
    and "r = Some i \<Longrightarrow> i \<notin> lent (el_pool el) \<and> lent (el_pool el') = insert i (lent (el_pool el))
      \<and> cn_state (conn_at i el') = PROTO_DETECT \<and> cn_fd (conn_at i el') = fd \<and> owned (conn_at i el') = {#fd#}
      \<and> owned_ssl (conn_at i el') = {#} \<and> (\<forall>x. x \<noteq> i \<longrightarrow> conn_at x el' = conn_at x el)" by blast+
qed

lemma diff_new:
  assumes "M = insert i L" and "i \<notin> L" and "M \<subseteq> N"
  shows "N - L = insert i (N - M)" and "i \<notin> N - M" and "L \<subseteq> N"
  using assms by auto

text \<open>
  Accepting keeps what is there; every descriptor \<open>accept\<close> returned is afterwards owned by a new
  connection or has been closed, and one is closed only when the pool is full.
\<close>

lemma accept_loop_ok:
  assumes "loop_inv el" and "accept_loop now fds el = (el', es)"
  shows "loop_inv el' \<and> lent (el_pool el) \<subseteq> lent (el_pool el')
    \<and> (\<forall>x \<in> lent (el_pool el). conn_at x el' = conn_at x el)
    \<and> mset (opened_fds es) = mset (closed_fds es) + (\<Sum>x \<in> lent (el_pool el') - lent (el_pool el). owned (conn_at x el'))
    \<and> (closed_fds es \<noteq> [] \<longrightarrow> lent (el_pool el') = {..<MAX_CONNECTIONS})"
  using assms
proof (induction fds arbitrary: el es)
  case (Cons fd fds)
  show ?case
  proof (cases "fd < 0")
    case False
    then have fd: "0 \<le> fd" by simp
    obtain r el1 where cr: "create_connection now fd el = (r, el1)" by (cases "create_connection now fd el")
    note ok = create_connection_ok [OF Cons.prems(1) fd cr]
    show ?thesis
    proof (cases r)
      case None
      note full = ok(2) [OF None]
      have "el' = el" "es = [E_Accept fd, E_Close fd]" using Cons.prems(2) False cr None full by simp_all
      then show ?thesis using Cons.prems(1) full by simp
    next
      case (Some i)
      note new = ok(3) [OF Some]
      obtain es1 where al: "accept_loop now fds el1 = (el', es1)" and es: "es = E_Accept fd # es1"
        using Cons.prems(2) False cr Some by (auto split: prod.splits)
      note ih = Cons.IH [OF ok(1) al]
      have l: "lent (el_pool el1) = insert i (lent (el_pool el))" "i \<notin> lent (el_pool el)"
        "lent (el_pool el1) \<subseteq> lent (el_pool el')" using ih new by - (elim conjE, assumption)+
      have split: "lent (el_pool el') - lent (el_pool el) = insert i (lent (el_pool el') - lent (el_pool el1))"
        and notin: "i \<notin> lent (el_pool el') - lent (el_pool el1)" and sub: "lent (el_pool el) \<subseteq> lent (el_pool el')"
        using diff_new [OF l] by simp_all
      have fin: "finite (lent (el_pool el') - lent (el_pool el1))" by simp
      have at: "conn_at x el' = conn_at x el1" if "x \<in> lent (el_pool el1)" for x using ih that by blast
      have oi: "owned (conn_at i el') = {#fd#}" using at [of i] l(1) new by simp
      have same: "\<forall>x \<in> lent (el_pool el). conn_at x el' = conn_at x el" using at l new by (metis insertI2)
      have "(\<Sum>x \<in> lent (el_pool el') - lent (el_pool el). owned (conn_at x el'))
          = {#fd#} + (\<Sum>x \<in> lent (el_pool el') - lent (el_pool el1). owned (conn_at x el'))"
        unfolding split using sum.insert [OF fin notin, of "\<lambda>x. owned (conn_at x el')"] oi by simp
      then show ?thesis using ih es same sub by simp
    qed
  qed (use Cons.prems in simp)
qed simp

subsection \<open>The timer\<close>

lemma conn_close_opens_nothing: "conn_close c = (c', es) \<Longrightarrow> opened_fds es = []"
  by (auto simp: conn_close_def close_file_def split: if_splits option.splits)

lemma destroy_connection_opens_nothing: "destroy_connection i el = Inr (el', es) \<Longrightarrow> opened_fds es = []"
  using conn_close_opens_nothing by (auto simp: destroy_connection_def Let_def split: prod.splits sum.splits)

lemma unlinked_owned:
  assumes "unlinked c = unlinked c'"
  shows "owned c = owned c'" and "is_expired now t c = is_expired now t c'" and "cn_state c = cn_state c'"
  using unlinked_fields [OF assms] by (simp_all add: owned_def is_expired_def)

abbreviation first_of :: "nat list \<Rightarrow> nat option" where
  "first_of xs \<equiv> (if xs = [] then None else Some (hd xs))"

lemma ka_next:
  assumes "ka_inv el" and "ka_list el = ys @ i # xs"
  shows "cn_next (conn_at i el) = first_of xs"
proof -
  have "seg (\<lambda>x. conn_at x el) (length (conns el)) None (el_keepalive_head el) (ys @ i # xs) None"
    using conjunct2 [OF ka_invD [OF assms(1)]] unfolding assms(2) ka_rep_def by blast
  then obtain p where "seg (\<lambda>x. conn_at x el) (length (conns el)) p (cn_next (conn_at i el)) xs None"
    unfolding seg_append by auto
  then show ?thesis by (rule seg_head)
qed

lemma ka_head:
  assumes "ka_inv el"
  shows "el_keepalive_head el = first_of (ka_list el)"
proof -
  have "seg (\<lambda>x. conn_at x el) (length (conns el)) None (el_keepalive_head el) (ka_list el) None"
    using conjunct2 [OF ka_invD [OF assms]] unfolding ka_rep_def by blast
  then show ?thesis by (rule seg_head)
qed

lemma destroy_listed:
  assumes "loop_inv el" and "ka_list el = ys @ i # xs"
  shows "\<exists>el' es. destroy_connection i el = Inr (el', es) \<and> loop_inv el' \<and> ka_list el' = ys @ xs
    \<and> lent (el_pool el') = lent (el_pool el) - {i} \<and> opened_fds es = [] \<and> mset (closed_fds es) = owned (conn_at i el)
    \<and> i \<notin> set (ys @ xs) \<and> (\<forall>x. x \<noteq> i \<longrightarrow> unlinked (conn_at x el') = unlinked (conn_at x el))"
proof -
  have base: "loop_base el" "listed {} el" using assms(1) by (simp_all add: loop_inv_def)
  have ka: "ka_inv el" using base(1) by (simp add: loop_base_def)
  from keepalive.elems_ok [OF ka] have d: "distinct (ys @ i # xs)" "i < MAX_CONNECTIONS" by (auto simp: assms(2))
  have "cn_state (conn_at i el) = KEEP_ALIVE" using base(2) d(2) by (auto simp: listed_def assms(2))
  then have i: "i \<in> lent (el_pool el)" using base(1) d(2) by (auto simp: loop_base_def)
  have "listed {i} el" using base(2) by (simp add: listed_def)
  from destroy_connection_ok [OF base(1) this i] obtain el' es where
    r: "destroy_connection i el = Inr (el', es)" "loop_inv el'" "lent (el_pool el') = lent (el_pool el) - {i}"
      "ka_list el' = removeAll i (ka_list el)" "cn_state (conn_at i el') = CLOSED"
      "balanced (conn_at i el) es (conn_at i el')"
      "\<forall>x. x \<noteq> i \<longrightarrow> unlinked (conn_at x el') = unlinked (conn_at x el)" by blast
  have "conn_inv (conn_at i el')" using r(2) d(2) by (simp add: loop_inv_def loop_base_def)
  then have "owned (conn_at i el') = {#}" using r(5) by (simp add: conn_inv_def conn_base_def owned_def)
  then have "mset (closed_fds es) = owned (conn_at i el)"
    using r(6) destroy_connection_opens_nothing [OF r(1)] by (simp add: balanced_def)
  moreover have "ka_list el' = ys @ xs" using r(4) d(1) by (simp add: assms(2) removeAll_id)
  moreover have "i \<notin> set (ys @ xs)" using d(1) by simp
  ultimately show ?thesis using r destroy_connection_opens_nothing [OF r(1)] by blast
qed

text \<open>The walk visits the rest of the list, whatever it removes from it.\<close>

lemma timer_loop_ok:
  assumes "loop_inv el" and "ka_list el = ys @ xs"
  shows "\<exists>el' es'. timer_loop now t (first_of xs) el es = Some (Inr (el', es @ es')) \<and> loop_inv el'
    \<and> ka_list el' = ys @ filter (\<lambda>i. \<not> is_expired now t (conn_at i el)) xs
    \<and> lent (el_pool el') = lent (el_pool el) - set (filter (\<lambda>i. is_expired now t (conn_at i el)) xs)
    \<and> opened_fds es' = []
    \<and> mset (closed_fds es') = (\<Sum>i \<leftarrow> filter (\<lambda>i. is_expired now t (conn_at i el)) xs. owned (conn_at i el))
    \<and> (\<forall>x. x \<notin> set (filter (\<lambda>i. is_expired now t (conn_at i el)) xs) \<longrightarrow> unlinked (conn_at x el') = unlinked (conn_at x el))"
  using assms
proof (induction xs arbitrary: el ys es)
  case Nil
  then show ?case by (simp add: timer_loop.simps)
next
  case (Cons i xs)
  have ka: "ka_inv el" using Cons.prems(1) by (simp add: loop_inv_def loop_base_def)
  note nxt = ka_next [OF ka Cons.prems(2)]
  show ?case
  proof (cases "is_expired now t (conn_at i el)")
    case False
    then have "timer_loop now t (first_of (i # xs)) el es = timer_loop now t (first_of xs) el es"
      using nxt by (simp add: timer_loop.simps [of now t "Some i"])
    then show ?thesis using Cons.IH [of el "ys @ [i]" es] Cons.prems False by auto
  next
    case True
    obtain el1 es1 where d: "destroy_connection i el = Inr (el1, es1)" "loop_inv el1" "ka_list el1 = ys @ xs"
      "lent (el_pool el1) = lent (el_pool el) - {i}" "opened_fds es1 = []" "mset (closed_fds es1) = owned (conn_at i el)"
      "i \<notin> set (ys @ xs)" and same: "\<forall>x. x \<noteq> i \<longrightarrow> unlinked (conn_at x el1) = unlinked (conn_at x el)"
      using destroy_listed [OF Cons.prems] by blast
    have step: "timer_loop now t (first_of (i # xs)) el es = timer_loop now t (first_of xs) el1 (es @ es1)"
      using nxt True d(1) by (simp add: timer_loop.simps [of now t "Some i"])
    have eq: "is_expired now t (conn_at x el1) = is_expired now t (conn_at x el) \<and> owned (conn_at x el1) = owned (conn_at x el)"
      if "x \<in> set xs" for x
    proof -
      have "x \<noteq> i" using that d(7) by auto
      then have "unlinked (conn_at x el1) = unlinked (conn_at x el)" using same by blast
      then show ?thesis using unlinked_owned(1,2) by blast
    qed
    have f: "filter (\<lambda>i. is_expired now t (conn_at i el1)) xs = filter (\<lambda>i. is_expired now t (conn_at i el)) xs"
      "filter (\<lambda>i. \<not> is_expired now t (conn_at i el1)) xs = filter (\<lambda>i. \<not> is_expired now t (conn_at i el)) xs"
      using eq by (auto intro!: filter_cong)
    have s: "(\<Sum>i \<leftarrow> filter (\<lambda>i. is_expired now t (conn_at i el)) xs. owned (conn_at i el1))
        = (\<Sum>i \<leftarrow> filter (\<lambda>i. is_expired now t (conn_at i el)) xs. owned (conn_at i el))"
      using eq by (intro arg_cong [where f = sum_list] map_cong) auto
    obtain el' es' where ih: "timer_loop now t (first_of xs) el1 (es @ es1) = Some (Inr (el', (es @ es1) @ es'))" "loop_inv el'"
      "ka_list el' = ys @ filter (\<lambda>i. \<not> is_expired now t (conn_at i el)) xs"
      "lent (el_pool el') = lent (el_pool el1) - set (filter (\<lambda>i. is_expired now t (conn_at i el)) xs)" "opened_fds es' = []"
      "mset (closed_fds es') = (\<Sum>i \<leftarrow> filter (\<lambda>i. is_expired now t (conn_at i el)) xs. owned (conn_at i el))"
      "\<forall>x. x \<notin> set (filter (\<lambda>i. is_expired now t (conn_at i el)) xs) \<longrightarrow> unlinked (conn_at x el') = unlinked (conn_at x el1)"
      using Cons.IH [OF d(2,3), of "es @ es1"] unfolding f s by blast
    show ?thesis unfolding step
      supply split_paired_Ex [simp del]
      using ih d(4-6) True same by (intro exI [of _ el'] exI [of _ "es1 @ es'"]) auto
  qed
qed

end
