(* ===== verification/Loop_Run.thy ===== *)
theory Loop_Run
  imports Loop_Safety
begin

text \<open>
  Whole runs of the event loop.  An event is admissible when it names a slot of the pool and, if
  it reports an error or the end of the stream, one that is lent; then its handler
  always returns, keeps the invariant, and the only undefined behaviour it can meet is the
  overflow of a number in a \<open>Range\<close> header.
\<close>

subsection \<open>One event\<close>

definition event_ok :: "event_loop \<Rightarrow> loop_io \<Rightarrow> kevent \<Rightarrow> bool" where
  "event_ok el li ev \<longleftrightarrow> io_ok (li_io li) \<and>
     (case ke_udata ev of
        Conn i \<Rightarrow> i < MAX_CONNECTIONS \<and> (EV_ERROR \<in> ke_flags ev \<or> EV_EOF \<in> ke_flags ev \<longrightarrow> i \<in> lent (el_pool el))
      | Null_Tag \<Rightarrow> EV_ERROR \<in> ke_flags ev \<or> EV_EOF \<in> ke_flags ev
      | _ \<Rightarrow> True)"

abbreviation overdue :: "loop_io \<Rightarrow> event_loop \<Rightarrow> nat \<Rightarrow> bool" where
  "overdue li el i \<equiv> is_expired (io_now (li_io li)) (el_keep_alive_timeout el * 1000000000) (conn_at i el)"

lemma handle_timer_ok:
  assumes "loop_inv el"
  shows "\<exists>el' es. handle_timer li el = Some (Inr (el', es)) \<and> loop_inv el'
    \<and> ka_list el' = filter (\<lambda>i. \<not> overdue li el i) (ka_list el)
    \<and> lent (el_pool el') = lent (el_pool el) - set (filter (overdue li el) (ka_list el)) \<and> opened_fds es = []
    \<and> mset (closed_fds es) = (\<Sum>i \<leftarrow> filter (overdue li el) (ka_list el). owned (conn_at i el))
    \<and> (\<forall>x. x \<notin> set (filter (overdue li el) (ka_list el)) \<longrightarrow> unlinked (conn_at x el') = unlinked (conn_at x el))"
proof -
  have ka: "ka_inv el" using assms by (simp add: loop_inv_def loop_base_def)
  have "ka_list el = [] @ ka_list el" by simp
  from timer_loop_ok [OF assms this, of "io_now (li_io li)" "el_keep_alive_timeout el * 1000000000" "[]"]
  show ?thesis unfolding handle_timer_def ka_head [OF ka] append_Nil by blast
qed

lemma dispatch_ok:
  assumes "loop_inv el" and "event_ok el li ev"
  shows "dispatch li ev el = Some (Inl Signed_Overflow)
    \<or> (\<exists>el' es. dispatch li ev el = Some (Inr (el', es)) \<and> loop_inv el')"
proof (cases "EV_ERROR \<in> ke_flags ev \<or> EV_EOF \<in> ke_flags ev")
  case True
  show ?thesis
  proof (cases "ke_udata ev")
    case (Conn i)
    then have i: "i \<in> lent (el_pool el)" using assms(2) True by (simp add: event_ok_def)
    have "loop_base el" "listed {i} el" using assms(1) by (simp_all add: loop_inv_def listed_def)
    then show ?thesis using destroy_connection_ok [of el i] i True Conn by (auto simp: dispatch_def)
  qed (use assms(1) True in \<open>simp_all add: dispatch_def\<close>)
next
  case False
  show ?thesis
  proof (cases "ke_udata ev")
    case Listener_Tag
    obtain el' es where a: "handle_accept li el = (el', es)" by (cases "handle_accept li el")
    then show ?thesis using accept_loop_ok [OF assms(1)] False Listener_Tag
      by (auto simp: dispatch_def handle_accept_def)
  next
    case Timer_Tag
    then show ?thesis using handle_timer_ok [OF assms(1), of li] False by (auto simp: dispatch_def)
  next
    case (Conn i)
    then have "i < MAX_CONNECTIONS" "io_ok (li_io li)" using assms(2) by (simp_all add: event_ok_def)
    from process_connection_ok [OF assms(1) this] show ?thesis
      using False Conn by (auto simp: dispatch_def served_def)
  next
    case Null_Tag
    then show ?thesis using assms(2) False by (simp add: event_ok_def)
  qed
qed

subsection \<open>Reachable states\<close>

text \<open>
  What the loop goes through after \<open>main\<close> has set it up: a round hands the changes to the kernel,
  and the events are handled one after the other.
\<close>

inductive loop_step :: "event_loop \<Rightarrow> effect list \<Rightarrow> event_loop \<Rightarrow> bool" where
  submit: "loop_step el [] (el\<lparr>el_changelist := []\<rparr>)"
| event: "event_ok el li ev \<Longrightarrow> dispatch li ev el = Some (Inr (el', es)) \<Longrightarrow> loop_step el es el'"

inductive reachable :: "event_loop \<Rightarrow> bool" where
  start: "reachable (fst (add_listener fd (set_tls_context tls (event_loop_init kq fs root timeout))))"
| step: "reachable el \<Longrightarrow> loop_step el es el' \<Longrightarrow> reachable el'"

inductive_simps loop_step_iff: "loop_step el es el'"

lemma loop_inv_changelist: "loop_inv el \<Longrightarrow> loop_inv (el\<lparr>el_changelist := cl\<rparr>)"
  by (rule loop_inv_cong(1)) simp_all

lemma loop_step_inv: "loop_step el es el' \<Longrightarrow> loop_inv el \<Longrightarrow> loop_inv el'"
  unfolding loop_step_iff using dispatch_ok [of el] loop_inv_changelist [of el "[]"] by fastforce

lemma add_listener_frame [simp]:
  "el_pool (fst (add_listener fd el)) = el_pool el"
  "el_keepalive_head (fst (add_listener fd el)) = el_keepalive_head el"
  by (simp_all add: add_listener_def flush_changelist_def add_event_def Let_def)

lemma reachable_inv: "reachable el \<Longrightarrow> loop_inv el"
proof (induction rule: reachable.induct)
  case (start fd tls kq fs root timeout)
  have "loop_inv (set_tls_context tls (event_loop_init kq fs root timeout))"
    by (rule loop_inv_cong(1) [OF _ _ event_loop_init_inv [of kq fs root timeout]]) (simp_all add: set_tls_context_def)
  then show ?case by (rule loop_inv_cong(1) [rotated 2]) simp_all
next
  case (step el es el')
  then show ?case using loop_step_inv by blast
qed

subsection \<open>Runs\<close>

text \<open>Every event of a batch, of a run, is admissible when its turn comes.\<close>

fun events_ok :: "(loop_io \<times> kevent) list \<Rightarrow> event_loop \<Rightarrow> bool" where
  "events_ok [] el = True"
| "events_ok ((li, ev) # evs) el = (event_ok el li ev \<and>
     (case dispatch li ev el of Some (Inr (el', es)) \<Rightarrow> events_ok evs el' | _ \<Rightarrow> True))"

fun rounds_ok :: "(bool \<times> kevent_answer) list \<Rightarrow> event_loop \<Rightarrow> bool" where
  "rounds_ok [] el = True"
| "rounds_ok ((running, answer) # rounds) el = (running \<longrightarrow>
     (case answer of
        Kq_Events evs \<Rightarrow> events_ok evs (el\<lparr>el_changelist := []\<rparr>) \<and>
          (case dispatch_all evs (el\<lparr>el_changelist := []\<rparr>) of Some (Inr (el', es)) \<Rightarrow> rounds_ok rounds el' | _ \<Rightarrow> True)
      | Kq_EINTR \<Rightarrow> rounds_ok rounds (el\<lparr>el_changelist := []\<rparr>)
      | Kq_Error \<Rightarrow> True))"

lemma dispatch_all_ok:
  assumes "reachable el" and "events_ok evs el"
  shows "dispatch_all evs el = Some (Inl Signed_Overflow)
    \<or> (\<exists>el' es. dispatch_all evs el = Some (Inr (el', es)) \<and> reachable el')"
  using assms
proof (induction evs arbitrary: el)
  case (Cons e evs)
  obtain li ev where e: "e = (li, ev)" by (cases e)
  have ok: "event_ok el li ev" using Cons.prems(2) by (simp add: e)
  from dispatch_ok [OF reachable_inv [OF Cons.prems(1)] ok] show ?case
  proof
    assume "\<exists>el' es. dispatch li ev el = Some (Inr (el', es)) \<and> loop_inv el'"
    then obtain el' es where d: "dispatch li ev el = Some (Inr (el', es))" by blast
    then have "reachable el'" using Cons.prems(1) event [OF ok] step by blast
    then show ?thesis using Cons.IH [of el'] Cons.prems(2) d by (auto simp: e)
  qed (simp add: e)
qed simp

lemma run_ok:
  assumes "reachable el" and "rounds_ok rounds el"
  shows "run rounds el = Some (Inl Signed_Overflow)
    \<or> (\<exists>el' es cs. run rounds el = Some (Inr (el', es, cs)) \<and> reachable el')"
  using assms
proof (induction rounds arbitrary: el)
  case (Cons r rounds)
  obtain running answer where r: "r = (running, answer)" by (cases r)
  let ?el = "el\<lparr>el_changelist := []\<rparr>"
  have inv: "reachable ?el" using Cons.prems(1) submit step by blast
  show ?case
  proof (cases running)
    case True
    show ?thesis
    proof (cases answer)
      case (Kq_Events evs)
      have ok: "events_ok evs ?el" using Cons.prems(2) True Kq_Events by (simp add: r)
      from dispatch_all_ok [OF inv ok] show ?thesis
      proof
        assume "\<exists>el' es. dispatch_all evs ?el = Some (Inr (el', es)) \<and> reachable el'"
        then obtain el' es where d: "dispatch_all evs ?el = Some (Inr (el', es))" "reachable el'" by blast
        then show ?thesis using Cons.IH [of el'] Cons.prems(2) True Kq_Events by (auto simp: r Let_def)
      qed (use True Kq_Events in \<open>simp add: r Let_def\<close>)
    next
      case Kq_EINTR
      then show ?thesis using Cons.IH [OF inv] Cons.prems(2) True by (auto simp: r Let_def)
    qed (use inv True in \<open>simp add: r Let_def\<close>)
  qed (use Cons.prems(1) in \<open>simp add: r\<close>)
qed simp

subsection \<open>Properties of the loop\<close>


definition example_li :: loop_io where
  "example_li = \<lparr>li_server = example_si\<lparr>si_io := io_idle\<rparr>, li_accept = [], li_ssl_new = None\<rparr>"

definition example_loop :: "tls_context option \<Rightarrow> event_loop" where
  "example_loop tls = fst (add_listener 3 (set_tls_context tls (event_loop_init 4
     ((example_fs Regular)\<lparr>fs_realpath := \<lambda>_. Some ''/srv''\<rparr>) ''.'' 75)))"

abbreviation example_start :: event_loop where
  "example_start \<equiv> example_loop None"


end
