(* ===== verification/Loop_Handlers.thy ===== *)
theory Loop_Handlers
  imports Loop_Run
begin

text \<open>
  What each handler of the event loop achieves in the states the loop can reach: the timer,
  the acceptance of new connections, and one event of a connection.
\<close>

subsection \<open>A reachable state with an idle connection\<close>

definition example_io :: "io \<Rightarrow> int list \<Rightarrow> loop_io" where
  "example_io io fds = \<lparr>li_server = example_si\<lparr>si_io := io\<rparr>, li_accept = fds, li_ssl_new = None\<rparr>"

definition example_event :: "udata \<Rightarrow> kevent" where
  "example_event ud = \<lparr>ke_ident = 5, ke_filter = EVFILT_READ, ke_flags = {}, ke_note_seconds = False, ke_data = 0, ke_udata = ud\<rparr>"

lemma process_open:
  assumes "cn_state (conn_at i el) \<noteq> CLOSED" and "conn_action (li_io li) (el_tls_ctx el \<noteq> None) (conn_at i el) = (w, c, es)"
    and "cn_state c = SENDING_HEADERS \<or> cn_state c = SENDING_BODY \<or> cn_state c = KEEP_ALIVE"
  shows "process_connection li i el = Inr (update_events i w (sync_keepalive (cn_state (conn_at i el)) i (set_conn i c el)), es)"
  using assms by (auto simp: process_connection_def inject_ssl_def inline_parse_def respond_def Let_def)

lemma io_input_ok: "io_ok (io_input bs)"
  by (auto simp: io_ok_def io_input_def io_idle_def)

lemma page_sent:
  assumes "cn_ssl c = None" and "rs_body (cn_response c) \<noteq> []" and "cn_body_sent c = 0" and "cn_file_fd c = -1"
    and "\<not> cn_is_head c" and "cn_header_sent c = 0"
  shows "\<exists>c' es. do_send_headers (io_input bs) c = (Want_Read, c', es) \<and> cn_state c' = KEEP_ALIVE
    \<and> cn_fd c' = cn_fd c \<and> cn_file_fd c' = -1 \<and> cn_last_active c' = cn_last_active c \<and> cn_ssl c' = None \<and> (\<exists>bs. E_Send (cn_fd c) bs \<in> set es)"
  using assms
  by (simp add: do_send_headers_def socket_send_def io_input_def io_idle_def has_body_def
      do_send_body_def send_memory_body_def waiting_def Let_def) blast

lemma process_reaches:
  assumes "reachable el" and "i < MAX_CONNECTIONS" and "io_ok (li_io li)" and "cn_state (conn_at i el) \<noteq> CLOSED"
    and "conn_action (li_io li) (el_tls_ctx el \<noteq> None) (conn_at i el) = (w, c, es)"
    and "cn_state c = SENDING_HEADERS \<or> cn_state c = SENDING_BODY \<or> cn_state c = KEEP_ALIVE"
  shows "\<exists>el'. dispatch li (example_event (Conn i)) el = Some (Inr (el', es)) \<and> loop_step el es el' \<and> reachable el'
    \<and> unlinked (conn_at i el') = unlinked c \<and> el_tls_ctx el' = el_tls_ctx el
    \<and> el_keep_alive_timeout el' = el_keep_alive_timeout el"
proof -
  let ?el = "update_events i w (sync_keepalive (cn_state (conn_at i el)) i (set_conn i c el))"
  have base: "loop_base el" "listed {} el" using reachable_inv [OF assms(1)] by (simp_all add: loop_inv_def)
  have inv: "conn_inv (conn_at i el)" and lent: "i \<in> lent (el_pool el)"
    using base(1) assms(2,4) by (auto simp: loop_base_def)
  have "step_ok (conn_at i el) (w, c, es)" using conn_action_ok [OF inv assms(3)] assms(5) by metis
  then have c: "conn_inv c" "same_links (conn_at i el) c" by (simp_all add: step_ok.simps)
  note st = store_base [OF base(1) lent c base(2)]
  have "i \<in> set (ka_list (set_conn i c el)) \<longleftrightarrow> cn_state (conn_at i el) = KEEP_ALIVE"
    using base(2) st(3,4) by (simp add: listed_def)
  note sy = sync_keepalive_ok [OF st(1,2,4) this]
  have "event_ok el li (example_event (Conn i))" using assms(2,3) by (simp add: event_ok_def example_event_def)
  moreover have d: "dispatch li (example_event (Conn i)) el = Some (Inr (?el, es))"
    using process_open [OF assms(4-6)] by (simp add: dispatch_def example_event_def)
  ultimately have l: "loop_step el es ?el" using event by blast
  then have "reachable ?el" by (rule step [OF assms(1)])
  moreover have "unlinked (conn_at i ?el) = unlinked c" using sy(3) [of i] st(5) [of i] by simp
  moreover have "el_tls_ctx ?el = el_tls_ctx el" "el_keep_alive_timeout ?el = el_keep_alive_timeout el"
    by (simp_all add: sync_keepalive_def Let_def)
  ultimately show ?thesis using d l by blast
qed

text \<open>
  A client connects and starts a TLS handshake with a server that has no certificate; it gets the
  error page, and the connection is idle.
\<close>

lemma create_connection_fields:
  assumes "create_connection now fd el = (Some i, el')" and "i < length (conns el)"
  shows "conn_at i el' = (conn_init now fd (el_root_dir el) (el_keep_alive_timeout el) (conn_at i el))
      \<lparr>cn_tls_available := (el_tls_ctx el \<noteq> None)\<rparr>"
    and "el_tls_ctx el' = el_tls_ctx el" and "el_keep_alive_timeout el' = el_keep_alive_timeout el"
proof -
  obtain p where p: "acquire (el_pool el) = Some (i, p)"
    using assms(1) by (auto simp: create_connection_def Let_def split: option.splits)
  have at: "conn_at i (el\<lparr>el_pool := p\<rparr>) = conn_at i el" and len: "i < length (conns (el\<lparr>el_pool := p\<rparr>))"
    using acquire_connections [OF p] assms(2) by (simp_all add: conn_at_def)
  have e: "el' = add_event fd EVFILT_READ {EV_ADD, EV_ENABLE} (Conn i) (set_conn i
      ((conn_init now fd (el_root_dir el) (el_keep_alive_timeout el) (conn_at i el))\<lparr>cn_tls_available := (el_tls_ctx el \<noteq> None)\<rparr>)
      (el\<lparr>el_pool := p\<rparr>))"
    using assms(1) p at by (simp add: create_connection_def Let_def)
  show "conn_at i el' = (conn_init now fd (el_root_dir el) (el_keep_alive_timeout el) (conn_at i el))
      \<lparr>cn_tls_available := (el_tls_ctx el \<noteq> None)\<rparr>"
    unfolding e using conn_at_set_conn [OF len] by simp
  show "el_tls_ctx el' = el_tls_ctx el" "el_keep_alive_timeout el' = el_keep_alive_timeout el" by (simp_all add: e)
qed

lemma example_loop_accepted:
  "\<exists>el i. loop_step (example_loop tls) [E_Accept 5] el \<and> reachable el \<and> i < MAX_CONNECTIONS
     \<and> cn_state (conn_at i el) = PROTO_DETECT \<and> cn_fd (conn_at i el) = 5
     \<and> cn_ssl (conn_at i el) = None \<and> cn_last_active (conn_at i el) = 0 \<and> \<not> cn_is_head (conn_at i el)
     \<and> cn_read_buf (conn_at i el) = [] \<and> el_tls_ctx el = tls \<and> el_keep_alive_timeout el = 75"
proof -
  have start: "reachable (example_loop tls)" unfolding example_loop_def by (rule reachable.start)
  have frame: "el_tls_ctx (example_loop tls) = tls" "el_keep_alive_timeout (example_loop tls) = 75" "lent (el_pool (example_loop tls)) = {}"
    by (simp_all add: example_loop_def add_listener_def set_tls_context_def event_loop_init_def flush_changelist_def
        add_event_def Let_def)
  obtain r el where cr: "create_connection 0 5 (example_loop tls) = (r, el)" by (cases "create_connection 0 5 (example_loop tls)")
  have "0 \<le> (5::int)" by simp
  note cc = create_connection_ok [OF reachable_inv [OF start] this cr]
  have "0 \<in> {..<MAX_CONNECTIONS}" by (simp add: MAX_CONNECTIONS_def)
  then obtain i where r: "r = Some i" using cc(2) frame(3) by (cases r) auto
  have new: "lent (el_pool el) = insert i (lent (el_pool (example_loop tls)))" "cn_state (conn_at i el) = PROTO_DETECT"
    "cn_fd (conn_at i el) = 5" "owned_ssl (conn_at i el) = {#}"
    using cc(3) [OF r] by - (elim conjE, assumption)+
  have i: "i < MAX_CONNECTIONS" using new(1) by (auto simp: lent_def)
  have len: "length (conns (example_loop tls)) = MAX_CONNECTIONS"
    by (simp add: example_loop_def set_tls_context_def event_loop_init_def)
  have "i < length (conns (example_loop tls))" using i len by simp
  note fields = create_connection_fields [OF cr [unfolded r] this]
  have rest: "cn_last_active (conn_at i el) = 0" "\<not> cn_is_head (conn_at i el)" "cn_read_buf (conn_at i el) = []" "el_tls_ctx el = tls" "el_keep_alive_timeout el = 75"
    by (simp_all add: fields frame(1,2) conn_init_def)
  have "handle_accept (example_io io_idle [5]) (example_loop tls) = (el, [E_Accept 5])"
    using cr r by (simp add: handle_accept_def example_io_def io_idle_def)
  moreover have "event_ok (example_loop tls) (example_io io_idle [5]) (example_event Listener_Tag)"
    by (simp add: event_ok_def example_event_def example_io_def)
  ultimately have l: "loop_step (example_loop tls) [E_Accept 5] el"
    using event [of "example_loop tls" "example_io io_idle [5]" "example_event Listener_Tag"]
    by (simp add: dispatch_def example_event_def)
  have "reachable el" by (rule step [OF start l])
  moreover have "cn_ssl (conn_at i el) = None" using new(4) by (simp add: owned_ssl_def split: option.splits)
  ultimately show ?thesis using l i new(2,3) rest by blast
qed

lemmas example_accepted = example_loop_accepted [of None]

lemma unlinked_select:
  "cn_state (unlinked c) = cn_state c" "cn_ssl (unlinked c) = cn_ssl c" "cn_response (unlinked c) = cn_response c"
  "cn_body_sent (unlinked c) = cn_body_sent c" "cn_file_fd (unlinked c) = cn_file_fd c" "cn_is_head (unlinked c) = cn_is_head c"
  "cn_header_sent (unlinked c) = cn_header_sent c" "cn_fd (unlinked c) = cn_fd c" "cn_last_active (unlinked c) = cn_last_active c"
  by (simp_all add: unlinked_def)

lemma example_page:
  "\<exists>el0 el i. loop_step example_start [E_Accept 5] el0 \<and> loop_step el0 [] el \<and> reachable el \<and> i < MAX_CONNECTIONS
     \<and> cn_state (conn_at i el) = SENDING_HEADERS \<and> cn_ssl (conn_at i el) = None \<and> rs_body (cn_response (conn_at i el)) \<noteq> []
     \<and> cn_body_sent (conn_at i el) = 0 \<and> cn_file_fd (conn_at i el) = -1 \<and> \<not> cn_is_head (conn_at i el)
     \<and> cn_header_sent (conn_at i el) = 0 \<and> cn_fd (conn_at i el) = 5 \<and> cn_last_active (conn_at i el) = 0
     \<and> el_tls_ctx el = None \<and> el_keep_alive_timeout el = 75"
proof -
  let ?io = "io_input [CHR 0x16]"
  have io [simp]: "li_io (example_io ?io []) = ?io" by (simp add: example_io_def)
  obtain el i where l: "loop_step example_start [E_Accept 5] el" and el: "reachable el" "i < MAX_CONNECTIONS"
    and c: "cn_state (conn_at i el) = PROTO_DETECT"
    "cn_fd (conn_at i el) = 5" "cn_ssl (conn_at i el) = None" "cn_last_active (conn_at i el) = 0" "\<not> cn_is_head (conn_at i el)"
    and tls: "el_tls_ctx el = None" "el_keep_alive_timeout el = 75"
    using example_accepted by blast
  have inv: "conn_inv (conn_at i el)" using reachable_inv [OF el(1)] el(2) by (simp add: loop_inv_def loop_base_def)
  let ?body = "error_body BAD_REQUEST @ [LF] @ ''(Server does not support HTTPS/TLS)''"
  obtain w c1 es where e: "error_response ?io BAD_REQUEST ?body (conn_at i el) = (w, c1, es)"
    by (cases "error_response ?io BAD_REQUEST ?body (conn_at i el)")
  have c1: "cn_state c1 = SENDING_HEADERS" "cn_ssl c1 = None" "rs_body (cn_response c1) \<noteq> []" "cn_body_sent c1 = 0"
    "cn_file_fd c1 = -1" "\<not> cn_is_head c1" "cn_header_sent c1 = 0" "cn_fd c1 = 5" "cn_last_active c1 = 0" "es = []"
    using e inv c by (auto simp: error_response_def prepare_headers_def response_setters conn_inv_defs)
  have "conn_action ?io (el_tls_ctx el \<noteq> None) (conn_at i el) = (w, c1, es)"
    using c(1) tls(1) e by (simp add: conn_action_def do_proto_detect_def io_input_def io_idle_def)
  then obtain el1 where el1: "loop_step el es el1" "reachable el1" "unlinked (conn_at i el1) = unlinked c1"
    "el_tls_ctx el1 = el_tls_ctx el" "el_keep_alive_timeout el1 = el_keep_alive_timeout el"
    using process_reaches [OF el, of "example_io ?io []" w c1 es] c(1) c1(1) io_input_ok by auto
  have f: "cn_state (conn_at i el1) = SENDING_HEADERS" "cn_ssl (conn_at i el1) = None" "rs_body (cn_response (conn_at i el1)) \<noteq> []"
    "cn_body_sent (conn_at i el1) = 0" "cn_file_fd (conn_at i el1) = -1" "\<not> cn_is_head (conn_at i el1)"
    "cn_header_sent (conn_at i el1) = 0" "cn_fd (conn_at i el1) = 5" "cn_last_active (conn_at i el1) = 0"
    using c1 unlinked_select [of "conn_at i el1"] unlinked_select [of c1] unfolding el1(3) by simp_all
  show ?thesis using l el1(1,2) el(2) f tls el1(4,5) unfolding c1(10)
    by (intro exI [of _ el] exI [of _ el1] exI [of _ i]) simp
qed

lemma example_idle:
  "\<exists>el i. reachable el \<and> i < MAX_CONNECTIONS \<and> cn_state (conn_at i el) = KEEP_ALIVE
     \<and> owned (conn_at i el) = {#5#} \<and> cn_last_active (conn_at i el) = 0 \<and> el_keep_alive_timeout el = 75
     \<and> cn_ssl (conn_at i el) = None \<and> cn_fd (conn_at i el) = 5
     \<and> (\<exists>el0 el1 es. loop_step example_start [E_Accept 5] el0 \<and> loop_step el0 [] el1 \<and> loop_step el1 es el)"
proof -
  let ?io = "io_input []"
  have io [simp]: "li_io (example_io ?io []) = ?io" by (simp add: example_io_def)
  obtain el0 el i where l: "loop_step example_start [E_Accept 5] el0" "loop_step el0 [] el" and el: "reachable el" "i < MAX_CONNECTIONS"
    and f: "cn_state (conn_at i el) = SENDING_HEADERS"
    "cn_ssl (conn_at i el) = None" "rs_body (cn_response (conn_at i el)) \<noteq> []" "cn_body_sent (conn_at i el) = 0"
    "cn_file_fd (conn_at i el) = -1" "\<not> cn_is_head (conn_at i el)" "cn_header_sent (conn_at i el) = 0"
    "cn_fd (conn_at i el) = 5" "cn_last_active (conn_at i el) = 0" and t: "el_keep_alive_timeout el = 75"
    using example_page by blast
  from page_sent [OF f(2-7)] obtain c2 es2 where d: "do_send_headers ?io (conn_at i el) = (Want_Read, c2, es2)"
    and c2: "cn_state c2 = KEEP_ALIVE" "cn_fd c2 = 5" "cn_file_fd c2 = -1" "cn_last_active c2 = 0" "cn_ssl c2 = None"
    unfolding f(8,9) by blast
  have "conn_action ?io (el_tls_ctx el \<noteq> None) (conn_at i el) = (Want_Read, c2, es2)"
    using f(1) d by (simp add: conn_action_def)
  then obtain el2 where el2: "reachable el2" "unlinked (conn_at i el2) = unlinked c2"
    "el_keep_alive_timeout el2 = el_keep_alive_timeout el" "loop_step el es2 el2"
    using process_reaches [OF el, of "example_io ?io []" Want_Read c2 es2] f(1) c2(1) io_input_ok by auto
  have "cn_state (conn_at i el2) = KEEP_ALIVE \<and> owned (conn_at i el2) = {#5#} \<and> cn_last_active (conn_at i el2) = 0
      \<and> cn_ssl (conn_at i el2) = None \<and> cn_fd (conn_at i el2) = 5"
    using unlinked_fields [OF el2(2)] c2 by (simp add: owned_def)
  then show ?thesis using el2(1,3,4) t el(2) l by metis
qed

subsection \<open>The state of the loop\<close>

text \<open>
  C6: what holds in every reachable state.  A slot that is not lent holds a closed connection that
  owns no descriptor and no SSL object; the keep-alive list holds exactly the connections in the state
  \<open>KEEP_ALIVE\<close>, each once and each lent; the counters of every connection stay inside
  their buffers and its read buffer is bounded; the pool counts the lent slots.
\<close>

theorem reachable_loop_safe:
  assumes "reachable el"
  shows "(\<forall>i < MAX_CONNECTIONS. i \<notin> lent (el_pool el) \<longrightarrow>
      cn_state (conn_at i el) = CLOSED \<and> owned (conn_at i el) = {#} \<and> owned_ssl (conn_at i el) = {#})
    \<and> distinct (ka_list el) \<and> set (ka_list el) = {i. i < MAX_CONNECTIONS \<and> cn_state (conn_at i el) = KEEP_ALIVE}
    \<and> set (ka_list el) \<subseteq> lent (el_pool el)
    \<and> (\<forall>i < MAX_CONNECTIONS. buffers_ok (conn_at i el) \<and> length (cn_read_buf (conn_at i el)) \<le> 69632)
    \<and> unat (pl_active_count (el_pool el)) = card (lent (el_pool el))"
proof -
  have base: "loop_base el" "listed {} el" using reachable_inv [OF assms] by (simp_all add: loop_inv_def)
  have inv: "conn_inv (conn_at i el)" if "i < MAX_CONNECTIONS" for i using base(1) that by (simp add: loop_base_def)
  have ka: "ka_inv el" and pool: "pool_inv (el_pool el)" using base(1) by (simp_all add: loop_base_def)
  have l: "distinct (ka_list el)" "set (ka_list el) \<subseteq> {..<MAX_CONNECTIONS}" using keepalive.elems_ok [OF ka] by simp_all
  have ids: "set (ka_list el) = {i. i < MAX_CONNECTIONS \<and> cn_state (conn_at i el) = KEEP_ALIVE}"
    using base(2) l(2) by (auto simp: listed_def)
  have free: "cn_state (conn_at i el) = CLOSED" if "i < MAX_CONNECTIONS" "i \<notin> lent (el_pool el)" for i
    using base(1) that by (simp add: loop_base_def)
  have "owned (conn_at i el) = {#} \<and> owned_ssl (conn_at i el) = {#}"
    if "i < MAX_CONNECTIONS" "i \<notin> lent (el_pool el)" for i
    using inv [OF that(1)] free [OF that] by (simp add: conn_inv_def conn_base_def owned_def owned_ssl_def)
  moreover have "set (ka_list el) \<subseteq> lent (el_pool el)" unfolding ids using free by fastforce
  moreover have "unat (pl_active_count (el_pool el)) = card (lent (el_pool el))"
    using pool card_lent [OF pool]
    by (simp add: pool_inv_def MAX_CONNECTIONS_def unsigned_of_nat take_bit_nat_eq_self)
  ultimately show ?thesis using l(1) ids free inv by (simp add: conn_inv_def conn_base_def)
qed

lemma reachable_loop_safe_witness:
  "\<exists>el i. reachable el \<and> i \<in> set (ka_list el) \<and> i \<in> lent (el_pool el) \<and> distinct (ka_list el)"
proof -
  obtain el i where el: "reachable el" "i < MAX_CONNECTIONS" "cn_state (conn_at i el) = KEEP_ALIVE"
    using example_idle by blast
  note safe = reachable_loop_safe [OF el(1)]
  have "i \<in> set (ka_list el)" using safe el(2,3) by simp
  then show ?thesis using safe el(1) by blast
qed

subsection \<open>The timer\<close>

text \<open>
  C18: the timer always finishes, and closes exactly the idle connections whose last activity is
  longer ago than the timeout: their slots are free again, every descriptor they owned is
  closed, once, and no other connection changes but in its links.
\<close>

theorem handle_timer_expires:
  fixes li :: loop_io
  assumes "reachable el"
  defines "expired \<equiv> {i. i < MAX_CONNECTIONS \<and> cn_state (conn_at i el) = KEEP_ALIVE
    \<and> io_now (li_io li) - cn_last_active (conn_at i el) > el_keep_alive_timeout el * 1000000000}"
  shows "\<exists>el' es. handle_timer li el = Some (Inr (el', es))
    \<and> lent (el_pool el') = lent (el_pool el) - expired
    \<and> (\<forall>i \<in> expired. cn_state (conn_at i el') = CLOSED)
    \<and> (\<forall>i. i \<notin> expired \<longrightarrow> unlinked (conn_at i el') = unlinked (conn_at i el))
    \<and> mset (closed_fds es) = (\<Sum>i \<in> expired. owned (conn_at i el)) \<and> opened_fds es = []"
proof -
  have inv: "loop_inv el" by (rule reachable_inv [OF assms(1)])
  then have ka: "ka_inv el" and ids: "listed {} el" by (simp_all add: loop_inv_def loop_base_def)
  let ?xs = "filter (overdue li el) (ka_list el)"
  have d: "distinct ?xs" and b: "set (ka_list el) \<subseteq> {..<MAX_CONNECTIONS}" using keepalive.elems_ok [OF ka] by simp_all
  have x: "set ?xs = expired" using ids b by (auto simp: expired_def listed_def is_expired_def)
  have sum: "(\<Sum>i \<leftarrow> ?xs. owned (conn_at i el)) = (\<Sum>i \<in> expired. owned (conn_at i el))"
    unfolding x [symmetric] using sum.distinct_set_conv_list [OF d] by metis
  from handle_timer_ok [OF inv, of li] obtain el' es where
    t: "handle_timer li el = Some (Inr (el', es))" "loop_inv el'" "lent (el_pool el') = lent (el_pool el) - expired"
      "opened_fds es = []" "mset (closed_fds es) = (\<Sum>i \<in> expired. owned (conn_at i el))"
      "\<forall>i. i \<notin> expired \<longrightarrow> unlinked (conn_at i el') = unlinked (conn_at i el)"
    unfolding sum x by blast
  have "cn_state (conn_at i el') = CLOSED" if "i \<in> expired" for i
    using t(2,3) that by (simp add: loop_inv_def loop_base_def expired_def)
  then show ?thesis using t by blast
qed

lemma handle_timer_expires_witness:
  "\<exists>el el' es. reachable el \<and> handle_timer (example_io (io_idle\<lparr>io_now := 75000000001\<rparr>) []) el = Some (Inr (el', es))
     \<and> 5 \<in> set (closed_fds es)"
proof -
  obtain el i where el: "reachable el" "i < MAX_CONNECTIONS" "cn_state (conn_at i el) = KEEP_ALIVE"
    "owned (conn_at i el) = {#5#}" "cn_last_active (conn_at i el) = 0" "el_keep_alive_timeout el = 75"
    using example_idle by blast
  let ?li = "example_io (io_idle\<lparr>io_now := 75000000001\<rparr>) []"
  let ?E = "{i. i < MAX_CONNECTIONS \<and> cn_state (conn_at i el) = KEEP_ALIVE
    \<and> io_now (li_io ?li) - cn_last_active (conn_at i el) > el_keep_alive_timeout el * 1000000000}"
  obtain el' es where t: "handle_timer ?li el = Some (Inr (el', es))"
    "mset (closed_fds es) = (\<Sum>i \<in> ?E. owned (conn_at i el))"
    using handle_timer_expires [OF el(1), of ?li] by blast
  have "i \<in> ?E" using el by (simp add: example_io_def)
  moreover have "finite ?E" by simp
  ultimately have "(\<Sum>i \<in> ?E. owned (conn_at i el)) = owned (conn_at i el) + (\<Sum>i \<in> ?E - {i}. owned (conn_at i el))"
    by (rule sum.remove [rotated])
  then have "5 \<in># mset (closed_fds es)" unfolding t(2) el(4) by simp
  then show ?thesis using el(1) t(1) by auto
qed

subsection \<open>New connections\<close>

text \<open>
  Accepting.  The connections that were there are untouched; every descriptor \<open>accept\<close>
  returned is afterwards owned by a connection in a slot that was free, or has been closed,
  which happens only when all 16384 slots are lent.
\<close>

theorem handle_accept_accounts:
  assumes "reachable el" and "handle_accept li el = (el', es)"
  shows "lent (el_pool el) \<subseteq> lent (el_pool el') \<and> (\<forall>i \<in> lent (el_pool el). conn_at i el' = conn_at i el)
    \<and> mset (opened_fds es) = mset (closed_fds es)
        + (\<Sum>i \<in> lent (el_pool el') - lent (el_pool el). owned (conn_at i el'))
    \<and> (closed_fds es \<noteq> [] \<longrightarrow> card (lent (el_pool el')) = 16384)"
  using accept_loop_ok [OF reachable_inv [OF assms(1)] assms(2) [unfolded handle_accept_def]]
  by (auto simp: MAX_CONNECTIONS_def)

lemma handle_accept_accounts_witness:
  "\<exists>el' es. handle_accept (example_io io_idle [5]) example_start = (el', es)
     \<and> lent (el_pool example_start) \<subseteq> lent (el_pool el')"
proof -
  obtain el' es where "handle_accept (example_io io_idle [5]) example_start = (el', es)"
    by (cases "handle_accept (example_io io_idle [5]) example_start")
  moreover have "reachable example_start" unfolding example_loop_def by (rule reachable.start)
  ultimately show ?thesis using handle_accept_accounts by blast
qed

subsection \<open>One action of a connection\<close>

text \<open>
  Whatever the state of a connection and whatever the system answers, one action of the state
  machine keeps it well formed and loses nothing: each descriptor and each SSL object it
  owned or obtained is still owned or has been given back, exactly once; a connection it closes
  owns nothing more and waits for nothing.
\<close>

theorem connection_action_safe:
  assumes "conn_inv c" and "io_ok io" and "conn_action io tls c = (w, c', es)"
  shows "conn_inv c'
    \<and> owned c + mset (opened_fds es) = mset (closed_fds es) + owned c'
    \<and> owned_ssl c + mset (created_ssl es) = mset (freed_ssl es) + owned_ssl c'
    \<and> (cn_state c' = CLOSED \<longrightarrow> owned c' = {#} \<and> owned_ssl c' = {#} \<and> w = Want_None)"
proof -
  have "step_ok c (w, c', es)" using conn_action_ok [OF assms(1,2), of tls] assms(3) by simp
  then have step: "conn_inv c'" "balanced c es c'" "cn_state c' = CLOSED \<longrightarrow> w = Want_None" by (simp_all add: step_ok.simps)
  have "cn_state c' = CLOSED \<longrightarrow> owned c' = {#} \<and> owned_ssl c' = {#}"
    using step(1) by (simp add: conn_inv_def conn_base_def owned_def owned_ssl_def)
  then show ?thesis using step by (simp add: balanced_def)
qed

lemma connection_action_safe_witness:
  defines "c \<equiv> conn_default\<lparr>cn_fd := 5, cn_state := READING\<rparr>"
  shows "\<exists>w c' es. conn_action (io_input ''GET'') True c = (w, c', es) \<and> owned c' = {#5#}"
proof -
  have inv: "conn_inv c" by (simp add: c_def conn_default_def conn_inv_defs request_init_def response_init_def)
  obtain w c' es where a: "conn_action (io_input ''GET'') True c = (w, c', es)"
    by (cases "conn_action (io_input ''GET'') True c")
  moreover have "es = [] \<and> owned c = {#5#}"
    using a by (auto simp: c_def conn_default_def conn_action_def do_read_def io_input_def received_def waiting_def owned_def)
  ultimately show ?thesis using connection_action_safe [OF inv io_input_ok a] by auto
qed

end
