(* ===== verification/Loop_Events.thy ===== *)
theory Loop_Events
  imports Loop_Handlers
begin

text \<open>
  One event of the event loop seen from one connection: what its own event may make of its state, and
  that the events of others leave it alone.
\<close>

subsection \<open>The two ways an event of a connection ends\<close>

lemma process_connection_cases:
  assumes "loop_inv el" and "i < MAX_CONNECTIONS" and "io_ok (li_io li)" and "process_connection li i el = Inr (el', es)"
    and "cn_state (conn_at i el) \<noteq> CLOSED"
  obtains (destroyed) w c es1 es2 where
      "inject_ssl li (el_tls_ctx el) (conn_action (li_io li) (el_tls_ctx el \<noteq> None) (conn_at i el)) = (w, c, es1)"
      "step_ok (conn_at i el) (w, c, es1)" "cn_state c = CLOSED" "destroy_connection i (set_conn i c el) = Inr (el', es2)"
      "es = es1 @ es2" "cn_state (conn_at i el') = CLOSED" "balanced c es2 (conn_at i el')"
    | (kept) w c es1 w1 c1 es2 w2 c2 where
      "inject_ssl li (el_tls_ctx el) (conn_action (li_io li) (el_tls_ctx el \<noteq> None) (conn_at i el)) = (w, c, es1)"
      "cn_state c \<noteq> CLOSED" "inline_parse (li_io li) (w, c, es1) = (w1, c1, es2)" "step_ok (conn_at i el) (w1, c1, es2)"
      "cn_state c1 \<noteq> CLOSED" "respond li (el_root_dir el) (w1, c1, es2) = Inr (w2, c2, es)"
      "el' = update_events i w2 (sync_keepalive (cn_state (conn_at i el)) i (set_conn i c2 el))"
      "unlinked (conn_at i el') = unlinked c2"
proof -
  let ?c = "conn_at i el" and ?tls = "el_tls_ctx el"
  have inv: "conn_inv ?c" and lent: "i \<in> lent (el_pool el)" and base: "loop_base el" "listed {} el"
    using assms(1,2,5) by (auto simp: loop_inv_def loop_base_def)
  obtain w c es1 where step: "inject_ssl li ?tls (conn_action (li_io li) (?tls \<noteq> None) ?c) = (w, c, es1)"
    by (cases "inject_ssl li ?tls (conn_action (li_io li) (?tls \<noteq> None) ?c)")
  have ok: "step_ok ?c (w, c, es1)"
    using inject_ssl_ok conn_action_ok [OF inv assms(3), of "?tls \<noteq> None"] step by (metis prod_cases3)
  then have c: "conn_inv c" "same_links ?c c" by (simp_all add: step_ok.simps)
  show thesis
  proof (cases "cn_state c = CLOSED")
    case True
    have st: "loop_base (set_conn i c el)" "listed {i} (set_conn i c el)" "i \<in> lent (el_pool (set_conn i c el))"
      "conn_at i (set_conn i c el) = c" using store_base [OF base(1) lent c base(2)] lent by simp_all
    from destroy_connection_ok [OF st(1-3)] obtain el1 es2 where d: "destroy_connection i (set_conn i c el) = Inr (el1, es2)"
      "balanced c es2 (conn_at i el1)" "cn_state (conn_at i el1) = CLOSED" unfolding st(4) by blast
    have "el' = el1" "es = es1 @ es2" using assms(4,5) step True d(1) by (simp_all add: process_connection_def Let_def)
    then show thesis using destroyed [OF step ok True] d by simp
  next
    case still_open: False
    obtain w1 c1 es2 where ip: "inline_parse (li_io li) (w, c, es1) = (w1, c1, es2)"
      by (cases "inline_parse (li_io li) (w, c, es1)")
    have ok1: "step_ok ?c (w1, c1, es2)" using inline_parse_ok [OF ok, of "li_io li"] ip by simp
    have open1: "cn_state c1 \<noteq> CLOSED" using ip still_open
      by (auto simp: inline_parse_def do_parse_def error_response_def prepare_headers_def waiting_def Let_def
          split: prod.splits if_splits)
    obtain w2 c2 es3 where r: "respond li (el_root_dir el) (w1, c1, es2) = Inr (w2, c2, es3)"
      using assms(4,5) step still_open ip by (cases "respond li (el_root_dir el) (w1, c1, es2)")
        (auto simp: process_connection_def Let_def)
    have e: "es = es3" "el' = update_events i w2 (sync_keepalive (cn_state ?c) i (set_conn i c2 el))"
      using assms(4,5) step still_open ip r by (simp_all add: process_connection_def Let_def)
    note rs = respond_ok [OF ok1 open1 assms(3) r]
    have st: "loop_base (set_conn i c2 el)" "listed {i} (set_conn i c2 el)" "conn_at i (set_conn i c2 el) = c2"
      "ka_list (set_conn i c2 el) = ka_list el"
      using store_base [OF base(1) lent rs(1,2) base(2)] by simp_all
    have mem: "i \<in> set (ka_list (set_conn i c2 el)) \<longleftrightarrow> cn_state ?c = KEEP_ALIVE"
      using base(2) st(4) assms(2) by (simp add: listed_def)
    have "unlinked (conn_at i el') = unlinked c2"
      using sync_keepalive_ok(3) [OF st(1,2) assms(2) mem, of i] st(3) by (simp add: e(2))
    then show thesis using kept [OF step still_open ip ok1 open1] r e by simp
  qed
qed

subsection \<open>The states of a connection\<close>

text \<open>What one action of the state machine may follow a state by.\<close>

fun action_states :: "conn_state \<Rightarrow> conn_state set" where
  "action_states PROTO_DETECT = {PROTO_DETECT, TLS_ACCEPT, READING, SENDING_HEADERS, CLOSED}"
| "action_states TLS_ACCEPT = {TLS_ACCEPT, READING, SENDING_HEADERS}"
| "action_states READING = {READING, PARSING, CLOSED}"
| "action_states PARSING = {PARSING, SENDING_HEADERS}"
| "action_states SENDING_HEADERS = {SENDING_HEADERS, SENDING_BODY, KEEP_ALIVE, CLOSED}"
| "action_states SENDING_BODY = {SENDING_BODY, KEEP_ALIVE, CLOSED}"
| "action_states KEEP_ALIVE = {KEEP_ALIVE, PARSING, CLOSED}"
| "action_states CLOSED = {CLOSED}"

lemma closing_CLOSED: "closing c = (w, c', es) \<Longrightarrow> cn_state c' = CLOSED"
  using closing_state [of c] by simp

lemma do_read_states: "do_read io c = (w, c', es) \<Longrightarrow> cn_state c' \<in> {cn_state c, PARSING, CLOSED}"
  by (auto simp: do_read_def received_def waiting_def Let_def dest: closing_CLOSED
      split: option.splits ssl.splits sys.splits if_splits)

lemma conn_reset_state: "conn_reset c = (c', es) \<Longrightarrow> cn_state c' = cn_state c \<and> cn_ssl c' = cn_ssl c"
  by (auto simp: conn_reset_def close_file_def split: if_splits)

lemma do_send_headers_states:
  "do_send_headers io c = (w, c', es) \<Longrightarrow> cn_state c' \<in> {cn_state c, SENDING_BODY, KEEP_ALIVE, CLOSED}"
  by (auto simp: do_send_headers_def waiting_def Let_def dest: do_send_body_state [rotated] closing_CLOSED
      split: send_result.splits if_splits prod.splits)

lemma do_parse_states: "do_parse io c = (w, c', es) \<Longrightarrow> cn_state c' \<in> {cn_state c, SENDING_HEADERS}"
  by (auto simp: do_parse_def waiting_def error_response_def Let_def split: prod.splits if_splits)

lemma do_tls_accept_states: "do_tls_accept io c = (w, c', es) \<Longrightarrow> cn_state c' \<in> {cn_state c, READING, SENDING_HEADERS}"
  by (auto simp: do_tls_accept_def waiting_def error_response_def Let_def split: ssl.splits)

lemma conn_action_states:
  assumes "conn_action io tls c = (w, c', es)"
  shows "cn_state c' \<in> action_states (cn_state c)"
proof (cases "cn_state c")
  case PROTO_DETECT
  then show ?thesis using assms
    by (auto simp: conn_action_def do_proto_detect_def waiting_def error_response_def Let_def dest: closing_CLOSED
        split: sys.splits list.splits if_splits)
next
  case KEEP_ALIVE
  then show ?thesis using assms
    by (auto simp: conn_action_def split: prod.splits dest!: conn_reset_state do_read_states)
next
  case READING
  then show ?thesis using assms do_read_states [of io c w c' es] by (auto simp: conn_action_def)
next
  case TLS_ACCEPT
  then show ?thesis using assms do_tls_accept_states [of io c w c' es] by (auto simp: conn_action_def)
next
  case PARSING
  then show ?thesis using assms do_parse_states [of io c w c' es] by (auto simp: conn_action_def)
next
  case SENDING_HEADERS
  then show ?thesis using assms do_send_headers_states [of io c w c' es] by (auto simp: conn_action_def)
next
  case SENDING_BODY
  then show ?thesis using assms do_send_body_state [of c io w c' es] by (auto simp: conn_action_def)
qed (use assms in \<open>simp add: conn_action_def waiting_def\<close>)

lemma inject_ssl_states:
  "inject_ssl li tls (w, c, es) = (w', c', es') \<Longrightarrow>
   c' = c \<and> es' = es \<or> cn_state c = TLS_ACCEPT \<and> cn_state c' \<in> {TLS_ACCEPT, READING, SENDING_HEADERS}"
  by (auto simp: inject_ssl_def Let_def dest!: do_tls_accept_states split: if_splits option.splits prod.splits)

lemma inline_parse_states:
  "inline_parse io (w, c, es) = (w', c', es') \<Longrightarrow> cn_state c' = cn_state c \<or> cn_state c = PARSING \<and> cn_state c' = SENDING_HEADERS"
  by (auto simp: inline_parse_def dest!: do_parse_states split: if_splits prod.splits)

lemma respond_states:
  assumes "respond li root (w, c, es) = Inr (w', c', es')" and "conn_inv c"
  shows "cn_state c' = cn_state c \<or> cn_state c = PARSING \<and> cn_state c' \<in> {SENDING_BODY, KEEP_ALIVE, CLOSED}"
proof (cases "(cn_state c = PARSING \<or> cn_state c = READING) \<and> rq_method (cn_request c) \<noteq> UNKNOWN")
  case False
  then show ?thesis using assms(1) by (auto simp: respond_def)
next
  case True
  then have st: "cn_state c = PARSING" using assms(2) by (auto simp: conn_inv_def idle_def)
  then have base: "conn_base c" "unsent c" "cn_state c \<noteq> CLOSED" using assms(2) by (simp_all add: conn_inv_def)
  obtain c1 es1 where p: "prepare_response (li_server li) root c = Inr (c1, es1)"
    using assms(1) True by (cases "prepare_response (li_server li) root c") (auto simp: respond_def)
  then obtain w2 es2 where "do_send_headers (li_io li) c1 = (w2, c', es2)"
    using assms(1) True by (auto simp: respond_def split: prod.splits)
  from do_send_headers_states [OF this] st show ?thesis using prepare_response_safe(3) [OF p base] by auto
qed

text \<open>The whole event: after the action come the handshake, the parser and the response.\<close>

fun event_states :: "conn_state \<Rightarrow> conn_state set" where
  "event_states PROTO_DETECT = {PROTO_DETECT, TLS_ACCEPT, READING, SENDING_HEADERS, CLOSED}"
| "event_states TLS_ACCEPT = {TLS_ACCEPT, READING, SENDING_HEADERS}"
| "event_states READING = {READING, PARSING, SENDING_HEADERS, SENDING_BODY, KEEP_ALIVE, CLOSED}"
| "event_states PARSING = {PARSING, SENDING_HEADERS, SENDING_BODY, KEEP_ALIVE, CLOSED}"
| "event_states SENDING_HEADERS = {SENDING_HEADERS, SENDING_BODY, KEEP_ALIVE, CLOSED}"
| "event_states SENDING_BODY = {SENDING_BODY, KEEP_ALIVE, CLOSED}"
| "event_states KEEP_ALIVE = {KEEP_ALIVE, PARSING, SENDING_HEADERS, SENDING_BODY, CLOSED}"
| "event_states CLOSED = {CLOSED}"

lemma process_connection_states:
  assumes "loop_inv el" and "i < MAX_CONNECTIONS" and "io_ok (li_io li)" and "process_connection li i el = Inr (el', es)"
  shows "cn_state (conn_at i el') \<in> event_states (cn_state (conn_at i el))"
proof (cases "cn_state (conn_at i el) = CLOSED")
  case True
  then show ?thesis using assms(4) by (simp add: process_connection_def)
next
  case False
  let ?c = "conn_at i el"
  obtain w0 c0 es0 where a: "conn_action (li_io li) (el_tls_ctx el \<noteq> None) ?c = (w0, c0, es0)"
    by (cases "conn_action (li_io li) (el_tls_ctx el \<noteq> None) ?c")
  note st0 = conn_action_states [OF a]
  from assms(1-4) False show ?thesis
  proof (cases rule: process_connection_cases)
    case (destroyed w c es1 es2)
    have "cn_state c0 = CLOSED" using inject_ssl_states [OF destroyed(1) [unfolded a]] destroyed(3) by auto
    then show ?thesis using st0 destroyed(6) False by (cases "cn_state ?c") auto
  next
    case (kept w c es1 w1 c1 es2 w2 c2)
    have inv: "conn_inv c1" using kept(4) by (simp add: step_ok.simps)
    have "cn_state (conn_at i el') = cn_state c2" using unlinked_fields [OF kept(8)] by blast
    then show ?thesis
      using st0 inject_ssl_states [OF kept(1) [unfolded a]] inline_parse_states [OF kept(3)] respond_states [OF kept(6) inv]
      by (cases "cn_state ?c") auto
  qed
qed


subsection \<open>The events of others\<close>

text \<open>When the walk of the timer meets the connection and finds it idle for too long.\<close>

definition expires :: "loop_io \<Rightarrow> event_loop \<Rightarrow> nat \<Rightarrow> bool" where
  "expires li el i \<longleftrightarrow> cn_state (conn_at i el) = KEEP_ALIVE
     \<and> io_now (li_io li) - cn_last_active (conn_at i el) > el_keep_alive_timeout el * 1000000000"

lemma expires_overdue:
  assumes "loop_inv el" and "i < MAX_CONNECTIONS"
  shows "i \<in> set (filter (overdue li el) (ka_list el)) \<longleftrightarrow> expires li el i"
  using assms by (auto simp: expires_def loop_inv_def listed_def is_expired_def)

lemma accept_loop_free:
  assumes "loop_inv el" and "accept_loop now fds el = (el', es)" and "x \<in> lent (el_pool el') - lent (el_pool el)"
  shows "cn_state (conn_at x el') = PROTO_DETECT"
  using assms
proof (induction fds arbitrary: el es)
  case (Cons fd fds)
  show ?case
  proof (cases "fd < 0")
    case False
    then have fd: "0 \<le> fd" by simp
    obtain r el1 where cr: "create_connection now fd el = (r, el1)" by (cases "create_connection now fd el")
    note ok = create_connection_ok [OF Cons.prems(1) fd cr]
    show ?thesis
    proof (cases r)
      case None
      then show ?thesis using Cons.prems False cr ok(2) [OF None] by simp
    next
      case (Some i)
      note new = ok(3) [OF Some]
      obtain es1 where al: "accept_loop now fds el1 = (el', es1)"
        using Cons.prems(2) False cr Some by (auto split: prod.splits)
      have keep: "conn_at i el' = conn_at i el1" using accept_loop_ok [OF ok(1) al] new by blast
      show ?thesis
      proof (cases "x = i")
        case True
        then show ?thesis using keep new by simp
      next
        case False
        have "lent (el_pool el1) = insert i (lent (el_pool el))" using new by blast
        then show ?thesis using Cons.IH [OF ok(1) al] Cons.prems(3) False by blast
      qed
    qed
  qed (use Cons.prems in simp)
qed simp

lemma dispatch_other:
  assumes "loop_inv el" and "event_ok el li ev" and "dispatch li ev el = Some (Inr (el', es))"
    and "ke_udata ev \<noteq> Conn i" and "i < MAX_CONNECTIONS"
  shows "if ke_udata ev = Timer_Tag \<and> \<not> (EV_ERROR \<in> ke_flags ev \<or> EV_EOF \<in> ke_flags ev) \<and> expires li el i
      then cn_state (conn_at i el') = CLOSED
    else if i \<in> lent (el_pool el) then i \<in> lent (el_pool el') \<and> unlinked (conn_at i el') = unlinked (conn_at i el)
    else cn_state (conn_at i el') = CLOSED \<and> i \<notin> lent (el_pool el')
      \<or> ke_udata ev = Listener_Tag \<and> i \<in> lent (el_pool el') \<and> cn_state (conn_at i el') = PROTO_DETECT"
proof (cases "EV_ERROR \<in> ke_flags ev \<or> EV_EOF \<in> ke_flags ev")
  case True
  show ?thesis
  proof (cases "ke_udata ev")
    case (Conn j)
    then have j: "j \<in> lent (el_pool el)" "j \<noteq> i" using assms(2,4) True by (auto simp: event_ok_def)
    have "loop_base el" "listed {j} el" using assms(1) by (simp_all add: loop_inv_def listed_def)
    from destroy_connection_ok [OF this j(1)] assms(3) True Conn have d: "lent (el_pool el') = lent (el_pool el) - {j}"
      "\<forall>x. x \<noteq> j \<longrightarrow> unlinked (conn_at x el') = unlinked (conn_at x el)" by (auto simp: dispatch_def)
    then have "unlinked (conn_at i el') = unlinked (conn_at i el)" using j(2) by simp
    then show ?thesis using d(1) j(2) True unlinked_fields [of "conn_at i el'" "conn_at i el"] assms(1,5)
      by (auto simp: loop_inv_def loop_base_def)
  qed (use assms True in \<open>auto simp: dispatch_def loop_inv_def loop_base_def\<close>)
next
  case False
  show ?thesis
  proof (cases "ke_udata ev")
    case Listener_Tag
    then have a: "accept_loop (io_now (li_io li)) (li_accept li) el = (el', es)"
      using assms(3) False by (simp add: dispatch_def handle_accept_def)
    note ok = accept_loop_ok [OF assms(1) a]
    have fr: "cn_state (conn_at i el') = CLOSED" if "i \<notin> lent (el_pool el')"
      using ok that assms(5) by (auto simp: loop_inv_def loop_base_def)
    have new: "cn_state (conn_at i el') = PROTO_DETECT" if "i \<in> lent (el_pool el')" "i \<notin> lent (el_pool el)"
      using accept_loop_free [OF assms(1) a] that by blast
    show ?thesis using Listener_Tag ok fr new by auto
  next
    case Timer_Tag
    have "handle_timer li el = Some (Inr (el', es))" using assms(3) False Timer_Tag by (simp add: dispatch_def)
    with handle_timer_ok [OF assms(1), of li] have t: "loop_inv el'"
      "lent (el_pool el') = lent (el_pool el) - set (filter (overdue li el) (ka_list el))"
      "\<forall>x. x \<notin> set (filter (overdue li el) (ka_list el)) \<longrightarrow> unlinked (conn_at x el') = unlinked (conn_at x el)" by auto
    note ex = expires_overdue [OF assms(1,5), of li]
    show ?thesis
    proof (cases "expires li el i")
      case True
      then show ?thesis using t(1,2) ex assms(5) Timer_Tag False by (simp add: loop_inv_def loop_base_def)
    next
      case ne: False
      then have "i \<notin> set (filter (overdue li el) (ka_list el))" using ex by simp
      then have "unlinked (conn_at i el') = unlinked (conn_at i el)" "i \<in> lent (el_pool el') \<longleftrightarrow> i \<in> lent (el_pool el)"
        using t(2,3) by simp_all
      then show ?thesis using ne t(1) assms(5) by (auto simp: loop_inv_def loop_base_def)
    qed
  next
    case (Conn j)
    then have j: "j < MAX_CONNECTIONS" "io_ok (li_io li)" "j \<noteq> i" and p: "process_connection li j el = Inr (el', es)"
      using assms(2-4) False by (auto simp: event_ok_def dispatch_def)
    have s: "served j el el'" using process_connection_ok [OF assms(1) j(1,2)] p by auto
    then have "unlinked (conn_at i el') = unlinked (conn_at i el)" "i \<in> lent (el_pool el') \<longleftrightarrow> i \<in> lent (el_pool el)"
      using j(3) by (auto simp: served_def)
    then show ?thesis using s Conn assms(5) by (auto simp: served_def loop_inv_def loop_base_def)
  next
    case Null_Tag
    then show ?thesis using assms(3) False by (simp add: dispatch_def)
  qed
qed

text \<open>
  C12: connections are isolated.  An event of the listener, of the timer or of another connection leaves a
  connection that is in use as it is, its links in the keep-alive list aside; the only exception is the
  timer, which closes it when it has been idle for longer than the timeout.
\<close>

theorem connections_isolated:
  assumes "reachable el" and "event_ok el li ev" and "dispatch li ev el = Some (Inr (el', es))"
    and "i \<in> lent (el_pool el)" and "ke_udata ev \<noteq> Conn i"
  shows "i \<in> lent (el_pool el') \<and> unlinked (conn_at i el') = unlinked (conn_at i el)
    \<or> ke_udata ev = Timer_Tag \<and> expires li el i \<and> cn_state (conn_at i el') = CLOSED"
proof -
  have "i < MAX_CONNECTIONS" using assms(4) by (simp add: lent_def)
  from dispatch_other [OF reachable_inv [OF assms(1)] assms(2,3,5) this] show ?thesis
    using assms(4) by (auto split: if_splits)
qed

lemma connections_isolated_witness:
  "\<exists>el el' es i. reachable el \<and> handle_accept (example_io io_idle [6]) el = (el', es) \<and> i \<in> lent (el_pool el)
     \<and> unlinked (conn_at i el') = unlinked (conn_at i el)"
proof -
  let ?li = "example_io io_idle [6]"
  obtain el i where el: "reachable el" "i < MAX_CONNECTIONS" "cn_state (conn_at i el) = KEEP_ALIVE" using example_idle by blast
  then have lent: "i \<in> lent (el_pool el)" using reachable_inv [OF el(1)] by (auto simp: loop_inv_def loop_base_def)
  obtain el' es where a: "handle_accept ?li el = (el', es)" by (cases "handle_accept ?li el")
  then have d: "dispatch ?li (example_event Listener_Tag) el = Some (Inr (el', es))" by (simp add: dispatch_def example_event_def)
  have "event_ok el ?li (example_event Listener_Tag)" by (simp add: event_ok_def example_event_def example_io_def)
  from connections_isolated [OF el(1) this d lent] have "unlinked (conn_at i el') = unlinked (conn_at i el)"
    by (simp add: example_event_def)
  then show ?thesis using el(1) a lent by blast
qed

text \<open>
  C13: the state diagram.  The state of a connection changes only along the table \<open>event_states\<close>, by an event of
  its own; when the listener gives a free slot to a new connection, which starts in \<open>PROTO_DETECT\<close>; and when
  an error, the end of the stream or the timer closes it.
\<close>

theorem state_diagram:
  assumes "reachable el" and "event_ok el li ev" and "dispatch li ev el = Some (Inr (el', es))" and "i < MAX_CONNECTIONS"
  shows "if ke_udata ev = Conn i then cn_state (conn_at i el') \<in> event_states (cn_state (conn_at i el)) \<union> {CLOSED}
    else cn_state (conn_at i el') = cn_state (conn_at i el)
      \<or> ke_udata ev = Timer_Tag \<and> cn_state (conn_at i el) = KEEP_ALIVE \<and> cn_state (conn_at i el') = CLOSED
      \<or> ke_udata ev = Listener_Tag \<and> cn_state (conn_at i el) = CLOSED \<and> cn_state (conn_at i el') = PROTO_DETECT"
proof -
  have inv: "loop_inv el" by (rule reachable_inv [OF assms(1)])
  show ?thesis
  proof (cases "ke_udata ev = Conn i")
    case False
    have "cn_state (conn_at i el) = CLOSED" if "i \<notin> lent (el_pool el)"
      using inv assms(4) that by (simp add: loop_inv_def loop_base_def)
    then show ?thesis using dispatch_other [OF inv assms(2,3) False assms(4)] False
        unlinked_fields [of "conn_at i el'" "conn_at i el"] by (auto simp: expires_def split: if_splits)
  next
    case own: True
    show ?thesis
    proof (cases "EV_ERROR \<in> ke_flags ev \<or> EV_EOF \<in> ke_flags ev")
      case True
      then have i: "i \<in> lent (el_pool el)" using assms(2) own by (simp add: event_ok_def)
      have "loop_base el" "listed {i} el" using inv by (simp_all add: loop_inv_def listed_def)
      from destroy_connection_ok [OF this i] show ?thesis using assms(3) own True by (auto simp: dispatch_def)
    next
      case False
      then have "process_connection li i el = Inr (el', es)" "io_ok (li_io li)"
        using assms(2,3) own by (simp_all add: dispatch_def event_ok_def)
      from process_connection_states [OF inv assms(4) this(2,1)] show ?thesis using own by simp
    qed
  qed
qed


lemma state_diagram_witness:
  "\<exists>el el' es i. reachable el \<and> dispatch (example_io (io_input []) []) (example_event (Conn i)) el = Some (Inr (el', es))
     \<and> cn_state (conn_at i el') \<in> {SENDING_HEADERS, SENDING_BODY, KEEP_ALIVE, CLOSED}"
proof -
  let ?li = "example_io (io_input []) []"
  obtain el i where el: "reachable el" "i < MAX_CONNECTIONS" and c: "cn_state (conn_at i el) = SENDING_HEADERS" "cn_ssl (conn_at i el) = None"
    "rs_body (cn_response (conn_at i el)) \<noteq> []" "cn_body_sent (conn_at i el) = 0" "cn_file_fd (conn_at i el) = -1"
    "\<not> cn_is_head (conn_at i el)" "cn_header_sent (conn_at i el) = 0"
    using example_page by blast
  have io: "li_io ?li = io_input []" by (simp add: example_io_def)
  obtain c' es where d: "do_send_headers (io_input []) (conn_at i el) = (Want_Read, c', es)" "cn_state c' = KEEP_ALIVE"
    using page_sent [OF c(2-7), of "[]"] by blast
  then have "conn_action (li_io ?li) (el_tls_ctx el \<noteq> None) (conn_at i el) = (Want_Read, c', es)"
    using c(1) by (simp add: conn_action_def io)
  then obtain el' where p: "dispatch ?li (example_event (Conn i)) el = Some (Inr (el', es))"
    using process_reaches [OF el, of ?li Want_Read c' es] c(1) d(2) io_input_ok io by auto
  have "event_ok el ?li (example_event (Conn i))" using el(2) io_input_ok by (simp add: event_ok_def example_event_def io)
  from state_diagram [OF el(1) this p el(2)] c(1) have "cn_state (conn_at i el') \<in> {SENDING_HEADERS, SENDING_BODY, KEEP_ALIVE, CLOSED}"
    by (auto simp: example_event_def)
  then show ?thesis using el(1) p by blast
qed

end
