(* ===== verification/Connection_Read.thy ===== *)
theory Connection_Read
  imports Connection_Safety
begin

text \<open>
  What a connection reads, independent of how the network cuts it into pieces.
\<close>

subsection \<open>Searching a longer string\<close>

lemma find_str_append:
  "pat \<noteq> [] \<Longrightarrow> find_str pat xs = Some i \<Longrightarrow> find_str pat (xs @ ys) = Some i"
proof (induction pat xs arbitrary: i rule: find_str.induct)
  case (2 pat c cs)
  show ?case
  proof (cases "take (length pat) (c # cs) = pat")
    case True
    then have "take (length pat) (c # cs @ ys) = pat" by (metis append_Cons length_take min.absorb_iff2 take_all_iff take_append append_Nil2 diff_is_0_eq take0)
    then show ?thesis using 2 True by simp
  next
    case False
    then obtain z where z: "find_str pat cs = Some z" "i = Suc z" using 2 by auto
    have "length pat \<le> length cs" using find_str_SomeD [OF z(1)] by simp
    then have "take (length pat) (c # cs @ ys) = take (length pat) (c # cs)"
      by (cases "length pat") simp_all
    then show ?thesis using 2 False z by simp
  qed
qed simp

lemma parse_request_append:
  assumes "find_str CRLFCRLF raw \<noteq> None"
  shows "parse_request r (raw @ later) = parse_request r raw"
proof -
  obtain i where i: "find_str CRLFCRLF raw = Some i" using assms by auto
  then have "i \<le> length raw" using find_str_SomeD by fastforce
  then have t: "take i (raw @ later) = take i raw" by simp
  have f: "find_str CRLFCRLF (raw @ later) = Some i" using i by (intro find_str_append) simp_all
  show ?thesis unfolding parse_request_def i f option.case Let_def t ..
qed

subsection \<open>Segments\<close>

text \<open>The reads of a connection while it waits for the end of the headers.\<close>

fun read_run :: "io list \<Rightarrow> connection \<Rightarrow> connection" where
  "read_run [] c = c"
| "read_run (io # ios) c =
     (if cn_state c = READING then case do_read io c of (w, c', es) \<Rightarrow> read_run ios c' else c)"

text \<open>Answers that deliver a byte string piece by piece, with events that had nothing to read between.\<close>

fun segments :: "int \<Rightarrow> io list \<Rightarrow> string \<Rightarrow> bool" where
  "segments fd [] input \<longleftrightarrow> input = []"
| "segments fd (io # ios) input \<longleftrightarrow>
     (case io_read io fd 4096 of
        Sys_OK bs \<Rightarrow> bs \<noteq> [] \<and> take (length bs) input = bs \<and> segments fd ios (drop (length bs) input)
      | Sys_EAGAIN \<Rightarrow> segments fd ios input
      | Sys_Error \<Rightarrow> False)"

lemma read_run_stop: "cn_state c \<noteq> READING \<Longrightarrow> read_run ios c = c"
  by (cases ios) simp_all

definition gathered :: "string \<Rightarrow> connection \<Rightarrow> bool" where
  "gathered input c \<longleftrightarrow> (\<exists>rest. input = cn_read_buf c @ rest
     \<and> (if find_str CRLFCRLF input = None then cn_state c = READING \<and> rest = []
        else cn_state c = PARSING \<and> find_str CRLFCRLF (cn_read_buf c) \<noteq> None))"

lemma read_run_segments:
  assumes "cn_state c = READING" and "cn_ssl c = None" and "segments (cn_fd c) ios input"
    and "length (cn_read_buf c @ input) \<le> 65536" and "find_str CRLFCRLF (cn_read_buf c) = None"
  shows "gathered (cn_read_buf c @ input) (read_run ios c)"
  using assms
proof (induction ios arbitrary: c input)
  case (Cons io ios)
  let ?t = "c\<lparr>cn_last_active := io_now io\<rparr>"
  show ?case
  proof (cases "io_read io (cn_fd c) 4096")
    case Sys_EAGAIN
    then have "read_run (io # ios) c = read_run ios ?t" using Cons.prems(1,2) by (simp add: do_read_def waiting_def)
    then show ?thesis using Cons.IH [of ?t input] Cons.prems Sys_EAGAIN by simp
  next
    case (Sys_OK bs)
    let ?c = "?t\<lparr>cn_read_buf := cn_read_buf c @ bs\<rparr>"
    have bs: "bs \<noteq> []" "take (length bs) input = bs" "segments (cn_fd c) ios (drop (length bs) input)"
      using Cons.prems(3) Sys_OK by simp_all
    have input: "input = bs @ drop (length bs) input" using append_take_drop_id [of "length bs" input] bs(2) by simp
    have len: "length (cn_read_buf c @ bs) \<le> 65536" using Cons.prems(4) by (subst (asm) input) simp
    have rd: "do_read io c = received bs ?t" using Cons.prems(2) Sys_OK bs(1) by (simp add: do_read_def)
    show ?thesis
    proof (cases "find_str CRLFCRLF (cn_read_buf c @ bs)")
      case None
      then have "read_run (io # ios) c = read_run ios ?c"
        using Cons.prems(1) len rd by (simp add: received_def waiting_def)
      moreover have "cn_read_buf ?c @ drop (length bs) input = cn_read_buf c @ input" by (subst (2) input) simp
      ultimately show ?thesis using Cons.IH [of ?c "drop (length bs) input"] Cons.prems bs(3) None by (simp del: append_assoc)
    next
      case (Some k)
      then have "read_run (io # ios) c = read_run ios (?c\<lparr>cn_headers_complete := True, cn_state := PARSING\<rparr>)"
        using Cons.prems(1) rd by (simp add: received_def waiting_def)
      then have r: "read_run (io # ios) c = ?c\<lparr>cn_headers_complete := True, cn_state := PARSING\<rparr>"
        by (simp add: read_run_stop)
      have "find_str CRLFCRLF (cn_read_buf c @ input) = Some k"
        using find_str_append [OF _ Some, of "drop (length bs) input"] input by simp
      show ?thesis unfolding r gathered_def
        using \<open>find_str CRLFCRLF (cn_read_buf c @ input) = Some k\<close> Some input
        by (intro exI [of _ "drop (length bs) input"]) simp
    qed
  qed (use Cons.prems in simp)
qed (simp add: gathered_def)



end
