(* ===== verification/Response_Spec.thy ===== *)
theory Response_Spec
  imports Prepare_Response
begin

text \<open>
  What a client is promised, stated without the program's buffers, offsets and setters: which answer a
  request gets, and the bytes of an answer.  \<open>prepare_response\<close> refines it: what it leaves to be sent
  on the connection is, byte for byte, the answer.
\<close>

subsection \<open>Answers\<close>

text \<open>A page in memory, 304 for a file the client has, or a file or an interval of it.\<close>

datatype answer =
  Page status string
| Unchanged file_info
| Content file_info "(int \<times> int) option"

definition still_valid :: "server_io \<Rightarrow> http_request \<Rightarrow> file_info \<Rightarrow> bool" where
  "still_valid si req info \<longleftrightarrow>
     (case parse_if_modified_since (si_strptime si) timegm req of Some t \<Rightarrow> fi_last_modified info \<le> t | None \<Rightarrow> False)"

definition answer_to :: "server_io \<Rightarrow> string \<Rightarrow> http_request \<Rightarrow> answer cpp" where
  "answer_to si root req =
     (if rq_method req = UNKNOWN then Inr (Page NOT_IMPLEMENTED (error_body NOT_IMPLEMENTED))
      else case open_file (si_fs si) root (rq_path req) of
        Inl FE_IS_DIRECTORY \<Rightarrow> Inr (Page ST_OK (directory_page si root (rq_path req)))
      | Inl e \<Rightarrow> Inr (Page (status_of_error e) (error_body (status_of_error e)))
      | Inr info \<Rightarrow> if still_valid si req info then Inr (Unchanged info)
          else map_sum id (Content info) (parse_range req (fi_size info)))"

subsection \<open>The bytes of an answer\<close>

fun answer_status :: "answer \<Rightarrow> status" where
  "answer_status (Page st body) = st"
| "answer_status (Unchanged info) = NOT_MODIFIED"
| "answer_status (Content info None) = ST_OK"
| "answer_status (Content info (Some r)) = PARTIAL_CONTENT"

text \<open>The body, where \<open>content\<close> gives the bytes of each open file.\<close>

fun answer_body :: "(int \<Rightarrow> string) \<Rightarrow> answer \<Rightarrow> string" where
  "answer_body content (Page st body) = body"
| "answer_body content (Unchanged info) = []"
| "answer_body content (Content info None) = content (fi_fd info)"
| "answer_body content (Content info (Some (a, b))) = take (nat (b - a + 1)) (drop (nat a) (content (fi_fd info)))"

abbreviation length_field :: "string \<Rightarrow> string \<times> string" where
  "length_field body \<equiv> (''Content-Length'', string_of_nat (length body))"

fun answer_fields :: "(int \<Rightarrow> string) \<Rightarrow> int \<Rightarrow> bool \<Rightarrow> answer \<Rightarrow> (string \<times> string) list" where
  "answer_fields content now keep (Page st body) =
     [(''Date'', format_time now), (''Content-Type'', ''text/html; charset=utf-8''), length_field body,
      (''Connection'', if keep then ''keep-alive'' else ''close'')]"
| "answer_fields content now keep (Unchanged info) =
     [(''Date'', format_time now), (''Last-Modified'', format_time (fi_last_modified info)),
      (''Connection'', if keep then ''keep-alive'' else ''close'')]"
| "answer_fields content now keep (Content info rng) =
     [(''Date'', format_time now), (''Content-Type'', fi_mime_type info), length_field (answer_body content (Content info rng)),
      (''Last-Modified'', format_time (fi_last_modified info)), (''Accept-Ranges'', ''bytes''),
      (''Connection'', if keep then ''keep-alive'' else ''close'')]
     @ (case rng of None \<Rightarrow> [] | Some (a, b) \<Rightarrow> [(''Content-Range'', content_range a b (fi_size info))])"

definition answer_head :: "(int \<Rightarrow> string) \<Rightarrow> int \<Rightarrow> bool \<Rightarrow> answer \<Rightarrow> string" where
  "answer_head content now keep a =
     lines_block ((''HTTP/1.1 '' @ string_of_nat (unat (status_code (answer_status a))) @ '' '' @ reason (answer_status a))
       # map render_header (answer_fields content now keep a)) @ CRLF"

definition answer_wire :: "(int \<Rightarrow> string) \<Rightarrow> int \<Rightarrow> http_request \<Rightarrow> answer \<Rightarrow> string" where
  "answer_wire content now req a = answer_head content now (is_keep_alive req) a
     @ (if rq_method req = HEAD then [] else answer_body content a)"

text \<open>The lengths are those of the C++ types, and an open file has the size \<open>stat\<close> gave.\<close>

fun well_sized :: "(int \<Rightarrow> string) \<Rightarrow> answer \<Rightarrow> bool" where
  "well_sized content (Page st body) \<longleftrightarrow> length body < 2 ^ 64"
| "well_sized content (Unchanged info) \<longleftrightarrow> True"
| "well_sized content (Content info rng) \<longleftrightarrow> 0 \<le> fi_size info \<and> fi_size info \<le> off_max
     \<and> length (content (fi_fd info)) = nat (fi_size info)"


subsection \<open>The program computes the answer\<close>

text \<open>The connection and the effects that stand for an answer.\<close>

definition realise :: "server_io \<Rightarrow> connection \<Rightarrow> answer \<Rightarrow> connection \<times> effect list" where
  "realise si c a =
     (case a of
        Page st body \<Rightarrow> (text_response (si_io si) st body (answering c), [])
      | Unchanged info \<Rightarrow> (not_modified si info (answering c), [E_Open (fi_fd info), E_Close (fi_fd info)])
      | Content info rng \<Rightarrow> (file_response si info rng (rq_method (cn_request c) = HEAD) (answering c), [E_Open (fi_fd info)]))"

lemma prepare_response_answer:
  "prepare_response si root c = map_sum id (realise si c) (answer_to si root (cn_request c))"
proof (cases "rq_method (cn_request c) = UNKNOWN")
  case True
  then show ?thesis by (simp add: prepare_response_def answer_to_def realise_def Let_def)
next
  case False
  then have m: "rq_method (cn_request c) = GET \<or> rq_method (cn_request c) = HEAD"
    by (cases "rq_method (cn_request c)") simp_all
  show ?thesis
  proof (cases "open_file (si_fs si) root (rq_path (cn_request c))")
    case (Inl e)
    then show ?thesis using m
      by (cases e) (auto simp: prepare_response_def answer_to_def realise_def Let_def)
  next
    case (Inr info)
    have "still_valid si (cn_request c) info \<longleftrightarrow>
        (\<exists>t. parse_if_modified_since (si_strptime si) timegm (cn_request c) = Some t \<and> fi_last_modified info \<le> t)"
      by (simp add: still_valid_def split: option.split)
    then show ?thesis using False Inr prepare_response_file [OF False Inr]
      by (cases "parse_range (cn_request c) (fi_size info)") (simp_all add: answer_to_def realise_def Let_def)
  qed
qed

text \<open>What holds of the answers that are given.\<close>

lemma detect_mime_type_nonempty: "detect_mime_type path \<noteq> []"
proof -
  have "\<forall>(ext, m) \<in> set MIME_TABLE. m \<noteq> []" by (simp add: MIME_TABLE_def)
  moreover have "mime_search MIME_TABLE ext = Some m \<Longrightarrow> m \<in> snd ` set MIME_TABLE" for ext m
    using lower_bound_range [of 0 mime_less MIME_TABLE ext "length MIME_TABLE"]
    by (auto simp: mime_search_def Let_def intro!: imageI nth_mem split: if_splits)
  ultimately show ?thesis
    by (auto simp: detect_mime_type_def FALLBACK_MIME_def split: option.split) fastforce
qed

lemma open_file_mime: "open_file fs root p = Inr info \<Longrightarrow> fi_mime_type info \<noteq> []"
  by (auto simp: open_file_def Let_def detect_mime_type_nonempty split: if_splits option.splits sum.splits prod.splits)

definition given :: "server_io \<Rightarrow> string \<Rightarrow> http_request \<Rightarrow> answer \<Rightarrow> bool" where
  "given si root req a \<longleftrightarrow>
     (case a of
        Page st body \<Rightarrow> body \<noteq> [] \<and> st \<noteq> NOT_MODIFIED
      | Unchanged info \<Rightarrow> True
      | Content info rng \<Rightarrow> 0 \<le> fi_fd info \<and> fi_mime_type info \<noteq> [] \<and> parse_range req (fi_size info) = Inr rng)"

lemma answer_given: "answer_to si root req = Inr a \<Longrightarrow> given si root req a"
  by (auto simp: answer_to_def given_def open_file_fd open_file_mime error_body_def directory_page_def
      build_directory_html_def page_head_def Let_def map_sum_Inr_iff split: if_splits sum.splits file_error.splits)


lemma pending_fresh:
  assumes "cn_header_sent c = 0" and "cn_header_buf c = build_headers t (cn_response c)"
  shows "pending_response content c = build_headers t (cn_response c)
    @ (if cn_is_head c \<or> (\<not> has_body (cn_response c) \<and> cn_file_fd c < 0) then [] else pending_body content c)"
  using assms by (simp add: pending_response_def)

lemma build_headers_fields:
  assumes "status_code (rs_status r) = status_code st \<and> reason (rs_status r) = reason st" and "response_fields t r = fs"
  shows "build_headers t r = lines_block ((''HTTP/1.1 '' @ string_of_nat (unat (status_code st)) @ '' '' @ reason st)
      # map render_header fs) @ CRLF"
  using assms by (simp add: build_headers_block status_line_def)

lemma unat_length: "length xs < 2 ^ 64 \<Longrightarrow> unat (of_nat (length xs) :: 64 word) = length xs"
  by (simp add: unsigned_of_nat take_bit_nat_eq_self)

text \<open>The part of the connection that an answer is sent from, before it is prepared.\<close>

definition blank :: "connection \<Rightarrow> bool" where
  "blank c \<longleftrightarrow> unsent c \<and> no_file c"

lemma blank_answering: "blank (answering c) = blank c"
  by (simp add: blank_def unsent_def no_file_def)

lemma page_wire:
  assumes "blank c" and "length body < 2 ^ 64" and "body \<noteq> []" and "st \<noteq> NOT_MODIFIED"
  shows "pending_response content (text_response io st body (answering c)) = answer_wire content (io_time io) (cn_request c) (Page st body)"
proof -
  let ?c = "text_response io st body (answering c)"
  have f: "cn_file_fd ?c < 0" "\<not> cn_file_fd ?c \<ge> 0" and b: "pending_body content ?c = body"
    using assms(1,3) by (auto simp: pending_body_def blank_def unsent_def no_file_def)
  have "response_fields (io_time io) (cn_response ?c) = answer_fields content (io_time io) (is_keep_alive (cn_request c)) (Page st body)"
    using assms(4) unat_length [OF assms(2)]
    by (simp add: response_fields_def text_response_def prepare_headers_def response_setters)
  then have h: "build_headers (io_time io) (cn_response ?c) = answer_head content (io_time io) (is_keep_alive (cn_request c)) (Page st body)"
    unfolding answer_head_def by (intro build_headers_fields) simp_all
  have "cn_header_sent ?c = 0" "cn_header_buf ?c = build_headers (io_time io) (cn_response ?c)" 
    by (simp_all add: text_response_def prepare_headers_def)
  from pending_fresh [OF this] show ?thesis using assms(3) b h
    by (cases "rq_method (cn_request c) = HEAD") (simp_all add: answer_wire_def)
qed

lemma unchanged_wire:
  assumes "blank c"
  shows "pending_response content (not_modified si info (answering c))
    = answer_wire content (io_time (si_io si)) (cn_request c) (Unchanged info)"
proof -
  let ?c = "not_modified si info (answering c)"
  have "response_fields (io_time (si_io si)) (cn_response ?c)
      = answer_fields content (io_time (si_io si)) (is_keep_alive (cn_request c)) (Unchanged info)"
    by (simp add: response_fields_def not_modified_def prepare_headers_def response_setters)
  then have h: "build_headers (io_time (si_io si)) (cn_response ?c)
      = answer_head content (io_time (si_io si)) (is_keep_alive (cn_request c)) (Unchanged info)"
    unfolding answer_head_def by (intro build_headers_fields) (simp_all add: not_modified_def prepare_headers_def response_setters)
  have "cn_header_sent ?c = 0" "cn_header_buf ?c = build_headers (io_time (si_io si)) (cn_response ?c)"
    "\<not> has_body (cn_response ?c)" "cn_file_fd ?c < 0"
    using assms by (simp_all add: not_modified_def prepare_headers_def response_setters blank_def no_file_def)
  with pending_fresh [OF this(1,2)] show ?thesis by (simp add: h answer_wire_def)
qed

lemma content_wire:
  assumes "blank c" and "well_sized content (Content info rng)" and "given si root (cn_request c) (Content info rng)"
  shows "pending_response content (file_response si info rng (rq_method (cn_request c) = HEAD) (answering c))
    = answer_wire content (io_time (si_io si)) (cn_request c) (Content info rng)"
proof -
  let ?c = "file_response si info rng (rq_method (cn_request c) = HEAD) (answering c)" and ?a = "Content info rng"
  have g: "0 \<le> fi_fd info" "fi_mime_type info \<noteq> []" "parse_range (cn_request c) (fi_size info) = Inr rng"
    using assms(3) by (simp_all add: given_def)
  have sz: "0 \<le> fi_size info" "fi_size info \<le> off_max" "length (content (fi_fd info)) = nat (fi_size info)"
    using assms(2) by simp_all
  have inside: "0 \<le> a \<and> a \<le> b \<and> b < fi_size info" if "rng = Some (a, b)" for a b
    using parse_range_inside g(3) that by simp
  have un: "unsent (answering c)" using assms(1) by (simp add: blank_def unsent_def)
  have body: "pending_body content ?c = answer_body content ?a"
    using un inside sz g(1) by (auto simp: pending_body_def unsent_def split: option.split)
  have len: "unat (rs_content_length (cn_response ?c)) = length (answer_body content ?a)"
    unfolding body [symmetric] by (rule file_response_length [where content = content, OF g(3) un g(1) sz])
  have st: "rs_status (cn_response ?c) = answer_status ?a" by (cases rng) simp_all
  have "rs_accept_ranges (cn_response ?c)"
    by (simp add: file_response_def Let_def prepare_headers_def set_send_file_def release_fd_def response_setters split: option.split prod.split)
  then have "response_fields (io_time (si_io si)) (cn_response ?c) = answer_fields content (io_time (si_io si)) (is_keep_alive (cn_request c)) ?a"
    using g(2) len by (cases rng) (auto simp: response_fields_def response_setters)
  then have h: "build_headers (io_time (si_io si)) (cn_response ?c) = answer_head content (io_time (si_io si)) (is_keep_alive (cn_request c)) ?a"
    unfolding answer_head_def st [symmetric] by (intro build_headers_fields) (simp_all add: st)
  have "cn_header_sent ?c = 0" "cn_header_buf ?c = build_headers (io_time (si_io si)) (cn_response ?c)"
    by (simp_all add: file_response_def Let_def prepare_headers_def set_send_file_def release_fd_def split: option.split prod.split)
  from pending_fresh [OF this] show ?thesis using g(1) body h
    by (cases "rq_method (cn_request c) = HEAD") (simp_all add: answer_wire_def)
qed

lemma realise_wire:
  assumes "blank c" and "given si root (cn_request c) a" and "well_sized content a"
  shows "pending_response content (fst (realise si c a)) = answer_wire content (io_time (si_io si)) (cn_request c) a"
proof (cases a)
  case (Page st body)
  with assms show ?thesis by (simp add: realise_def given_def page_wire)
next
  case (Unchanged info)
  with assms(1) show ?thesis by (simp add: realise_def unchanged_wire)
next
  case (Content info rng)
  with assms content_wire show ?thesis by (simp add: realise_def)
qed


text \<open>Every descriptor the answer needs is there, and the headers have yet to be sent.\<close>

lemma realise_covers:
  assumes "blank c" and "given si root (cn_request c) a" and "well_sized content a"
  shows "covers content (fst (realise si c a))"
proof (cases a)
  case (Content info rng)
  have "0 \<le> x \<and> x \<le> y \<and> y < fi_size info" if "rng = Some (x, y)" for x y
    using parse_range_inside [of "cn_request c" "fi_size info" x y] assms(2) Content that by (simp add: given_def)
  then show ?thesis using assms(2,3) Content by (auto simp: realise_def covers_def given_def split: option.split)
qed (use assms(1) in \<open>auto simp: realise_def covers_def blank_def no_file_def text_response_def not_modified_def prepare_headers_def\<close>)

lemma realise_header:
  "\<exists>rest. cn_header_buf (fst (realise si c a)) = ''HTTP/1.1 '' @ rest" and "cn_header_sent (fst (realise si c a)) = 0"
proof -
  have "\<exists>rest. build_headers t r = ''HTTP/1.1 '' @ rest" for t r unfolding build_headers_def by (intro exI) (rule refl)
  then show "\<exists>rest. cn_header_buf (fst (realise si c a)) = ''HTTP/1.1 '' @ rest"
    by (cases a) (simp_all add: realise_def text_response_def not_modified_def file_response_def Let_def prepare_headers_def
        set_send_file_def release_fd_def split: option.split prod.split)
  show "cn_header_sent (fst (realise si c a)) = 0"
    by (cases a) (simp_all add: realise_def text_response_def not_modified_def file_response_def Let_def prepare_headers_def
        set_send_file_def release_fd_def split: option.split prod.split)
qed

text \<open>An example: three bytes of a file of five.\<close>

definition example_info :: file_info where
  "example_info = \<lparr>fi_fd = 7, fi_size = 5, fi_last_modified = 9, fi_mime_type = ''text/plain'', fi_resolved_path = ''/srv/a.txt''\<rparr>"

lemma example_blank: "blank (example_request hs)"
  by (simp add: blank_def example_request_def unsent_def no_file_def conn_default_def)

lemma example_range_answer:
  defines "req \<equiv> cn_request (example_request [(''range'', render_range (Interval 1 3))])"
  shows "answer_to example_si ''/srv'' req = Inr (Content example_info (Some (1, 3)))"
proof -
  have "parse_range req 5 = Inr (Some (1, 3))"
    using parse_range_render [of req "Interval 1 3" 5] by (simp add: req_def example_request_def header_def off_max_def)
  moreover have "\<not> still_valid example_si req example_info"
    by (simp add: req_def still_valid_def parse_if_modified_since_def example_request_def header_def)
  moreover have "rq_method req \<noteq> UNKNOWN" by (simp add: req_def example_request_def)
  ultimately show ?thesis using example_request_open by (simp add: req_def answer_to_def example_info_def)
qed

subsection \<open>The property\<close>

text \<open>
  C7: preparing a response refines its specification.  Whatever the request and whatever the file system
  answers, the bytes left to send on the connection are exactly those of the answer the
  request is due: the status line, the fields of that kind of answer with the length of the body in them,
  and, unless the request is a \<open>HEAD\<close>, the body; and the one is undefined behaviour exactly if the other is.
\<close>

theorem prepare_response_refines:
  assumes "blank c" and "\<forall>a. answer_to si root (cn_request c) = Inr a \<longrightarrow> well_sized content a"
  shows "map_sum id (\<lambda>(c', es). pending_response content c') (prepare_response si root c)
    = map_sum id (answer_wire content (io_time (si_io si)) (cn_request c)) (answer_to si root (cn_request c))"
proof (cases "answer_to si root (cn_request c)")
  case (Inr a)
  then show ?thesis using realise_wire [OF assms(1) answer_given [OF Inr]] assms(2)
    by (simp add: prepare_response_answer case_prod_beta)
qed (simp add: prepare_response_answer)

lemma prepare_response_refines_witness:
  "\<exists>c' es. prepare_response example_si ''/srv'' (example_request [(''range'', render_range (Interval 1 3))]) = Inr (c', es)
    \<and> pending_response (\<lambda>_. ''hello'') c' = answer_wire (\<lambda>_. ''hello'') (io_time io_idle)
        (cn_request (example_request [(''range'', render_range (Interval 1 3))])) (Content example_info (Some (1, 3)))"
proof -
  let ?c = "example_request [(''range'', render_range (Interval 1 3))]"
  have "map_sum id (\<lambda>(c', es). pending_response (\<lambda>_. ''hello'') c') (prepare_response example_si ''/srv'' ?c)
      = map_sum id (answer_wire (\<lambda>_. ''hello'') (io_time (si_io example_si)) (cn_request ?c)) (answer_to example_si ''/srv'' (cn_request ?c))"
    by (rule prepare_response_refines [OF example_blank]) (use example_range_answer in \<open>auto simp: example_info_def off_max_def\<close>)
  then show ?thesis unfolding example_range_answer by (auto simp: map_sum_Inr_iff example_si_def)
qed

end
