(* ===== verification/Loop_Service.thy ===== *)
theory Loop_Service
  imports Loop_Events Connection_Read Response_Spec
begin

text \<open>
  A request through the whole program: from the acceptance of a connection over the events of the loop,
  in between those of the listener, the timer and other clients, to the last byte of the answer.
\<close>

subsection \<open>What is observed of one connection\<close>

text \<open>The effects of the events of the slot \<open>i\<close> in a batch, and the answers of the system to them.\<close>

fun effects_on :: "nat \<Rightarrow> (loop_io \<times> kevent) list \<Rightarrow> event_loop \<Rightarrow> effect list" where
  "effects_on i [] el = []"
| "effects_on i ((li, ev) # evs) el =
     (case dispatch li ev el of
        Some (Inr (el', es)) \<Rightarrow> (if ke_udata ev = Conn i then es else []) @ effects_on i evs el'
      | _ \<Rightarrow> [])"

definition own_ios :: "nat \<Rightarrow> (loop_io \<times> kevent) list \<Rightarrow> io list" where
  "own_ios i evs = map (\<lambda>(li, ev). li_io li) (filter (\<lambda>(li, ev). ke_udata ev = Conn i) evs)"

text \<open>No timer event of the batch finds the connection idle for too long.\<close>

fun unexpired :: "nat \<Rightarrow> (loop_io \<times> kevent) list \<Rightarrow> event_loop \<Rightarrow> bool" where
  "unexpired i [] el = True"
| "unexpired i ((li, ev) # evs) el = (\<not> (ke_udata ev = Timer_Tag \<and> expires li el i) \<and>
     (case dispatch li ev el of Some (Inr (el', es)) \<Rightarrow> unexpired i evs el' | _ \<Rightarrow> True))"

text \<open>What one read of a connection finds, from the socket or through its SSL object.\<close>

definition reads :: "nat option \<Rightarrow> int \<Rightarrow> io \<Rightarrow> string sys" where
  "reads ssl fd io =
     (case ssl of
        None \<Rightarrow> io_read io fd 4096
      | Some s \<Rightarrow> (case io_ssl_read io s 4096 of Ssl_OK bs \<Rightarrow> Sys_OK bs | Ssl_Error \<Rightarrow> Sys_Error | _ \<Rightarrow> Sys_EAGAIN))"

text \<open>What is found is the input, cut into pieces, and nothing behind it.\<close>

fun pieces :: "nat option \<Rightarrow> int \<Rightarrow> io list \<Rightarrow> string \<Rightarrow> bool" where
  "pieces ssl fd [] input \<longleftrightarrow> input = []"
| "pieces ssl fd (io # ios) input \<longleftrightarrow>
     (case reads ssl fd io of
        Sys_OK bs \<Rightarrow> bs \<noteq> [] \<and> take (length bs) input = bs \<and> pieces ssl fd ios (drop (length bs) input)
      | Sys_EAGAIN \<Rightarrow> pieces ssl fd ios input
      | Sys_Error \<Rightarrow> False)"

text \<open>
  What a client sends on a new connection.  Without TLS its first byte is looked at, then all of it is read in pieces;
  with TLS the handshake is completed first.
\<close>

fun arrives :: "nat option \<Rightarrow> int \<Rightarrow> io list \<Rightarrow> string \<Rightarrow> bool" where
  "arrives ssl fd [] input \<longleftrightarrow> False"
| "arrives None fd (io # ios) input \<longleftrightarrow>
     (case io_recv_peek io fd of
        Sys_OK bs \<Rightarrow> bs = take 1 input \<and> pieces None fd ios input
      | Sys_EAGAIN \<Rightarrow> arrives None fd ios input
      | Sys_Error \<Rightarrow> False)"
| "arrives (Some s) fd (io # ios) input \<longleftrightarrow>
     (case io_ssl_accept io (Some s) of
        Ssl_OK _ \<Rightarrow> pieces (Some s) fd ios input
      | Ssl_Error \<Rightarrow> False
      | _ \<Rightarrow> arrives (Some s) fd ios input)"

text \<open>What a client sends on a kept connection: the whole request is there at the first read that finds anything.\<close>

fun arrives_whole :: "nat option \<Rightarrow> int \<Rightarrow> io list \<Rightarrow> string \<Rightarrow> bool" where
  "arrives_whole ssl fd [] input \<longleftrightarrow> False"
| "arrives_whole ssl fd (io # ios) input \<longleftrightarrow>
     (case reads ssl fd io of
        Sys_OK bs \<Rightarrow> bs = input \<and> pieces ssl fd ios []
      | Sys_EAGAIN \<Rightarrow> arrives_whole ssl fd ios input
      | Sys_Error \<Rightarrow> False)"

lemma do_read_waits:
  "reads (cn_ssl c) (cn_fd c) io = Sys_EAGAIN \<Longrightarrow> \<exists>w. do_read io c = (w, c\<lparr>cn_last_active := io_now io\<rparr>, [])"
  by (auto simp: reads_def do_read_def waiting_def split: option.splits ssl.splits)

lemma do_read_finds:
  "reads (cn_ssl c) (cn_fd c) io = Sys_OK bs \<Longrightarrow> bs \<noteq> [] \<Longrightarrow> do_read io c = received bs (c\<lparr>cn_last_active := io_now io\<rparr>)"
  by (auto simp: reads_def do_read_def split: option.splits ssl.splits)

text \<open>
  No call fails, and a response's headers are taken whole; of a body each call takes as much as it likes, and
  \<open>pread\<close> reads something where there is something.
\<close>

definition cooperative :: "(int \<Rightarrow> string) \<Rightarrow> nat option \<Rightarrow> io \<Rightarrow> bool" where
  "cooperative content ssl io \<longleftrightarrow> io_ok io \<and> files_ok content io \<and>
     (case ssl of
        None \<Rightarrow> (\<forall>fd bs. prefix ''HTTP/1.1 '' bs \<longrightarrow> io_write io fd bs = Sys_OK (length bs))
          \<and> (\<forall>fd bs. io_write io fd bs \<noteq> Sys_Error) \<and> (\<forall>file fd off n. io_sendfile io file fd off n \<noteq> Sf_Error)
      | Some s \<Rightarrow> (\<forall>bs. prefix ''HTTP/1.1 '' bs \<longrightarrow> io_ssl_write io s bs = Ssl_OK (length bs))
          \<and> (\<forall>bs. io_ssl_write io s bs \<noteq> Ssl_Error)
          \<and> (\<forall>file k off. 0 < k \<and> nat off < length (content file) \<longrightarrow> (\<exists>bs. io_pread io file k off = Sys_OK bs \<and> bs \<noteq> [])))"

lemma cooperativeD:
  assumes "cooperative content ssl io"
  shows "io_ok io" and "files_ok content io"
  using assms by (simp_all add: cooperative_def)

subsection \<open>Sending\<close>

lemma socket_send_cooperative:
  assumes "cooperative content (cn_ssl c) io"
  shows "socket_send io c buf \<noteq> Send_Failed"
    and "prefix ''HTTP/1.1 '' buf \<Longrightarrow> \<exists>es. socket_send io c buf = Sent (length buf) es"
  using assms by (auto simp: socket_send_def cooperative_def split: option.splits sys.splits ssl.splits)

lemma load_chunk_cooperative:
  assumes "cooperative content (cn_ssl c) io" and "cn_ssl c \<noteq> None" and "covers content c"
  shows "load_chunk io c = Inl (body_done c) \<or> (\<exists>c'. load_chunk io c = Inr c' \<and> cn_ssl c' = cn_ssl c \<and> cn_state c' = cn_state c)"
proof (cases "cn_chunk_sent c < cn_chunk_used c \<or> cn_send_remaining c \<le> 0")
  case False
  obtain s where "cn_ssl c = Some s" using assms(2) by blast
  then have pread: "\<forall>file k off. 0 < k \<and> nat off < length (content file) \<longrightarrow> (\<exists>bs. io_pread io file k off = Sys_OK bs \<and> bs \<noteq> [])"
    using assms(1) by (simp add: cooperative_def)
  have pos: "0 < cn_send_remaining c" using False by simp
  then have "nat (cn_send_offset c) < length (content (cn_file_fd c))"
    using assms(3) by (cases "cn_file_fd c < 0") (auto simp: covers_def)
  moreover have "0 < min CHUNK_SIZE (nat (cn_send_remaining c))" using pos by (simp add: CHUNK_SIZE_def)
  ultimately obtain bs where "io_pread io (cn_file_fd c) (min CHUNK_SIZE (nat (cn_send_remaining c))) (cn_send_offset c) = Sys_OK bs" "bs \<noteq> []"
    using pread by blast
  then show ?thesis using False by (auto simp: load_chunk_def Let_def)
qed (auto simp: load_chunk_def)

lemma body_done_ssl: "body_done c = (w, c', es) \<Longrightarrow> cn_ssl c' = cn_ssl c \<and> cn_state c' = KEEP_ALIVE"
  by (auto simp: body_done_def close_file_def split: if_splits)

lemma do_send_body_open:
  assumes "cooperative content (cn_ssl c) io" and "cn_state c = SENDING_BODY" and "covers content c" and "do_send_body io c = (w, c', es)"
  shows "cn_ssl c' = cn_ssl c \<and> (cn_state c' = KEEP_ALIVE \<or> cn_state c' = SENDING_BODY)"
proof (cases "cn_file_fd c < 0 \<and> has_body (cn_response c)")
  case True
  then show ?thesis using assms(2,4) socket_send_cooperative(1) [OF assms(1)]
    by (auto simp: do_send_body_def send_memory_body_def waiting_def Let_def split: if_splits send_result.splits)
next
  case False
  show ?thesis
  proof (cases "cn_ssl c")
    case None
    then have "io_sendfile io f fd off n \<noteq> Sf_Error" for f fd off n using assms(1) by (simp add: cooperative_def)
    then show ?thesis using False None assms(2,4)
      by (auto simp: do_send_body_def do_send_body_plain_def dest: body_done_ssl split: if_splits sendfile_result.splits prod.splits)
  next
    case (Some s)
    then have b: "do_send_body_tls io c = (w, c', es)" using False assms(4) by (auto simp: do_send_body_def)
    have ssl: "cn_ssl c \<noteq> None" using Some by simp
    from load_chunk_cooperative [OF assms(1) ssl assms(3)] show ?thesis
    proof
      assume "load_chunk io c = Inl (body_done c)"
      then show ?thesis using b body_done_ssl by (simp add: do_send_body_tls_def)
    next
      assume "\<exists>c'. load_chunk io c = Inr c' \<and> cn_ssl c' = cn_ssl c \<and> cn_state c' = cn_state c"
      then obtain c1 where c1: "load_chunk io c = Inr c1" "cn_ssl c1 = cn_ssl c" "cn_state c1 = cn_state c" by blast
      have "socket_send io c1 buf \<noteq> Send_Failed" for buf
        using assms(1) c1(2) by (intro socket_send_cooperative(1) [where content = content]) simp
      then show ?thesis using b c1 assms(2)
        by (auto simp: do_send_body_tls_def Let_def waiting_def split: send_result.splits if_splits)
    qed
  qed
qed

lemma do_send_headers_open:
  assumes "cooperative content (cn_ssl c) io" and "cn_header_sent c = 0" and "prefix ''HTTP/1.1 '' (cn_header_buf c)"
    and "covers content c" and "do_send_headers io c = (w, c', es)"
  shows "cn_ssl c' = cn_ssl c \<and> (cn_state c' = KEEP_ALIVE \<or> cn_state c' = SENDING_BODY)"
proof -
  let ?c = "c\<lparr>cn_header_sent := length (cn_header_buf c), cn_state := SENDING_BODY\<rparr>"
  obtain w' c1 es1 where b: "do_send_body io ?c = (w', c1, es1)" by (cases "do_send_body io ?c")
  obtain es0 where "socket_send io c (cn_header_buf c) = Sent (length (cn_header_buf c)) es0"
    using socket_send_cooperative(2) [OF assms(1,3)] by blast
  then have "c' = c1 \<or> cn_state c' = KEEP_ALIVE \<and> cn_ssl c' = cn_ssl c" using assms(2,5) b
    by (auto simp: do_send_headers_def Let_def split: if_splits)
  moreover have "cn_ssl c1 = cn_ssl ?c \<and> (cn_state c1 = KEEP_ALIVE \<or> cn_state c1 = SENDING_BODY)"
    by (rule do_send_body_open [OF _ _ _ b]) (use assms(1,4) in simp_all)
  ultimately show ?thesis by auto
qed

subsection \<open>Answering\<close>

text \<open>The answer has been sent, or is still to be sent.\<close>

definition answered :: "(int \<Rightarrow> string) \<Rightarrow> http_request \<Rightarrow> answer \<Rightarrow> string \<Rightarrow> connection \<Rightarrow> bool" where
  "answered content req a out c \<longleftrightarrow> (\<exists>t. out @ pending content c = answer_wire content t req a)"

lemma respond_answer:
  assumes "conn_inv c" and "cn_state c = PARSING" and "no_file c" and "rq_method (cn_request c) \<noteq> UNKNOWN"
    and "answer_to (li_server li) root (cn_request c) = Inr a" and "cooperative content (cn_ssl c) (li_io li)" and "well_sized content a"
  shows "\<exists>w' c' es. respond li root (w, c, es0) = Inr (w', c', es0 @ es) \<and> answered content (cn_request c) a (sent_bytes content es) c'
    \<and> cn_ssl c' = cn_ssl c \<and> (cn_state c' = KEEP_ALIVE \<or> cn_state c' = SENDING_BODY \<and> covers content c')"
proof -
  obtain c1 es1 where re: "realise (li_server li) c a = (c1, es1)" by (cases "realise (li_server li) c a")
  have p: "prepare_response (li_server li) root c = Inr (c1, es1)" by (simp add: prepare_response_answer assms(5) re)
  have base: "conn_base c" "unsent c" "cn_state c \<noteq> CLOSED" using assms(1,2) by (simp_all add: conn_inv_def)
  then have blank: "blank c" using assms(3) by (simp add: blank_def)
  note safe = prepare_response_safe [OF p base]
  note given = answer_given [OF assms(5)]
  have wire: "pending_response content c1 = answer_wire content (io_time (li_io li)) (cn_request c) a" and cov: "covers content c1"
    and head: "prefix ''HTTP/1.1 '' (cn_header_buf c1)"
    using realise_wire [OF blank given assms(7)] realise_covers [OF blank given assms(7)] realise_header(1) [of "li_server li" c a]
    by (auto simp: re)
  obtain w' c' es where d: "do_send_headers (li_io li) c1 = (w', c', es)" by (cases "do_send_headers (li_io li) c1")
  have r: "respond li root (w, c, es0) = Inr (w', c', es0 @ es1 @ es)"
    using assms(2,4) p d by (simp add: respond_def)
  have st: "cn_ssl c' = cn_ssl c \<and> (cn_state c' = KEEP_ALIVE \<or> cn_state c' = SENDING_BODY)"
    using do_send_headers_open [OF _ safe(9) head cov d] assms(6) safe(6) by simp
  have opn: "cn_state c1 \<noteq> CLOSED" using safe(3) assms(2) by simp
  have sent: "sent_bytes content es @ pending content c' = pending_response content c1 \<and> (cn_state c' \<noteq> KEEP_ALIVE \<longrightarrow> covers content c')"
    using do_send_headers_delivers [OF safe(1) opn cooperativeD(1,2) [OF assms(6)] cov d] st safe(3) assms(2)
    by (auto split: if_splits)
  have "sent_bytes content es1 = []" using re by (auto simp: realise_def split: answer.splits)
  with sent wire have "answered content (cn_request c) a (sent_bytes content (es1 @ es)) c'" by (auto simp: answered_def)
  then show ?thesis using r st sent by blast
qed

subsection \<open>One event of the connection\<close>

text \<open>A complete request: the parser takes it, and the first empty line is its end.\<close>

definition complete_request :: "string \<Rightarrow> http_request \<Rightarrow> bool" where
  "complete_request input req \<longleftrightarrow> (\<forall>r. parse_request r input = (True, req)) \<and> rq_method req \<noteq> UNKNOWN
     \<and> find_str CRLFCRLF input = Some (length input - 4) \<and> length input \<le> 65536 \<and> byte_val (hd input) \<noteq> 0x16"

text \<open>The answer has been begun, and nothing more comes from the client.\<close>

definition answering_phase :: "(int \<Rightarrow> string) \<Rightarrow> http_request \<Rightarrow> answer \<Rightarrow> nat option \<Rightarrow> int \<Rightarrow> io list \<Rightarrow> string \<Rightarrow> connection \<Rightarrow> bool" where
  "answering_phase content req a ssl fd ios out c \<longleftrightarrow> cn_fd c = fd \<and> cn_ssl c = ssl \<and> pieces ssl fd ios [] \<and> answered content req a out c
     \<and> (cn_state c = KEEP_ALIVE \<or> cn_state c = SENDING_BODY \<and> covers content c)"

text \<open>
  The phases of the service: the first byte or the handshake, the rest of the request, or a request on a kept connection;
  and the answer.
\<close>

definition in_service ::
  "(int \<Rightarrow> string) \<Rightarrow> string \<Rightarrow> http_request \<Rightarrow> answer \<Rightarrow> nat option \<Rightarrow> int \<Rightarrow> io list \<Rightarrow> string \<Rightarrow> connection \<Rightarrow> bool" where
  "in_service content input req a ssl fd ios out c \<longleftrightarrow> cn_fd c = fd \<and> cn_ssl c = ssl \<and>
     (cn_state c = (if ssl = None then PROTO_DETECT else TLS_ACCEPT) \<and> cn_read_buf c = [] \<and> out = [] \<and> arrives ssl fd ios input
      \<or> cn_state c = READING \<and> out = [] \<and> find_str CRLFCRLF (cn_read_buf c) = None
          \<and> (\<exists>rest. input = cn_read_buf c @ rest \<and> pieces ssl fd ios rest)
      \<or> cn_state c = KEEP_ALIVE \<and> out = [] \<and> arrives_whole ssl fd ios input
      \<or> answering_phase content req a ssl fd ios out c)"

lemmas in_service_defs = in_service_def answering_phase_def

lemma answering_in_service: "answering_phase content req a ssl fd ios out c \<Longrightarrow> in_service content input req a ssl fd ios out c"
  by (simp add: in_service_defs)

lemma pending_unlinked: "pending content (unlinked c) = pending content c" "covers content (unlinked c) = covers content c"
proof -
  have b: "pending_body content (unlinked c) = pending_body content c" by (simp add: pending_body_def unlinked_def Let_def)
  moreover have "cn_header_buf (unlinked c) = cn_header_buf c" by (simp add: unlinked_def)
  ultimately have "pending_response content (unlinked c) = pending_response content c"
    by (simp add: pending_response_def unlinked_select)
  with b show "pending content (unlinked c) = pending content c" 
    by (simp add: pending_def unlinked_select split: conn_state.split)
  show "covers content (unlinked c) = covers content c" by (simp add: covers_def) (simp add: unlinked_def)
qed

lemma in_service_unlinked:
  assumes "unlinked c = unlinked c'"
  shows "in_service content input req a ssl fd ios out c = in_service content input req a ssl fd ios out c'"
proof -
  have "cn_read_buf (unlinked c) = cn_read_buf c" for c by (simp add: unlinked_def)
  then have "in_service content input req a ssl fd ios out c = in_service content input req a ssl fd ios out (unlinked c)" for c
    by (simp add: in_service_defs answered_def pending_unlinked unlinked_select)
  then show ?thesis using assms by metis
qed

lemma request_end:
  assumes "complete_request input req" and "input = a @ b" and "find_str CRLFCRLF a \<noteq> None"
  shows "b = []"
proof -
  obtain k where k: "find_str CRLFCRLF a = Some k" using assms(3) by auto
  then have "k + 4 \<le> length a" using find_str_SomeD [OF k] by simp
  moreover have "find_str CRLFCRLF input = Some k" unfolding assms(2) using k by (intro find_str_append) simp_all
  moreover have "find_str CRLFCRLF input = Some (length a + length b - 4)" using assms(1,2) by (simp add: complete_request_def)
  ultimately have "k + 4 \<le> length a" "k = length a + length b - 4" by simp_all
  then have "length b = 0" by arith
  then show ?thesis by simp
qed

text \<open>The work of an event after the switch, when there is nothing to parse and no SSL object to make.\<close>

lemma after_action:
  assumes "cn_state c = TLS_ACCEPT \<Longrightarrow> cn_ssl c \<noteq> None" and "cn_state c \<noteq> PARSING" and "cn_state c = READING \<Longrightarrow> rq_method (cn_request c) = UNKNOWN"
  shows "inject_ssl li tls (w, c, es) = (w, c, es)" and "respond li root (inline_parse io (w, c, es)) = Inr (w, c, es)"
  using assms by (auto simp: inject_ssl_def inline_parse_def respond_def)

definition served_by :: "loop_io \<Rightarrow> tls_context option \<Rightarrow> string \<Rightarrow> connection \<Rightarrow> connection \<Rightarrow> effect list \<Rightarrow> bool" where
  "served_by li tls root c c' es \<longleftrightarrow> (\<exists>w1 c1 es1 w.
     inject_ssl li tls (conn_action (li_io li) (tls \<noteq> None) c) = (w1, c1, es1) \<and> cn_state c1 \<noteq> CLOSED
     \<and> respond li root (inline_parse (li_io li) (w1, c1, es1)) = Inr (w, c', es))"

lemma served_byI:
  assumes "conn_action (li_io li) (tls \<noteq> None) c = (w, c', es)"
    and "cn_state c' \<notin> {PARSING, CLOSED}" and "cn_state c' = TLS_ACCEPT \<Longrightarrow> cn_ssl c' \<noteq> None" and "cn_state c' = READING \<Longrightarrow> rq_method (cn_request c') = UNKNOWN"
  shows "served_by li tls root c c' es"
proof -
  have "cn_state c' \<noteq> PARSING" "cn_state c' \<noteq> CLOSED" using assms(2) by simp_all
  then show ?thesis unfolding served_by_def assms(1) using after_action [OF assms(3) _ assms(4)] by auto
qed

lemma detect_served:
  assumes "cn_state c = PROTO_DETECT" and "cn_read_buf c = []" and "cn_ssl c = None" and "conn_inv c"
    and "arrives None (cn_fd c) (li_io li # ios) input" and "complete_request input req"
  shows "\<exists>c'. served_by li tls root c c' [] \<and> in_service content input req a None (cn_fd c) ios [] c'"
proof (cases "io_recv_peek (li_io li) (cn_fd c)")
  case Sys_EAGAIN
  then have "conn_action (li_io li) (tls \<noteq> None) c = (Want_Read, c, [])"
    using assms(1) by (simp add: conn_action_def do_proto_detect_def waiting_def)
  from served_byI [OF this] assms Sys_EAGAIN show ?thesis by (intro exI [of _ c]) (simp add: in_service_defs)
next
  case (Sys_OK bs)
  have ne: "input \<noteq> []" "byte_val (hd input) \<noteq> 0x16" using assms(6) by (auto simp: complete_request_def)
  then obtain x xs where x: "input = x # xs" by (cases input) auto
  let ?c = "c\<lparr>cn_last_active := io_now (li_io li), cn_state := READING\<rparr>"
  have act: "conn_action (li_io li) (tls \<noteq> None) c = (Want_Read, ?c, [])"
    using assms(1,5) Sys_OK x ne by (simp add: conn_action_def do_proto_detect_def waiting_def)
  have "rq_method (cn_request ?c) = UNKNOWN" using assms(1,4) by (simp add: conn_inv_def idle_def)
  from served_byI [OF act _ _ this] assms Sys_OK show ?thesis by (intro exI [of _ ?c]) (simp add: in_service_defs)
qed (use assms in simp)

lemma handshake_served:
  assumes "cn_state c = TLS_ACCEPT" and "cn_read_buf c = []" and "cn_ssl c = Some s" and "conn_inv c"
    and "arrives (Some s) (cn_fd c) (li_io li # ios) input"
  shows "\<exists>c'. served_by li tls root c c' [] \<and> in_service content input req a (Some s) (cn_fd c) ios [] c'"
proof -
  consider (wait) w where "do_tls_accept (li_io li) c = (w, c, [])" "arrives (Some s) (cn_fd c) ios input"
    | (over) "do_tls_accept (li_io li) c = (Want_Read, c\<lparr>cn_state := READING, cn_last_active := io_now (li_io li)\<rparr>, [])"
        "pieces (Some s) (cn_fd c) ios input"
    using assms(3,5) by (cases "io_ssl_accept (li_io li) (Some s)") (auto simp: do_tls_accept_def waiting_def)
  then show ?thesis
  proof cases
    case wait
    then have "conn_action (li_io li) (tls \<noteq> None) c = (w, c, [])" using assms(1) by (simp add: conn_action_def)
    from served_byI [OF this] assms wait(2) show ?thesis by (intro exI [of _ c]) (simp add: in_service_defs)
  next
    case over
    let ?c = "c\<lparr>cn_state := READING, cn_last_active := io_now (li_io li)\<rparr>"
    have act: "conn_action (li_io li) (tls \<noteq> None) c = (Want_Read, ?c, [])" using assms(1) over(1) by (simp add: conn_action_def)
    have "rq_method (cn_request ?c) = UNKNOWN" using assms(1,4) by (simp add: conn_inv_def idle_def)
    from served_byI [OF act _ _ this] assms over(2) show ?thesis by (intro exI [of _ ?c]) (simp add: in_service_defs)
  qed
qed

text \<open>The event that completes the request: it is parsed, and its answer begun.\<close>

lemma whole_served:
  assumes "conn_action (li_io li) (tls \<noteq> None) c = (Want_None, p, es0)" and "cn_state p = PARSING" and "conn_inv p" and "no_file p"
    and "rq_method (cn_request p) = UNKNOWN" and "cn_read_buf p = input" and "sent_bytes content es0 = []"
    and "complete_request input req" and "answer_to (li_server li) root req = Inr a" and "cooperative content (cn_ssl p) (li_io li)"
    and "well_sized content a" and "pieces (cn_ssl p) (cn_fd p) ios []"
  shows "\<exists>c' es. served_by li tls root c c' es \<and> in_service content input req a (cn_ssl p) (cn_fd p) ios (sent_bytes content es) c'"
proof -
  let ?q = "p\<lparr>cn_request := req\<rparr>"
  have parse: "inline_parse (li_io li) (Want_None, p, es0) = (Want_None, ?q, es0)"
    using assms(2,5,6,8) by (simp add: inline_parse_def do_parse_def waiting_def complete_request_def)
  have inv: "conn_inv ?q" and nf: "no_file ?q" using assms(2-4) by (auto simp: no_file_def)
  have known: "rq_method req \<noteq> UNKNOWN" using assms(8) by (simp add: complete_request_def)
  have "\<exists>w' c' es. respond li root (Want_None, ?q, es0) = Inr (w', c', es0 @ es)
      \<and> answered content (cn_request ?q) a (sent_bytes content es) c' \<and> cn_ssl c' = cn_ssl ?q
      \<and> (cn_state c' = KEEP_ALIVE \<or> cn_state c' = SENDING_BODY \<and> covers content c')"
    by (rule respond_answer [OF inv _ nf]) (use assms(2,9-11) known in simp_all)
  then obtain w' c' es where r: "respond li root (Want_None, ?q, es0) = Inr (w', c', es0 @ es)"
    "answered content req a (sent_bytes content es) c'" "cn_ssl c' = cn_ssl p"
    "cn_state c' = KEEP_ALIVE \<or> cn_state c' = SENDING_BODY \<and> covers content c'" by auto
  have "served_by li tls root c c' (es0 @ es)"
    unfolding served_by_def using assms(1,2) parse r(1) by (auto simp: inject_ssl_def)
  moreover have "cn_fd c' = cn_fd p"
  proof -
    have "respond li root (Want_None, ?q, []) = Inr (w', c', es)"
      using r(1) by (auto simp: respond_def split: sum.splits prod.splits if_splits)
    moreover have "step_ok ?q (Want_None, ?q, [])" using inv by (simp add: step_ok.simps same_links_def assms(2))
    moreover have "cn_state ?q \<noteq> CLOSED" "cn_state c' \<noteq> CLOSED" using assms(2) r(4) by auto
    ultimately have "cn_fd c' = cn_fd ?q" using respond_ok(4) [OF _ _ cooperativeD(1) [OF assms(10)]] by blast
    then show ?thesis by simp
  qed
  ultimately show ?thesis using r(2-4) assms(7,12)
    by (intro exI [of _ c'] exI [of _ "es0 @ es"]) (auto simp: in_service_defs)
qed

lemma read_served:
  assumes "cn_state c = READING" and "conn_inv c" and "find_str CRLFCRLF (cn_read_buf c) = None"
    and "input = cn_read_buf c @ rest" and "pieces (cn_ssl c) (cn_fd c) (li_io li # ios) rest" and "complete_request input req"
    and "answer_to (li_server li) root req = Inr a" and "cooperative content (cn_ssl c) (li_io li)" and "well_sized content a"
  shows "\<exists>c' es. served_by li tls root c c' es \<and> in_service content input req a (cn_ssl c) (cn_fd c) ios (sent_bytes content es) c'"
proof -
  let ?t = "c\<lparr>cn_last_active := io_now (li_io li)\<rparr>"
  have idle: "rq_method (cn_request c) = UNKNOWN" using assms(1,2) by (simp add: conn_inv_def idle_def)
  show ?thesis
  proof (cases "reads (cn_ssl c) (cn_fd c) (li_io li)")
    case Sys_EAGAIN
    then obtain w where "do_read (li_io li) c = (w, ?t, [])" using do_read_waits by blast
    then have act: "conn_action (li_io li) (tls \<noteq> None) c = (w, ?t, [])" using assms(1) by (simp add: conn_action_def)
    have "served_by li tls root c ?t []" using assms(1) idle by (intro served_byI [OF act]) simp_all
    then show ?thesis using assms(1-5) Sys_EAGAIN by (intro exI [of _ ?t] exI [of _ "[]"]) (simp add: in_service_defs)
  next
    case (Sys_OK bs)
    let ?b = "?t\<lparr>cn_read_buf := cn_read_buf c @ bs\<rparr>"
    have bs: "bs \<noteq> []" "take (length bs) rest = bs" "pieces (cn_ssl c) (cn_fd c) ios (drop (length bs) rest)"
      using assms(5) Sys_OK by simp_all
    have rest: "rest = bs @ drop (length bs) rest" using append_take_drop_id [of "length bs" rest] bs(2) by simp
    then have input: "input = (cn_read_buf c @ bs) @ drop (length bs) rest" using assms(4) by simp
    then have len: "length (cn_read_buf c @ bs) \<le> 65536" using assms(6) by (simp add: complete_request_def)
    note rd = do_read_finds [OF Sys_OK bs(1)]
    show ?thesis
    proof (cases "find_str CRLFCRLF (cn_read_buf c @ bs)")
      case None
      then have act: "conn_action (li_io li) (tls \<noteq> None) c = (Want_Read, ?b, [])"
        using assms(1) rd len by (simp add: conn_action_def received_def waiting_def)
      have "served_by li tls root c ?b []" using assms(1) idle by (intro served_byI [OF act]) simp_all
      then show ?thesis using assms(1) None bs(3) input
        by (intro exI [of _ ?b] exI [of _ "[]"]) (auto simp: in_service_defs)
    next
      case (Some k)
      have nil: "drop (length bs) rest = []" using request_end [OF assms(6) input] Some by simp
      then have whole: "cn_read_buf c @ bs = input" and seg: "pieces (cn_ssl c) (cn_fd c) ios []" using input bs(3) by simp_all
      let ?p = "?b\<lparr>cn_headers_complete := True, cn_state := PARSING\<rparr>"
      have act: "conn_action (li_io li) (tls \<noteq> None) c = (Want_None, ?p, [])"
        using assms(1) rd Some by (simp add: conn_action_def received_def waiting_def)
      have inv: "conn_inv ?p" "no_file ?p" using assms(1,2) len by (auto simp: conn_inv_defs)
      have "\<exists>c' es. served_by li tls root c c' es \<and> in_service content input req a (cn_ssl ?p) (cn_fd ?p) ios (sent_bytes content es) c'"
        by (rule whole_served [OF act _ inv]) (use assms(6-9) idle whole seg in simp_all)
      then show ?thesis by simp
    qed
  qed (use assms(5) in simp)
qed

lemma kept_served:
  assumes "cn_state c = KEEP_ALIVE" and "conn_inv c" and "arrives_whole (cn_ssl c) (cn_fd c) (li_io li # ios) input"
    and "complete_request input req" and "answer_to (li_server li) root req = Inr a" and "cooperative content (cn_ssl c) (li_io li)"
    and "well_sized content a"
  shows "\<exists>c' es. served_by li tls root c c' es \<and> in_service content input req a (cn_ssl c) (cn_fd c) ios (sent_bytes content es) c'"
proof -
  obtain c1 es1 where r: "conn_reset c = (c1, es1)" by (cases "conn_reset c")
  let ?t = "c1\<lparr>cn_last_active := io_now (li_io li)\<rparr>"
  have c1: "cn_state c1 = KEEP_ALIVE" "cn_ssl c1 = cn_ssl c" "cn_fd c1 = cn_fd c" "sent_bytes content es1 = []"
    using r assms(1) by (auto simp: conn_reset_def close_file_def split: if_splits)
  note ready = conn_reset_ok(1,3) [OF assms(2,1) r]
  then have idle: "rq_method (cn_request c1) = UNKNOWN" by (simp add: readable_def idle_def)
  show ?thesis
  proof (cases "reads (cn_ssl c) (cn_fd c) (li_io li)")
    case Sys_EAGAIN
    then obtain w where "do_read (li_io li) c1 = (w, ?t, [])" using do_read_waits [of c1] c1(2,3) by auto
    then have act: "conn_action (li_io li) (tls \<noteq> None) c = (w, ?t, es1)" using assms(1) r by (simp add: conn_action_def)
    have "served_by li tls root c ?t es1" using c1(1) by (intro served_byI [OF act]) simp_all
    then show ?thesis using assms(3) c1 Sys_EAGAIN by (intro exI [of _ ?t] exI [of _ es1]) (simp add: in_service_defs)
  next
    case (Sys_OK bs)
    then have bs: "bs = input" "pieces (cn_ssl c) (cn_fd c) ios []" using assms(3) by simp_all
    have len: "length input \<le> 65536" and crlf: "find_str CRLFCRLF input \<noteq> None" and ne: "input \<noteq> []"
      using assms(4) by (auto simp: complete_request_def)
    let ?p = "?t\<lparr>cn_read_buf := input, cn_headers_complete := True, cn_state := PARSING\<rparr>"
    have "do_read (li_io li) c1 = received input ?t" using do_read_finds [of c1] Sys_OK bs(1) ne c1(2,3) by simp
    then have act: "conn_action (li_io li) (tls \<noteq> None) c = (Want_None, ?p, es1)"
      using assms(1) r crlf ready(2) by (auto simp: conn_action_def received_def waiting_def)
    have inv: "conn_inv ?p" "no_file ?p" using ready(1) c1(1) len by (auto simp: readable_def conn_inv_defs)
    have "\<exists>c' es. served_by li tls root c c' es \<and> in_service content input req a (cn_ssl ?p) (cn_fd ?p) ios (sent_bytes content es) c'"
      by (rule whole_served [OF act _ inv]) (use assms(4-7) idle c1 bs(2) in simp_all)
    then show ?thesis by (simp add: c1(2,3))
  qed (use assms(3) in simp)
qed

lemma send_served:
  assumes "cn_state c = KEEP_ALIVE \<or> cn_state c = SENDING_BODY \<and> covers content c"
    and "conn_inv c" and "pieces (cn_ssl c) (cn_fd c) (li_io li # ios) []" and "answered content req a out c"
    and "cooperative content (cn_ssl c) (li_io li)"
  shows "\<exists>c' es. served_by li tls root c c' es \<and> answering_phase content req a (cn_ssl c) (cn_fd c) ios (out @ sent_bytes content es) c'"
proof -
  have seg: "pieces (cn_ssl c) (cn_fd c) ios []" "reads (cn_ssl c) (cn_fd c) (li_io li) = Sys_EAGAIN"
    using assms(3) by (auto split: sys.splits)
  show ?thesis
  proof (cases "cn_state c = KEEP_ALIVE")
    case True
    obtain c1 es1 where r: "conn_reset c = (c1, es1)" by (cases "conn_reset c")
    let ?c = "c1\<lparr>cn_last_active := io_now (li_io li)\<rparr>"
    have c1: "cn_state c1 = KEEP_ALIVE" "cn_ssl c1 = cn_ssl c" "cn_fd c1 = cn_fd c" "sent_bytes content es1 = []"
      using r True by (auto simp: conn_reset_def close_file_def split: if_splits)
    obtain w where "do_read (li_io li) c1 = (w, ?c, [])" using do_read_waits [of c1] seg(2) c1(2,3) by auto
    then have act: "conn_action (li_io li) (tls \<noteq> None) c = (w, ?c, es1)" using True r by (simp add: conn_action_def)
    have "served_by li tls root c ?c es1" using c1(1) by (intro served_byI [OF act]) simp_all
    moreover have "answered content req a (out @ sent_bytes content es1) ?c"
      using assms(4) True c1 by (simp add: answered_def pending_def)
    ultimately show ?thesis using c1 seg(1) by (intro exI [of _ ?c] exI [of _ es1]) (simp add: answering_phase_def)
  next
    case False
    then have c: "cn_state c = SENDING_BODY" "covers content c" using assms(1) by simp_all
    obtain w c' es where d: "do_send_body (li_io li) c = (w, c', es)" by (cases "do_send_body (li_io li) c")
    then have act: "conn_action (li_io li) (tls \<noteq> None) c = (w, c', es)" using c(1) by (simp add: conn_action_def)
    note st = do_send_body_open [OF assms(5) c d]
    have base: "conn_base c" using assms(2) by (simp add: conn_inv_def)
    have "delivers content c (w, c', es)"
      using do_send_body_delivers [OF base c(1) cooperativeD(1,2) [OF assms(5)] c(2)] d by (simp del: delivers.simps)
    then have del: "sent_bytes content es @ pending content c' = pending content c" "cn_state c' \<noteq> KEEP_ALIVE \<longrightarrow> covers content c'"
      using st by (auto split: if_splits)
    have "step_ok c (w, c', es)" using conn_action_ok [OF assms(2) cooperativeD(1) [OF assms(5)], of "tls \<noteq> None"] act by simp
    then have fd: "cn_fd c' = cn_fd c" using st by (auto simp: step_ok.simps)
    have "served_by li tls root c c' es" using st by (intro served_byI [OF act]) auto
    moreover have "answered content req a (out @ sent_bytes content es) c'"
      using assms(4) del(1) by (auto simp: answered_def)
    ultimately show ?thesis using st del(2) fd seg(1) by (intro exI [of _ c'] exI [of _ es]) (auto simp: answering_phase_def)
  qed
qed

lemma service_event:
  assumes "in_service content input req a ssl fd (li_io li # ios) out c" and "conn_inv c"
    and "complete_request input req" and "answer_to (li_server li) root req = Inr a" and "cooperative content ssl (li_io li)"
    and "well_sized content a"
  shows "\<exists>c' es. served_by li tls root c c' es
    \<and> in_service content input req a ssl fd ios (out @ sent_bytes content es) c'"
proof -
  have fd: "fd = cn_fd c" "ssl = cn_ssl c" using assms(1) by (simp_all add: in_service_defs)
  note io = assms(5) [unfolded fd]
  consider (detect) "cn_ssl c = None" "cn_state c = PROTO_DETECT" "cn_read_buf c = []" "out = []" "arrives None (cn_fd c) (li_io li # ios) input"
    | (handshake) s where "cn_ssl c = Some s" "cn_state c = TLS_ACCEPT" "cn_read_buf c = []" "out = []"
        "arrives (Some s) (cn_fd c) (li_io li # ios) input"
    | (reading) rest where "cn_state c = READING" "out = []" "find_str CRLFCRLF (cn_read_buf c) = None" "input = cn_read_buf c @ rest"
        "pieces (cn_ssl c) (cn_fd c) (li_io li # ios) rest"
    | (kept) "cn_state c = KEEP_ALIVE" "out = []" "arrives_whole (cn_ssl c) (cn_fd c) (li_io li # ios) input"
    | (sends) "pieces (cn_ssl c) (cn_fd c) (li_io li # ios) []" "answered content req a out c"
        "cn_state c = KEEP_ALIVE \<or> cn_state c = SENDING_BODY \<and> covers content c"
    using assms(1) unfolding in_service_defs fd by (cases "cn_ssl c") (simp, blast)+
  then show ?thesis unfolding fd
  proof cases
    case detect
    from detect_served [OF detect(2,3,1) assms(2) detect(5) assms(3)] detect(1,4)
    show "\<exists>c' es. served_by li tls root c c' es \<and> in_service content input req a (cn_ssl c) (cn_fd c) ios (out @ sent_bytes content es) c'"
      by (metis sent_bytes_simps(1) append_Nil)
  next
    case handshake
    from handshake_served [OF handshake(2,3,1) assms(2) handshake(5)] handshake(1,4)
    show "\<exists>c' es. served_by li tls root c c' es \<and> in_service content input req a (cn_ssl c) (cn_fd c) ios (out @ sent_bytes content es) c'"
      by (metis sent_bytes_simps(1) append_Nil)
  next
    case reading
    from read_served [OF reading(1) assms(2) reading(3-5) assms(3,4) io assms(6)] reading(2)
    show "\<exists>c' es. served_by li tls root c c' es \<and> in_service content input req a (cn_ssl c) (cn_fd c) ios (out @ sent_bytes content es) c'"
      by (metis append_Nil)
  next
    case kept
    from kept_served [OF kept(1) assms(2) kept(3) assms(3,4) io assms(6)] kept(2)
    show "\<exists>c' es. served_by li tls root c c' es \<and> in_service content input req a (cn_ssl c) (cn_fd c) ios (out @ sent_bytes content es) c'"
      by (metis append_Nil)
  next
    case sends
    show "\<exists>c' es. served_by li tls root c c' es \<and> in_service content input req a (cn_ssl c) (cn_fd c) ios (out @ sent_bytes content es) c'"
      using send_served [OF sends(3) assms(2) sends(1,2) io] answering_in_service by blast
  qed
qed

subsection \<open>The events of a batch\<close>

lemma in_service_open: "in_service content input req a ssl fd ios out c \<Longrightarrow> cn_state c \<noteq> CLOSED"
  by (auto simp: in_service_defs split: if_splits)

lemma served_event:
  assumes "loop_inv el" and "i < MAX_CONNECTIONS" and "ke_udata ev = Conn i" and "EV_ERROR \<notin> ke_flags ev" and "EV_EOF \<notin> ke_flags ev"
    and "io_ok (li_io li)" and "dispatch li ev el = Some (Inr (el', es))" and "cn_state (conn_at i el) \<noteq> CLOSED"
    and "served_by li (el_tls_ctx el) (el_root_dir el) (conn_at i el) c' es'"
  shows "unlinked (conn_at i el') = unlinked c' \<and> es = es'"
proof -
  have p: "process_connection li i el = Inr (el', es)" using assms(3-5,7) by (simp add: dispatch_def)
  from assms(1,2,6) p assms(8) show ?thesis
  proof (cases rule: process_connection_cases)
    case destroyed
    then show ?thesis using assms(9) by (auto simp: served_by_def)
  next
    case kept
    then show ?thesis using assms(9) by (auto simp: served_by_def)
  qed
qed

lemma served_returns:
  assumes "served_by li (el_tls_ctx el) (el_root_dir el) (conn_at i el) c' es" and "cn_state (conn_at i el) \<noteq> CLOSED"
    and "ke_udata ev = Conn i" and "EV_ERROR \<notin> ke_flags ev" and "EV_EOF \<notin> ke_flags ev"
  shows "\<exists>el'. dispatch li ev el = Some (Inr (el', es))"
  using assms by (auto simp: served_by_def dispatch_def process_connection_def Let_def)

lemma timer_loop_root:
  assumes "timer_loop now t cur el es = Some (Inr (el', es'))"
  shows "el_root_dir el' = el_root_dir el"
proof -
  have d: "destroy_connection i el = Inr (el', es') \<Longrightarrow> el_root_dir el' = el_root_dir el" for i el el' es'
    by (auto simp: destroy_connection_def Let_def set_conn_def split: if_splits prod.splits sum.splits)
  have "\<forall>el' es'. r = Inr (el', es') \<longrightarrow> el_root_dir el' = el_root_dir el" if "timer_loop now t cur el es = Some r" for r
    using that
  proof (rule timer_loop.raw_induct [rotated])
    fix loop now t cur el es r
    assume ih: "\<And>now t cur el es r. loop now t cur el es = Some r \<Longrightarrow> \<forall>el' es'. r = Inr (el', es') \<longrightarrow> el_root_dir el' = el_root_dir el"
      and step: "(case cur of None \<Rightarrow> Some (Inr (el, es))
        | Some i \<Rightarrow> let nxt = cn_next (conn_at i el) in
            if is_expired now t (conn_at i el)
            then case destroy_connection i el of Inl u \<Rightarrow> Some (Inl u) | Inr (el', es') \<Rightarrow> loop now t nxt el' (es @ es')
            else loop now t nxt el es) = Some r"
    then show "\<forall>el' es'. r = Inr (el', es') \<longrightarrow> el_root_dir el' = el_root_dir el"
      by (auto simp: Let_def dest!: ih dest: d split: option.splits if_splits sum.splits)
  qed
  then show ?thesis using assms by blast
qed

lemma dispatch_root:
  assumes "dispatch li ev el = Some (Inr (el', es))"
  shows "el_root_dir el' = el_root_dir el"
proof -
  have s: "el_root_dir (set_conn i c l) = el_root_dir l" "el_root_dir (sync_keepalive st i l) = el_root_dir l"
    "el_root_dir (update_events i w l) = el_root_dir l" for i c l st w
    by (simp_all add: set_conn_def sync_keepalive_def update_events_def Let_def split: want.split)
  have d: "destroy_connection i l = Inr (el', es') \<Longrightarrow> el_root_dir el' = el_root_dir l" for i l es'
    by (auto simp: destroy_connection_def Let_def s split: if_splits prod.splits sum.splits)
  have "el_root_dir (snd (create_connection now fd l)) = el_root_dir l" for now fd l
    by (auto simp: create_connection_def Let_def s split: option.split)
  then have "el_root_dir (fst (accept_loop now fds l)) = el_root_dir l" for now fds l
    by (induction now fds l rule: accept_loop.induct) (auto split: prod.splits option.splits, (metis snd_conv)+)
  then have a: "accept_loop now fds l = (el', es') \<Longrightarrow> el_root_dir el' = el_root_dir l" for now fds l es' by (metis fst_conv)
  have p: "process_connection li i l = Inr (el', es') \<Longrightarrow> el_root_dir el' = el_root_dir l" for i l es'
    by (auto simp: process_connection_def Let_def s map_sum_Inr_iff dest!: d split: if_splits prod.splits sum.splits)
  show ?thesis using assms
    by (auto simp: dispatch_def handle_accept_def handle_timer_def dest: d a p timer_loop_root split: if_splits udata.splits)
qed


lemma loop_step_root: "loop_step el es el' \<Longrightarrow> el_root_dir el' = el_root_dir el"
  unfolding loop_step_iff using dispatch_root by fastforce

lemma own_ios_simps [simp]:
  "own_ios i [] = []"
  "own_ios i ((li, ev) # evs) = (if ke_udata ev = Conn i then li_io li # own_ios i evs else own_ios i evs)"
  by (simp_all add: own_ios_def)

text \<open>The events of the connection report no error, their calls work, and the request is due the same answer at each of them.\<close>

definition favourable :: "(int \<Rightarrow> string) \<Rightarrow> nat option \<Rightarrow> string \<Rightarrow> http_request \<Rightarrow> answer \<Rightarrow> loop_io \<times> kevent \<Rightarrow> bool" where
  "favourable content ssl root req a = (\<lambda>(li, ev). EV_ERROR \<notin> ke_flags ev \<and> EV_EOF \<notin> ke_flags ev
     \<and> cooperative content ssl (li_io li) \<and> answer_to (li_server li) root req = Inr a)"

lemma service_own_event:
  assumes "reachable el" and "i < MAX_CONNECTIONS" and "complete_request input req" and "well_sized content a"
    and "in_service content input req a ssl fd (li_io li # ios) out (conn_at i el)" and "ke_udata ev = Conn i"
    and "favourable content ssl (el_root_dir el) req a (li, ev)"
  shows "\<exists>el1 c' es. dispatch li ev el = Some (Inr (el1, es)) \<and> event_ok el li ev
    \<and> served_by li (el_tls_ctx el) (el_root_dir el) (conn_at i el) c' es \<and> unlinked (conn_at i el1) = unlinked c'
    \<and> in_service content input req a ssl fd ios (out @ sent_bytes content es) (conn_at i el1)"
proof -
  have inv: "loop_inv el" by (rule reachable_inv [OF assms(1)])
  have f: "EV_ERROR \<notin> ke_flags ev" "EV_EOF \<notin> ke_flags ev" "cooperative content ssl (li_io li)"
    "answer_to (li_server li) (el_root_dir el) req = Inr a"
    using assms(7) by (simp_all add: favourable_def)
  have opn: "cn_state (conn_at i el) \<noteq> CLOSED" using in_service_open assms(5) .
  have "conn_inv (conn_at i el)" using inv assms(2) by (simp add: loop_inv_def loop_base_def)
  from service_event [OF assms(5) this assms(3) f(4,3) assms(4)]
  obtain c' es where s: "served_by li (el_tls_ctx el) (el_root_dir el) (conn_at i el) c' es"
    "in_service content input req a ssl fd ios (out @ sent_bytes content es) c'" by blast
  obtain el1 where d: "dispatch li ev el = Some (Inr (el1, es))" using served_returns [OF s(1) opn assms(6) f(1,2)] by blast
  have ok: "event_ok el li ev" using assms(2,6) cooperativeD(1) [OF f(3)] f(1,2) by (simp add: event_ok_def)
  have u: "unlinked (conn_at i el1) = unlinked c'"
    using served_event [OF inv assms(2,6) f(1,2) cooperativeD(1) [OF f(3)] d opn s(1)] by blast
  then have "in_service content input req a ssl fd ios (out @ sent_bytes content es) (conn_at i el1)"
    using s(2) in_service_unlinked by blast
  with d ok s(1) u show ?thesis by blast
qed

lemma service_other_event:
  assumes "reachable el" and "i < MAX_CONNECTIONS" and "cn_state (conn_at i el) \<noteq> CLOSED" and "event_ok el li ev" and "ke_udata ev \<noteq> Conn i"
    and "\<not> (ke_udata ev = Timer_Tag \<and> expires li el i)" and "dispatch li ev el = Some (Inr (el1, es))"
  shows "unlinked (conn_at i el1) = unlinked (conn_at i el)"
proof -
  have inv: "loop_inv el" by (rule reachable_inv [OF assms(1)])
  have lent: "i \<in> lent (el_pool el)" using inv assms(2,3) by (auto simp: loop_inv_def loop_base_def)
  have "\<not> (ke_udata ev = Timer_Tag \<and> \<not> (EV_ERROR \<in> ke_flags ev \<or> EV_EOF \<in> ke_flags ev) \<and> expires li el i)" using assms(6) by blast
  then show ?thesis using dispatch_other [OF inv assms(4,7,5,2)] lent by (simp only: if_False if_True)
qed

lemma service_batch:
  assumes "reachable el" and "i < MAX_CONNECTIONS" and "complete_request input req" and "well_sized content a"
    and "in_service content input req a ssl fd (own_ios i evs) out (conn_at i el)"
    and "events_ok evs el" and "unexpired i evs el" and "dispatch_all evs el = Some (Inr (el', es))"
    and "\<forall>e \<in> set evs. ke_udata (snd e) = Conn i \<longrightarrow> favourable content ssl (el_root_dir el) req a e"
  shows "in_service content input req a ssl fd [] (out @ sent_bytes content (effects_on i evs el)) (conn_at i el')"
  using assms(1,5-)
proof (induction evs arbitrary: el es out)
  case (Cons e evs)
  obtain li ev where e: "e = (li, ev)" by (cases e)
  obtain el1 es1 es2 where d: "dispatch li ev el = Some (Inr (el1, es1))" and rest: "dispatch_all evs el1 = Some (Inr (el', es2))"
    using Cons.prems(5) by (auto simp: e map_sum_Inr_iff split: option.splits sum.splits)
  have ok: "event_ok el li ev" "events_ok evs el1" "\<not> (ke_udata ev = Timer_Tag \<and> expires li el i)" "unexpired i evs el1"
    using Cons.prems(3,4) d by (simp_all add: e)
  have reach: "reachable el1" using step [OF Cons.prems(1) event [OF ok(1) d]] .
  have fav: "\<forall>e \<in> set evs. ke_udata (snd e) = Conn i \<longrightarrow> favourable content ssl (el_root_dir el1) req a e"
    using Cons.prems(6) dispatch_root [OF d] by simp
  show ?case
  proof (cases "ke_udata ev = Conn i")
    case True
    have "in_service content input req a ssl fd (li_io li # own_ios i evs) out (conn_at i el)"
      using Cons.prems(2) True by (simp add: e)
    from service_own_event [OF Cons.prems(1) assms(2-4) this True] Cons.prems(6) True d
    have "in_service content input req a ssl fd (own_ios i evs) (out @ sent_bytes content es1) (conn_at i el1)" by (auto simp: e)
    from Cons.IH [OF reach this ok(2,4) rest fav] show ?thesis using True d by (simp add: e)
  next
    case False
    have "unlinked (conn_at i el1) = unlinked (conn_at i el)"
      using service_other_event [OF Cons.prems(1) assms(2) in_service_open [OF Cons.prems(2)] ok(1) False ok(3) d] .
    then have "in_service content input req a ssl fd (own_ios i evs) out (conn_at i el1)"
      using Cons.prems(2) False in_service_unlinked [of "conn_at i el1" "conn_at i el"] by (simp add: e)
    from Cons.IH [OF reach this ok(2,4) rest fav] show ?thesis using False d by (simp add: e)
  qed
qed simp

lemma lines_block_length:
  "ls \<noteq> [] \<Longrightarrow> length (lines_block ls) = length (lines_block (butlast ls)) + length (last ls) + 2"
  by (subst lines_block_last) simp_all

text \<open>The request as the parser stores it: the last header line is lost, see \<open>parse_request_wire\<close>.\<close>

abbreviation parsed :: "string \<Rightarrow> string \<Rightarrow> string \<Rightarrow> (string \<times> string) list \<Rightarrow> http_request" where
  "parsed m p v hs \<equiv> \<lparr>rq_method = method_of m, rq_raw_method = m, rq_path = p, rq_version = v,
     rq_headers = map stored_header (butlast hs)\<rparr>"

lemma complete_request_wire:
  assumes "m = ''GET'' \<or> m = ''HEAD''" and "plain_token p" and "CR \<notin> set v" and "\<forall>h \<in> set hs. plain_header h" and "hs \<noteq> []"
    and "length (render_request m p v hs) \<le> 65536"
  shows "complete_request (render_request m p v hs) (parsed m p v hs)"
proof -
  let ?ls = "(m @ '' '' @ p @ '' '' @ v) # map render_header hs"
  have m: "m \<noteq> []" "CR \<notin> set m" "plain_token m" using assms(1) by (auto simp: plain_token_def)
  have ls: "?ls \<noteq> []" "\<forall>l \<in> set ?ls. l \<noteq> [] \<and> CR \<notin> set l"
    using assms(2-4) m render_header_ok by (auto simp: plain_token_def)
  have w: "render_request m p v hs = lines_block ?ls @ CRLF" by (simp add: render_request_def)
  have "find_str CRLFCRLF (lines_block ?ls @ CR # LF # []) = Some (length (lines_block (butlast ?ls)) + length (last ?ls))"
    by (rule find_crlfcrlf_block [OF ls])
  moreover note lines_block_length [OF ls(1)]
  ultimately have "find_str CRLFCRLF (render_request m p v hs) = Some (length (render_request m p v hs) - 4)"
    unfolding w by simp
  moreover have "parse_request r (render_request m p v hs) = (True, parsed m p v hs)" for r
    using parse_request_wire [of m p v hs r "[]"] assms(2-5) m(3) by simp
  moreover have "byte_val (hd (render_request m p v hs)) \<noteq> 0x16" "method_of m \<noteq> UNKNOWN"
    using assms(1) by (auto simp: w method_of_def)
  ultimately show ?thesis using assms(6) by (simp add: complete_request_def)
qed

lemma service_answers:
  assumes "reachable el" and "i < MAX_CONNECTIONS"
    and "in_service content (render_request m p v hs) (parsed m p v hs) a (cn_ssl (conn_at i el)) (cn_fd (conn_at i el)) (own_ios i evs) [] (conn_at i el)"
    and "events_ok evs el" and "unexpired i evs el" and "dispatch_all evs el = Some (Inr (el', es))"
    and "complete_request (render_request m p v hs) (parsed m p v hs)"
    and "\<forall>e \<in> set evs. ke_udata (snd e) = Conn i \<longrightarrow> favourable content (cn_ssl (conn_at i el)) (el_root_dir el) (parsed m p v hs) a e"
    and "well_sized content a"
  shows "\<exists>t. sent_bytes content (effects_on i evs el) @ pending content (conn_at i el') = answer_wire content t (parsed m p v hs) a
    \<and> (cn_state (conn_at i el') = SENDING_BODY \<or> cn_state (conn_at i el') = KEEP_ALIVE \<and> pending content (conn_at i el') = [])"
proof -
  have "find_str CRLFCRLF (render_request m p v hs) \<noteq> None" using assms(7) by (simp add: complete_request_def)
  moreover note service_batch [OF assms(1,2,7,9,3-6,8)]
  ultimately have "answered content (parsed m p v hs) a (sent_bytes content (effects_on i evs el)) (conn_at i el')"
    "cn_state (conn_at i el') = SENDING_BODY \<or> cn_state (conn_at i el') = KEEP_ALIVE"
    by (auto simp: in_service_defs)
  moreover have "pending content (conn_at i el') = []" if "cn_state (conn_at i el') = KEEP_ALIVE" using that by (simp add: pending_def)
  ultimately show ?thesis unfolding answered_def by blast
qed

text \<open>The first request of a connection, handled by the events of one batch.\<close>

theorem request_answered:
  assumes "reachable el" and "i < MAX_CONNECTIONS" and "cn_read_buf (conn_at i el) = []"
    and "cn_state (conn_at i el) = (if cn_ssl (conn_at i el) = None then PROTO_DETECT else TLS_ACCEPT)"
    and "events_ok evs el" and "unexpired i evs el" and "dispatch_all evs el = Some (Inr (el', es))"
    and "arrives (cn_ssl (conn_at i el)) (cn_fd (conn_at i el)) (own_ios i evs) (render_request m p v hs)"
    and "length (render_request m p v hs) \<le> 65536"
    and "m = ''GET'' \<or> m = ''HEAD''" and "plain_token p" and "CR \<notin> set v" and "\<forall>h \<in> set hs. plain_header h" and "hs \<noteq> []"
    and "\<forall>e \<in> set evs. ke_udata (snd e) = Conn i \<longrightarrow> favourable content (cn_ssl (conn_at i el)) (el_root_dir el) (parsed m p v hs) a e"
    and "well_sized content a"
  shows "\<exists>t. sent_bytes content (effects_on i evs el) @ pending content (conn_at i el') = answer_wire content t (parsed m p v hs) a
    \<and> (cn_state (conn_at i el') = SENDING_BODY \<or> cn_state (conn_at i el') = KEEP_ALIVE \<and> pending content (conn_at i el') = [])"
proof (rule service_answers [OF assms(1,2) _ assms(5-7) complete_request_wire [OF assms(10-14,9)] assms(15,16)])
  show "in_service content (render_request m p v hs) (parsed m p v hs) a (cn_ssl (conn_at i el)) (cn_fd (conn_at i el)) (own_ios i evs) []
      (conn_at i el)"
    using assms(3,4,8) by (simp add: in_service_defs)
qed

text \<open>
  The next request on a kept connection.  A connection is idle after an answer and a client sends another \<open>GET\<close> or
  \<open>HEAD\<close> request.  If all of it is there when it is first read, it is answered like the first: the connection
  is sending or done, and what it has sent since, followed by what it has still to send, is the answer this request
  is due, with nothing left over from the one before.
\<close>

theorem next_request_answered:
  assumes "reachable el" and "i < MAX_CONNECTIONS" and "cn_state (conn_at i el) = KEEP_ALIVE"
    and "events_ok evs el" and "unexpired i evs el" and "dispatch_all evs el = Some (Inr (el', es))"
    and "arrives_whole (cn_ssl (conn_at i el)) (cn_fd (conn_at i el)) (own_ios i evs) (render_request m p v hs)"
    and "length (render_request m p v hs) \<le> 4096"
    and "m = ''GET'' \<or> m = ''HEAD''" and "plain_token p" and "CR \<notin> set v" and "\<forall>h \<in> set hs. plain_header h" and "hs \<noteq> []"
    and "\<forall>e \<in> set evs. ke_udata (snd e) = Conn i \<longrightarrow> favourable content (cn_ssl (conn_at i el)) (el_root_dir el) (parsed m p v hs) a e"
    and "well_sized content a"
  shows "\<exists>t. sent_bytes content (effects_on i evs el) @ pending content (conn_at i el') = answer_wire content t (parsed m p v hs) a
    \<and> (cn_state (conn_at i el') = SENDING_BODY \<or> cn_state (conn_at i el') = KEEP_ALIVE \<and> pending content (conn_at i el') = [])"
proof (rule service_answers [OF assms(1,2) _ assms(4-6) _ assms(14,15)])
  show "in_service content (render_request m p v hs) (parsed m p v hs) a (cn_ssl (conn_at i el)) (cn_fd (conn_at i el)) (own_ios i evs) []
      (conn_at i el)"
    using assms(3,7) by (simp add: in_service_defs)
  show "complete_request (render_request m p v hs) (parsed m p v hs)" by (rule complete_request_wire) (use assms(8-13) in simp_all)
qed

text \<open>An example: the first byte is looked at, then the request is read at once and the file goes out.\<close>

lemma io_input_cooperative: "cooperative content None (io_input bs)"
  by (auto simp: cooperative_def io_input_ok files_ok_def) (auto simp: io_input_def io_idle_def)

lemma example_root:
  assumes "loop_step (example_loop tls) [E_Accept 5] el"
  shows "el_root_dir el = ''/srv''"
  using loop_step_root [OF assms]
  by (simp add: example_loop_def add_listener_def set_tls_context_def event_loop_init_def flush_changelist_def
      add_event_def file_server_root_def Let_def)

lemma service_returns:
  assumes "reachable el" and "i < MAX_CONNECTIONS" and "complete_request input req" and "well_sized content a"
    and "in_service content input req a ssl fd (own_ios i evs) out (conn_at i el)"
    and "\<forall>e \<in> set evs. ke_udata (snd e) = Conn i \<and> favourable content ssl (el_root_dir el) req a e"
  shows "\<exists>el' es. dispatch_all evs el = Some (Inr (el', es)) \<and> events_ok evs el \<and> unexpired i evs el"
  using assms(1,5-)
proof (induction evs arbitrary: el out)
  case (Cons e evs)
  obtain li ev where e: "e = (li, ev)" by (cases e)
  have own: "ke_udata ev = Conn i" and fav: "favourable content ssl (el_root_dir el) req a (li, ev)"
    using Cons.prems(3) by (simp_all add: e)
  have "in_service content input req a ssl fd (li_io li # own_ios i evs) out (conn_at i el)"
    using Cons.prems(2) own by (simp add: e)
  from service_own_event [OF Cons.prems(1) assms(2-4) this own fav]
  obtain el1 es1 where d: "dispatch li ev el = Some (Inr (el1, es1))" and ok: "event_ok el li ev"
    and s: "in_service content input req a ssl fd (own_ios i evs) (out @ sent_bytes content es1) (conn_at i el1)" by blast
  have reach: "reachable el1" using step [OF Cons.prems(1) event [OF ok d]] .
  have "\<forall>e \<in> set evs. ke_udata (snd e) = Conn i \<and> favourable content ssl (el_root_dir el1) req a e"
    using Cons.prems(3) dispatch_root [OF d] by simp
  then obtain el' es where "dispatch_all evs el1 = Some (Inr (el', es)) \<and> events_ok evs el1 \<and> unexpired i evs el1"
    using Cons.IH [OF reach s] by blast
  then show ?case using d ok own by (simp add: e)
qed simp

definition example_input :: string where
  "example_input = render_request ''GET'' ''/a.txt'' ''HTTP/1.1'' [(''Host'', ''x'')]"

abbreviation example_parsed :: http_request where
  "example_parsed \<equiv> parsed ''GET'' ''/a.txt'' ''HTTP/1.1'' [(''Host'', ''x'')]"

lemma example_plain: "plain_token ''/a.txt''" "CR \<notin> set ''HTTP/1.1''" "\<forall>h \<in> set [(''Host'', ''x'')]. plain_header h"
  by (simp_all add: plain_token_def plain_header_def)

lemma example_input_length: "length example_input \<le> 4096" "example_input \<noteq> []"
  by (simp_all add: example_input_def render_request_def lines_block_def render_header_def)

lemma example_complete: "complete_request example_input example_parsed"
  unfolding example_input_def
  by (rule complete_request_wire) (use example_plain example_input_length in \<open>simp_all add: example_input_def\<close>)

lemma example_answer: "answer_to (li_server (example_io io cs)) ''/srv'' example_parsed = Inr (Content example_info None)"
proof -
  have "open_file (si_fs example_si) ''/srv'' ''/a.txt'' = Inr example_info"
    using example_request_open [of "[]"] by (simp add: example_info_def example_request_def)
  moreover have "rq_method example_parsed \<noteq> UNKNOWN" "parse_range example_parsed 5 = Inr None" "\<not> still_valid si example_parsed example_info" for si
    by (simp_all add: method_of_def parse_range_def header_def still_valid_def parse_if_modified_since_def)
  ultimately show ?thesis by (simp add: answer_to_def example_io_def example_info_def)
qed

lemma next_request_answered_witness:
  defines "io \<equiv> (\<lambda>bs. (io_input bs)\<lparr>io_read := \<lambda>_ n. if bs = [] then Sys_EAGAIN else Sys_OK (take n bs)\<rparr>)"
  defines "batch \<equiv> (\<lambda>i. [(example_io (io []) [], example_event (Conn i)), (example_io (io example_input) [], example_event (Conn i))])"
  shows "\<exists>el el' es i t. cn_state (conn_at i el) = KEEP_ALIVE \<and> dispatch_all (batch i) el = Some (Inr (el', es))
    \<and> sent_bytes (\<lambda>_. ''hello'') (effects_on i (batch i) el) @ pending (\<lambda>_. ''hello'') (conn_at i el')
      = answer_wire (\<lambda>_. ''hello'') t example_parsed (Content example_info None)"
proof -
  let ?content = "\<lambda>_. ''hello''" and ?hs = "[(''Host'', ''x'')]" and ?a = "Content example_info None"
  obtain el0 el1 el es i where l: "loop_step example_start [E_Accept 5] el0" "loop_step el0 [] el1" "loop_step el1 es el"
    and el: "reachable el" "i < MAX_CONNECTIONS"
    and c: "cn_state (conn_at i el) = KEEP_ALIVE" "cn_fd (conn_at i el) = 5" "cn_ssl (conn_at i el) = None"
    using example_idle by blast
  have root: "el_root_dir el = ''/srv''" using example_root [OF l(1)] loop_step_root [OF l(2)] loop_step_root [OF l(3)] by simp
  have size: "well_sized ?content ?a" by (simp add: example_info_def off_max_def)
  have ios: "own_ios i (batch i) = [io [], io example_input]" by (simp add: batch_def example_event_def example_io_def)
  have arr: "arrives_whole (cn_ssl (conn_at i el)) (cn_fd (conn_at i el)) (own_ios i (batch i)) example_input"
    unfolding ios c(3) by (simp add: reads_def io_def example_input_length)
  have start: "in_service ?content example_input example_parsed ?a None 5 (own_ios i (batch i)) [] (conn_at i el)"
    using c arr by (simp add: in_service_defs)
  have coop: "cooperative ?content None (io bs)" for bs
    using io_input_cooperative [of ?content bs] by (auto simp: cooperative_def io_def io_ok_def files_ok_def)
  have "favourable ?content None (el_root_dir el) example_parsed ?a e \<and> ke_udata (snd e) = Conn i" if "e \<in> set (batch i)" for e
    using that coop example_answer unfolding root
    by (auto simp: favourable_def batch_def example_event_def) (simp_all add: example_io_def)
  then have fav: "\<forall>e \<in> set (batch i). ke_udata (snd e) = Conn i \<and> favourable ?content None (el_root_dir el) example_parsed ?a e"
    and fav': "\<forall>e \<in> set (batch i). ke_udata (snd e) = Conn i \<longrightarrow> favourable ?content None (el_root_dir el) example_parsed ?a e"
    by blast+
  obtain el' es' where d: "dispatch_all (batch i) el = Some (Inr (el', es'))" "events_ok (batch i) el" "unexpired i (batch i) el"
    using service_returns [OF el example_complete size start fav] by auto
  have gh: "''GET'' = ''GET'' \<or> ''GET'' = ''HEAD''" "?hs \<noteq> []" by simp_all
  from next_request_answered [OF el c(1) d(2,3,1) arr [unfolded example_input_def] example_input_length(1) [unfolded example_input_def]
      gh(1) example_plain gh(2) fav' [folded c(3)] size] d(1) c(1)
  show ?thesis by blast
qed

end
