(* ===== verification/Loop_Completion.thy ===== *)
theory Loop_Completion
  imports Loop_Service
begin

text \<open>
  The end of the service: as long as every event of a connection sends something, its answer is
  sent to the last byte and the connection becomes idle, whatever happens on the others.
\<close>

subsection \<open>Batches one after the other\<close>

lemma dispatch_all_append:
  "dispatch_all (xs @ ys) el = Some (Inr (el', es)) \<longleftrightarrow>
   (\<exists>el1 es1 es2. dispatch_all xs el = Some (Inr (el1, es1)) \<and> dispatch_all ys el1 = Some (Inr (el', es2)) \<and> es = es1 @ es2)"
proof (induction xs arbitrary: el es)
  case (Cons e xs)
  obtain li ev where e: "e = (li, ev)" by (cases e)
  show ?case by (auto simp: e map_sum_Inr_iff Cons.IH split: option.split sum.split)
qed simp

lemma batch_append:
  assumes "dispatch_all xs el = Some (Inr (el1, es1))"
  shows "events_ok (xs @ ys) el \<longleftrightarrow> events_ok xs el \<and> events_ok ys el1"
    and "unexpired i (xs @ ys) el \<longleftrightarrow> unexpired i xs el \<and> unexpired i ys el1"
    and "effects_on i (xs @ ys) el = effects_on i xs el @ effects_on i ys el1"
  using assms
  by (induction xs arbitrary: el es1) (auto simp: map_sum_Inr_iff split: option.splits sum.splits)

lemma dispatch_all_root: "dispatch_all evs el = Some (Inr (el', es)) \<Longrightarrow> el_root_dir el' = el_root_dir el"
proof (induction evs arbitrary: el es)
  case (Cons e evs)
  obtain li ev where e: "e = (li, ev)" by (cases e)
  show ?case using Cons.prems dispatch_root Cons.IH by (fastforce simp: e map_sum_Inr_iff split: option.splits sum.splits)
qed simp

lemma dispatch_all_reaches: "reachable el \<Longrightarrow> events_ok evs el \<Longrightarrow> dispatch_all evs el = Some (Inr (el', es)) \<Longrightarrow> reachable el'"
  using dispatch_all_ok [of el evs] by auto

lemma own_ios_append: "own_ios i (xs @ ys) = own_ios i xs @ own_ios i ys"
  by (simp add: own_ios_def)

text \<open>Once the request is there, events without input do no harm.\<close>

lemma pieces_append: "pieces ssl fd ios input \<Longrightarrow> pieces ssl fd later [] \<Longrightarrow> pieces ssl fd (ios @ later) input"
  by (induction ssl fd ios input rule: pieces.induct) (auto split: sys.splits)

lemma arrives_append: "arrives ssl fd ios input \<Longrightarrow> pieces ssl fd later [] \<Longrightarrow> arrives ssl fd (ios @ later) input"
  by (induction ssl fd ios input rule: arrives.induct) (auto simp: pieces_append split: sys.splits ssl.splits)

lemma arrives_whole_append: "arrives_whole ssl fd ios input \<Longrightarrow> pieces ssl fd later [] \<Longrightarrow> arrives_whole ssl fd (ios @ later) input"
  by (induction ssl fd ios input rule: arrives_whole.induct) (auto simp: pieces_append split: sys.splits)

lemma in_service_append:
  "in_service content input req a ssl fd ios out c \<Longrightarrow> pieces ssl fd later [] \<Longrightarrow> in_service content input req a ssl fd (ios @ later) out c"
  unfolding in_service_defs using pieces_append [where later = later] arrives_append [where later = later] arrives_whole_append [where later = later]
  by blast

subsection \<open>Every event sends something\<close>

lemma served_unique: "served_by li tls root c c1 es1 \<Longrightarrow> served_by li tls root c c2 es2 \<Longrightarrow> c1 = c2 \<and> es1 = es2"
  by (auto simp: served_by_def)

lemma answer_event_advances:
  assumes "cn_state c = KEEP_ALIVE \<or> cn_state c = SENDING_BODY \<and> covers content c" and "conn_inv c"
    and "pieces (cn_ssl c) (cn_fd c) (li_io li # ios) []" and "cooperative content (cn_ssl c) (li_io li)" and "makes_progress content (li_io li)"
    and "served_by li tls root c c' es"
  shows "cn_state c' = KEEP_ALIVE \<or> cn_state c = SENDING_BODY \<and> sent_bytes content es \<noteq> []"
proof (cases "cn_state c = KEEP_ALIVE")
  case True
  obtain c1 es1 where r: "conn_reset c = (c1, es1)" by (cases "conn_reset c")
  let ?c = "c1\<lparr>cn_last_active := io_now (li_io li)\<rparr>"
  have c1: "cn_state c1 = KEEP_ALIVE" "cn_ssl c1 = cn_ssl c" "cn_fd c1 = cn_fd c"
    using r True by (auto simp: conn_reset_def close_file_def split: if_splits)
  have "reads (cn_ssl c) (cn_fd c) (li_io li) = Sys_EAGAIN" using assms(3) by (auto split: sys.splits)
  then obtain w where "do_read (li_io li) c1 = (w, ?c, [])" using do_read_waits [of c1] c1(2,3) by auto
  then have act: "conn_action (li_io li) (tls \<noteq> None) c = (w, ?c, es1)" using True r by (simp add: conn_action_def)
  have "served_by li tls root c ?c es1" using c1(1) by (intro served_byI [OF act]) simp_all
  then show ?thesis using served_unique [OF assms(6)] c1(1) by auto
next
  case False
  then have c: "cn_state c = SENDING_BODY" "covers content c" using assms(1) by simp_all
  obtain w c2 es2 where d: "do_send_body (li_io li) c = (w, c2, es2)" by (cases "do_send_body (li_io li) c")
  then have act: "conn_action (li_io li) (tls \<noteq> None) c = (w, c2, es2)" using c(1) by (simp add: conn_action_def)
  have st: "cn_state c2 = KEEP_ALIVE \<or> cn_state c2 = SENDING_BODY" using do_send_body_open [OF assms(4) c d] by blast
  then have "served_by li tls root c c2 es2" by (intro served_byI [OF act]) auto
  then have same: "c' = c2" "es = es2" using served_unique [OF assms(6)] by auto
  have "conn_base c" using assms(2) by (simp add: conn_inv_def)
  then show ?thesis unfolding same
    using do_send_body_advances [OF assms(5) c(2) _ c(1) cooperativeD(1) [OF assms(4)]] d c(1) by auto
qed

lemma answering_unlinked:
  assumes "unlinked c = unlinked c'"
  shows "answering_phase content req a ssl fd ios out c = answering_phase content req a ssl fd ios out c'"
proof -
  have "answering_phase content req a ssl fd ios out c = answering_phase content req a ssl fd ios out (unlinked c)" for c
    by (simp add: answering_phase_def answered_def pending_unlinked unlinked_select)
  then show ?thesis using assms by metis
qed

subsection \<open>A batch of events\<close>

lemma answering_event:
  assumes "reachable el" and "i < MAX_CONNECTIONS" and "answering_phase content req a ssl fd (li_io li # ios) out (conn_at i el)"
    and "ke_udata ev = Conn i" and "EV_ERROR \<notin> ke_flags ev" and "EV_EOF \<notin> ke_flags ev"
    and "cooperative content ssl (li_io li)" and "makes_progress content (li_io li)" and "dispatch li ev el = Some (Inr (el1, es))"
  shows "answering_phase content req a ssl fd ios (out @ sent_bytes content es) (conn_at i el1)
    \<and> (cn_state (conn_at i el1) = KEEP_ALIVE \<or> cn_state (conn_at i el) = SENDING_BODY \<and> sent_bytes content es \<noteq> [])"
proof -
  let ?c = "conn_at i el"
  have inv: "loop_inv el" by (rule reachable_inv [OF assms(1)])
  have c: "fd = cn_fd ?c" "ssl = cn_ssl ?c" using assms(3) by (simp_all add: answering_phase_def)
  have st: "cn_state ?c = KEEP_ALIVE \<or> cn_state ?c = SENDING_BODY \<and> covers content ?c"
    and p: "pieces (cn_ssl ?c) (cn_fd ?c) (li_io li # ios) []" and ans: "answered content req a out ?c"
    using assms(3) by (simp_all add: answering_phase_def)
  have cinv: "conn_inv ?c" using inv assms(2) by (simp add: loop_inv_def loop_base_def)
  note io = assms(7) [unfolded c]
  obtain c' es' where s: "served_by li (el_tls_ctx el) (el_root_dir el) ?c c' es'"
    "answering_phase content req a (cn_ssl ?c) (cn_fd ?c) ios (out @ sent_bytes content es') c'"
    using send_served [OF st cinv p ans io] by blast
  have opn: "cn_state ?c \<noteq> CLOSED" using st by auto
  have u: "unlinked (conn_at i el1) = unlinked c'" "es = es'"
    using served_event [OF inv assms(2,4-6) cooperativeD(1) [OF io] assms(9) opn s(1)] by blast+
  have adv: "cn_state c' = KEEP_ALIVE \<or> cn_state ?c = SENDING_BODY \<and> sent_bytes content es' \<noteq> []"
    by (rule answer_event_advances [OF st cinv p io assms(8) s(1)])
  have "cn_state (conn_at i el1) = cn_state c'" using unlinked_fields [OF u(1)] by simp
  moreover have "answering_phase content req a ssl fd ios (out @ sent_bytes content es) (conn_at i el1)"
    using s(2) answering_unlinked [OF u(1)] unfolding c u(2) by blast
  ultimately show ?thesis using adv u(2) by simp
qed

text \<open>After as many events as there are bytes still to send, and one more, the connection is idle.\<close>

lemma answering_batch:
  assumes "reachable el" and "i < MAX_CONNECTIONS" and "answering_phase content req a ssl fd (own_ios i evs) out (conn_at i el)"
    and "events_ok evs el" and "unexpired i evs el" and "dispatch_all evs el = Some (Inr (el', es))"
    and "\<forall>e \<in> set evs. ke_udata (snd e) = Conn i \<longrightarrow> favourable content ssl (el_root_dir el) req a e \<and> makes_progress content (li_io (fst e))"
  shows "cn_state (conn_at i el') = KEEP_ALIVE \<or> length (own_ios i evs) \<le> length (sent_bytes content (effects_on i evs el))
      \<and> cn_state (conn_at i el) = SENDING_BODY"
    and "answering_phase content req a ssl fd [] (out @ sent_bytes content (effects_on i evs el)) (conn_at i el')"
proof -
  have "(cn_state (conn_at i el') = KEEP_ALIVE \<or> length (own_ios i evs) \<le> length (sent_bytes content (effects_on i evs el))
      \<and> cn_state (conn_at i el) = SENDING_BODY)
    \<and> answering_phase content req a ssl fd [] (out @ sent_bytes content (effects_on i evs el)) (conn_at i el')"
    using assms(1,3-)
  proof (induction evs arbitrary: el es out)
    case Nil
    then show ?case by (auto simp: answering_phase_def)
  next
    case (Cons e evs)
    obtain li ev where e: "e = (li, ev)" by (cases e)
    obtain el1 es1 es2 where d: "dispatch li ev el = Some (Inr (el1, es1))" and rest: "dispatch_all evs el1 = Some (Inr (el', es2))"
      using Cons.prems(5) by (auto simp: e map_sum_Inr_iff split: option.splits sum.splits)
    have ok: "event_ok el li ev" "events_ok evs el1" "\<not> (ke_udata ev = Timer_Tag \<and> expires li el i)" "unexpired i evs el1"
      using Cons.prems(3,4) d by (simp_all add: e)
    have reach: "reachable el1" using step [OF Cons.prems(1) event [OF ok(1) d]] .
    have fav: "\<forall>e \<in> set evs. ke_udata (snd e) = Conn i \<longrightarrow>
        favourable content ssl (el_root_dir el1) req a e \<and> makes_progress content (li_io (fst e))"
      using Cons.prems(6) dispatch_root [OF d] by simp
    show ?case
    proof (cases "ke_udata ev = Conn i")
      case True
      have "favourable content ssl (el_root_dir el) req a (li, ev)" "makes_progress content (li_io li)"
        using Cons.prems(6) True by (simp_all add: e)
      then have f: "EV_ERROR \<notin> ke_flags ev" "EV_EOF \<notin> ke_flags ev" "cooperative content ssl (li_io li)" "makes_progress content (li_io li)"
        by (simp_all add: favourable_def)
      have "answering_phase content req a ssl fd (li_io li # own_ios i evs) out (conn_at i el)" using Cons.prems(2) True by (simp add: e)
      note ev1 = answering_event [OF Cons.prems(1) assms(2) this True f d]
      note ih = Cons.IH [OF reach conjunct1 [OF ev1] ok(2,4) rest fav]
      have "sent_bytes content es1 \<noteq> [] \<Longrightarrow> 1 \<le> length (sent_bytes content es1)" by (simp add: Suc_le_eq)
      with ih ev1 True d show ?thesis by (auto simp: e)
    next
      case False
      have "cn_state (conn_at i el) \<noteq> CLOSED" using Cons.prems(2) by (auto simp: answering_phase_def)
      then have u: "unlinked (conn_at i el1) = unlinked (conn_at i el)"
        using service_other_event [OF Cons.prems(1) assms(2) _ ok(1) False ok(3) d] by blast
      have "answering_phase content req a ssl fd (own_ios i evs) out (conn_at i el1)"
        using Cons.prems(2) False answering_unlinked [OF u] by (simp add: e)
      from Cons.IH [OF reach this ok(2,4) rest fav] show ?thesis using False d unlinked_fields [OF u] by (auto simp: e)
    qed
  qed
  then show "cn_state (conn_at i el') = KEEP_ALIVE \<or> length (own_ios i evs) \<le> length (sent_bytes content (effects_on i evs el))
      \<and> cn_state (conn_at i el) = SENDING_BODY"
    and "answering_phase content req a ssl fd [] (out @ sent_bytes content (effects_on i evs el)) (conn_at i el')" by simp_all
qed


text \<open>A request in service is answered to the end: it arrives with the first events, and the others are more than the answer has bytes.\<close>

lemma exchange_completed:
  assumes "reachable el" and "i < MAX_CONNECTIONS" and "complete_request input req" and "well_sized content a"
    and "in_service content input req a ssl fd (own_ios i evs1) [] (conn_at i el)" and "pieces ssl fd (own_ios i evs2) []"
    and "events_ok (evs1 @ evs2) el" and "unexpired i (evs1 @ evs2) el" and "dispatch_all (evs1 @ evs2) el = Some (Inr (el', es))"
    and "\<forall>e \<in> set (evs1 @ evs2). ke_udata (snd e) = Conn i \<longrightarrow> favourable content ssl (el_root_dir el) req a e"
    and "\<forall>e \<in> set evs2. ke_udata (snd e) = Conn i \<longrightarrow> makes_progress content (li_io (fst e))"
    and "\<forall>t. length (answer_wire content t req a) < length (own_ios i evs2)"
  shows "\<exists>t. cn_state (conn_at i el') = KEEP_ALIVE \<and> cn_ssl (conn_at i el') = ssl \<and> cn_fd (conn_at i el') = fd
    \<and> sent_bytes content (effects_on i (evs1 @ evs2) el) = answer_wire content t req a"
proof -
  obtain el1 es1 es2 where d1: "dispatch_all evs1 el = Some (Inr (el1, es1))" and d2: "dispatch_all evs2 el1 = Some (Inr (el', es2))"
    using assms(9) by (auto simp: dispatch_all_append)
  note app = batch_append [OF d1]
  have ok: "events_ok evs1 el" "events_ok evs2 el1" "unexpired i evs1 el" "unexpired i evs2 el1"
    using assms(7,8) app(1,2) by simp_all
  have fav1: "\<forall>e \<in> set evs1. ke_udata (snd e) = Conn i \<longrightarrow> favourable content ssl (el_root_dir el) req a e" using assms(10) by simp
  have fav2: "\<forall>e \<in> set evs2. ke_udata (snd e) = Conn i \<longrightarrow>
      favourable content ssl (el_root_dir el1) req a e \<and> makes_progress content (li_io (fst e))"
    using assms(10,11) dispatch_all_root [OF d1] by simp
  let ?out = "sent_bytes content (effects_on i evs1 el)" and ?out2 = "sent_bytes content (effects_on i evs2 el1)"
  have "find_str CRLFCRLF input \<noteq> None" using assms(3) by (simp add: complete_request_def)
  then have "answering_phase content req a ssl fd (own_ios i evs2) ?out (conn_at i el1)"
    using service_batch [OF assms(1-5) ok(1,3) d1 fav1] assms(6) by (auto simp: in_service_defs)
  note fin = answering_batch [OF dispatch_all_reaches [OF assms(1) ok(1) d1] assms(2) this ok(2,4) d2 fav2]
  obtain t where t: "(?out @ ?out2) @ pending content (conn_at i el') = answer_wire content t req a"
    using fin(2) by (auto simp: answering_phase_def answered_def)
  have "length ?out2 \<le> length (answer_wire content t req a)" unfolding t [symmetric] by simp
  moreover have "length (answer_wire content t req a) < length (own_ios i evs2)" using assms(12) by blast
  ultimately have "cn_state (conn_at i el') = KEEP_ALIVE" using fin(1) by linarith
  moreover from this have "pending content (conn_at i el') = []" by (simp add: pending_def)
  ultimately show ?thesis using t app(3) fin(2) by (auto simp: answering_phase_def)
qed

subsection \<open>The property\<close>

text \<open>
  A request is answered to the end.  In the situation of the end-to-end property let the request arrive in a
  first batch of events.  If afterwards every event of the connection makes some progress and there are more of
  them than the answer has bytes, then, whatever else happens in between, the whole answer has been sent,
  exactly once, and the connection waits for the next request.
\<close>

theorem request_completed:
  assumes "reachable el" and "i < MAX_CONNECTIONS" and "cn_read_buf (conn_at i el) = []"
    and "cn_state (conn_at i el) = (if cn_ssl (conn_at i el) = None then PROTO_DETECT else TLS_ACCEPT)"
    and "events_ok (evs1 @ evs2) el" and "unexpired i (evs1 @ evs2) el" and "dispatch_all (evs1 @ evs2) el = Some (Inr (el', es))"
    and "arrives (cn_ssl (conn_at i el)) (cn_fd (conn_at i el)) (own_ios i evs1) (render_request m p v hs)"
    and "pieces (cn_ssl (conn_at i el)) (cn_fd (conn_at i el)) (own_ios i evs2) []"
    and "length (render_request m p v hs) \<le> 65536"
    and "m = ''GET'' \<or> m = ''HEAD''" and "plain_token p" and "CR \<notin> set v" and "\<forall>h \<in> set hs. plain_header h" and "hs \<noteq> []"
    and "\<forall>e \<in> set (evs1 @ evs2). ke_udata (snd e) = Conn i \<longrightarrow>
      favourable content (cn_ssl (conn_at i el)) (el_root_dir el) (parsed m p v hs) a e"
    and "well_sized content a"
    and "\<forall>e \<in> set evs2. ke_udata (snd e) = Conn i \<longrightarrow> makes_progress content (li_io (fst e))"
    and "\<forall>t. length (answer_wire content t (parsed m p v hs) a) < length (own_ios i evs2)"
  shows "\<exists>t. cn_state (conn_at i el') = KEEP_ALIVE
    \<and> sent_bytes content (effects_on i (evs1 @ evs2) el) = answer_wire content t (parsed m p v hs) a"
proof -
  have "in_service content (render_request m p v hs) (parsed m p v hs) a (cn_ssl (conn_at i el)) (cn_fd (conn_at i el)) (own_ios i evs1) []
      (conn_at i el)"
    using assms(3,4,8) by (simp add: in_service_def)
  from exchange_completed [OF assms(1,2) complete_request_wire [OF assms(11-15,10)] assms(17) this assms(9,5-7,16,18,19)]
  show ?thesis by blast
qed

lemma answer_wire_length: "length (answer_wire content t req a) \<le> length (answer_wire content 0 req a) + 63"
proof -
  have f: "length (format_time t) \<le> 63" by (simp add: format_time_def Let_def)
  have "length (answer_head content t keep a) \<le> length (answer_head content 0 keep a) + 63" for keep
    using f by (cases a) (simp_all add: answer_head_def lines_block_def render_header_def)
  then show ?thesis by (simp add: answer_wire_def)
qed

definition io_sending :: io where
  "io_sending = io_idle\<lparr>io_write := \<lambda>_ bs. Sys_OK (length bs), io_sendfile := \<lambda>_ _ _ n. Sf_Done (nat n),
     io_ssl_write := \<lambda>_ bs. if bs = [] then Ssl_Want_Write else Ssl_OK (length bs),
     io_pread := \<lambda>_ k off. Sys_OK (take k (drop (nat off) ''hello''))\<rparr>"

lemma io_sending_ok: "cooperative (\<lambda>_. ''hello'') ssl io_sending" "makes_progress (\<lambda>_. ''hello'') io_sending"
proof -
  have "0 < k \<Longrightarrow> j < length xs \<Longrightarrow> take k (drop j xs) \<noteq> []" for k j and xs :: string by simp
  then show "makes_progress (\<lambda>_. ''hello'') io_sending"
    unfolding makes_progress_def io_sending_def by (auto simp: io_idle_def)
  have "take k xs = take (min (length xs) k) xs" for k and xs :: string by (simp add: min_def)
  from this [of _ "drop _ ''hello''"] show "cooperative (\<lambda>_. ''hello'') ssl io_sending"
    by (cases ssl) (auto simp: cooperative_def io_ok_def files_ok_def io_sending_def io_idle_def split: if_splits)
qed

lemma io_sending_pieces: "pieces ssl 5 (replicate k io_sending) []"
proof -
  have "reads ssl 5 io_sending = Sys_EAGAIN" by (cases ssl) (simp_all add: reads_def io_sending_def io_idle_def)
  then show ?thesis by (induction k) simp_all
qed

lemma request_completed_witness:
  "\<exists>el el' es evs i t. dispatch_all evs el = Some (Inr (el', es)) \<and> cn_state (conn_at i el') = KEEP_ALIVE
     \<and> sent_bytes (\<lambda>_. ''hello'') (effects_on i evs el) = answer_wire (\<lambda>_. ''hello'') t example_parsed (Content example_info None)"
proof -
  let ?content = "\<lambda>_. ''hello''" and ?hs = "[(''Host'', ''x'')]" and ?a = "Content example_info None"
  let ?n = "Suc (length (answer_wire ?content 0 example_parsed ?a) + 63)"
  obtain el i where l: "loop_step example_start [E_Accept 5] el" and el: "reachable el" "i < MAX_CONNECTIONS"
    and c: "cn_state (conn_at i el) = PROTO_DETECT" "cn_fd (conn_at i el) = 5" "cn_ssl (conn_at i el) = None" "cn_read_buf (conn_at i el) = []"
    using example_accepted by blast
  define evs1 where "evs1 = replicate 2 (example_io (io_input example_input) [], example_event (Conn i))"
  define evs2 where "evs2 = replicate ?n (example_io io_sending [], example_event (Conn i))"
  have own: "own_ios i (replicate k (example_io io [], example_event (Conn i))) = replicate k io" for k io
    by (induction k) (simp_all add: example_event_def example_io_def)
  have size: "well_sized ?content ?a" by (simp add: example_info_def off_max_def)
  have arr: "arrives None 5 (own_ios i evs1) example_input"
    using example_input_length unfolding evs1_def own by (simp add: numeral_2_eq_2 reads_def io_input_def io_idle_def)
  have "arrives None 5 (own_ios i (evs1 @ evs2)) example_input"
    using arrives_append [OF arr io_sending_pieces] by (simp add: own_ios_append evs2_def own)
  then have start: "in_service ?content example_input example_parsed ?a None 5 (own_ios i (evs1 @ evs2)) [] (conn_at i el)"
    using c by (simp add: in_service_def)
  have "favourable ?content None (el_root_dir el) example_parsed ?a e \<and> ke_udata (snd e) = Conn i" if "e \<in> set (evs1 @ evs2)" for e
    using that io_input_cooperative [of ?content example_input] io_sending_ok(1) example_answer unfolding example_root [OF l]
    by (auto simp: favourable_def evs1_def evs2_def example_event_def) (simp_all add: example_io_def)
  then have fav: "\<forall>e \<in> set (evs1 @ evs2). ke_udata (snd e) = Conn i \<and> favourable ?content None (el_root_dir el) example_parsed ?a e"
    and fav': "\<forall>e \<in> set (evs1 @ evs2). ke_udata (snd e) = Conn i \<longrightarrow> favourable ?content (cn_ssl (conn_at i el)) (el_root_dir el) example_parsed ?a e"
    unfolding c(3) by blast+
  obtain el' es where d: "dispatch_all (evs1 @ evs2) el = Some (Inr (el', es))" "events_ok (evs1 @ evs2) el" "unexpired i (evs1 @ evs2) el"
    using service_returns [OF el example_complete size start fav] by auto
  have prog: "\<forall>e \<in> set evs2. ke_udata (snd e) = Conn i \<longrightarrow> makes_progress ?content (li_io (fst e))"
    using io_sending_ok(2) by (auto simp: evs2_def example_io_def)
  have long: "\<forall>t. length (answer_wire ?content t example_parsed ?a) < length (own_ios i evs2)"
    unfolding evs2_def own length_replicate by (intro allI le_imp_less_Suc answer_wire_length)
  have rest: "pieces None 5 (own_ios i evs2) []" unfolding evs2_def own by (rule io_sending_pieces)
  have st: "cn_state (conn_at i el) = (if cn_ssl (conn_at i el) = None then PROTO_DETECT else TLS_ACCEPT)" by (simp add: c)
  have n: "length example_input \<le> 65536" using example_input_length(1) by simp
  have gh: "''GET'' = ''GET'' \<or> ''GET'' = ''HEAD''" "?hs \<noteq> []" by simp_all
  from request_completed [OF el c(4) st d(2,3,1) _ _ n [unfolded example_input_def] gh(1) example_plain gh(2) fav' size prog long]
    arr rest d(1) c(2,3)
  show ?thesis unfolding example_input_def by metis
qed

end
