(* ===== verification/Loop_Rounds.thy ===== *)
theory Loop_Rounds
  imports Loop_Completion
begin

text \<open>
  The changes a handler queues for the kernel are written and never read: two states of the loop that differ only in
  them behave alike.  So a run, which hands the changes over at the start of every round, does to the connections what the events of
  its rounds do one after the other.
\<close>

subsection \<open>States that agree up to the queued changes\<close>

definition agree :: "event_loop \<Rightarrow> event_loop \<Rightarrow> bool" where
  "agree a b \<longleftrightarrow> a\<lparr>el_changelist := []\<rparr> = b\<lparr>el_changelist := []\<rparr>"

abbreviation alike :: "loop_result \<Rightarrow> loop_result \<Rightarrow> bool" where
  "alike \<equiv> rel_sum (=) (rel_prod agree (=))"

lemma agree_refl [simp]: "agree a a" by (simp add: agree_def)

lemma agree_sym: "agree a b \<Longrightarrow> agree b a" by (simp add: agree_def)

lemma agree_trans: "agree a b \<Longrightarrow> agree b c \<Longrightarrow> agree a c" by (simp add: agree_def)

lemma agree_changelist [simp]: "agree (a\<lparr>el_changelist := cl\<rparr>) a" "agree a (a\<lparr>el_changelist := cl\<rparr>)"
  by (simp_all add: agree_def)

lemma agreeE:
  assumes "agree a b"
  obtains cl where "b = a\<lparr>el_changelist := cl\<rparr>"
proof -
  have "a\<lparr>el_changelist := []\<rparr>\<lparr>el_changelist := el_changelist b\<rparr> = b\<lparr>el_changelist := []\<rparr>\<lparr>el_changelist := el_changelist b\<rparr>"
    using assms by (simp only: agree_def)
  then have "b = a\<lparr>el_changelist := el_changelist b\<rparr>" by simp
  then show thesis by (rule that)
qed

lemma agree_fields:
  assumes "agree a b"
  shows "conn_at i a = conn_at i b" and "el_pool a = el_pool b" and "el_keepalive_head a = el_keepalive_head b"
    and "el_tls_ctx a = el_tls_ctx b" and "el_root_dir a = el_root_dir b" and "el_keep_alive_timeout a = el_keep_alive_timeout b"
  using assms by (auto elim!: agreeE simp: conn_at_def)

lemma agree_set_conn: "agree a b \<Longrightarrow> agree (set_conn i c a) (set_conn i c b)"
  by (erule agreeE) (simp add: set_conn_def agree_def)

lemma agree_pool: "agree a b \<Longrightarrow> agree (a\<lparr>el_pool := p\<rparr>) (b\<lparr>el_pool := p\<rparr>)"
  by (erule agreeE) (simp add: agree_def)

lemma agree_head: "agree a b \<Longrightarrow> agree (a\<lparr>el_keepalive_head := h\<rparr>) (b\<lparr>el_keepalive_head := h\<rparr>)"
  by (erule agreeE) (simp add: agree_def)

lemma agree_add_event_iff [simp]: "agree (add_event fd flt fl ud a) b \<longleftrightarrow> agree a b" "agree a (add_event fd flt fl ud b) \<longleftrightarrow> agree a b"
  by (simp_all add: add_event_def agree_def)

lemma conn_at_add_event [simp]: "conn_at i (add_event fd flt fl ud a) = conn_at i a"
  by (simp add: add_event_def conn_at_def)

lemma agree_update_events [simp]: "agree (update_events i w a) b \<longleftrightarrow> agree a b" "agree a (update_events i w b) \<longleftrightarrow> agree a b"
  by (auto simp: update_events_def Let_def split: want.split)

lemmas agree_intros = agree_set_conn agree_pool agree_head

subsection \<open>Every handler keeps the agreement\<close>

lemma agree_add_keepalive:
  assumes "agree a b"
  shows "agree (add_to_keepalive_list i a) (add_to_keepalive_list i b)"
proof -
  obtain cl where "b = a\<lparr>el_changelist := cl\<rparr>" using agreeE [OF assms] .
  then show ?thesis
    by (cases "el_keepalive_head a") (simp_all add: add_to_keepalive_list_def Let_def agree_def set_conn_def conn_at_def)
qed

lemma agree_remove_keepalive:
  assumes "agree a b"
  shows "agree (remove_from_keepalive_list i a) (remove_from_keepalive_list i b)"
proof -
  obtain cl where "b = a\<lparr>el_changelist := cl\<rparr>" using agreeE [OF assms] .
  then show ?thesis
    by (auto simp: remove_from_keepalive_list_def Let_def agree_def set_conn_def conn_at_def split: option.split)
qed

lemma agree_sync: "agree a b \<Longrightarrow> agree (sync_keepalive st i a) (sync_keepalive st i b)"
  by (simp add: sync_keepalive_def Let_def agree_fields(1) [of a b] agree_add_keepalive agree_remove_keepalive)

lemma agree_destroy:
  assumes "agree a b"
  shows "alike (destroy_connection i a) (destroy_connection i b)"
proof -
  let ?a = "remove_from_keepalive_list i a" and ?b = "remove_from_keepalive_list i b"
  have r: "agree ?a ?b" by (rule agree_remove_keepalive [OF assms])
  define a' where "a' = (if 0 \<le> cn_fd (conn_at i ?a) then add_event (cn_fd (conn_at i ?a)) EVFILT_WRITE {EV_DELETE} Null_Tag
    (add_event (cn_fd (conn_at i ?a)) EVFILT_READ {EV_DELETE} Null_Tag ?a) else ?a)"
  define b' where "b' = (if 0 \<le> cn_fd (conn_at i ?b) then add_event (cn_fd (conn_at i ?b)) EVFILT_WRITE {EV_DELETE} Null_Tag
    (add_event (cn_fd (conn_at i ?b)) EVFILT_READ {EV_DELETE} Null_Tag ?b) else ?b)"
  have ab: "agree a' b'" using r by (simp add: a'_def b'_def)
  obtain c es where c: "conn_close (conn_at i a') = (c, es)" by (cases "conn_close (conn_at i a')")
  have s: "agree (set_conn i c a') (set_conn i c b')" by (rule agree_set_conn [OF ab])
  have "destroy_connection i a = (case release i (el_pool (set_conn i c a')) of Inl u \<Rightarrow> Inl u | Inr p \<Rightarrow> Inr ((set_conn i c a')\<lparr>el_pool := p\<rparr>, es))"
    unfolding destroy_connection_def Let_def a'_def [symmetric] c by simp
  moreover have "destroy_connection i b = (case release i (el_pool (set_conn i c a')) of Inl u \<Rightarrow> Inl u | Inr p \<Rightarrow> Inr ((set_conn i c b')\<lparr>el_pool := p\<rparr>, es))"
    unfolding destroy_connection_def Let_def b'_def [symmetric] agree_fields(1) [OF ab, symmetric] c agree_fields(2) [OF s] by simp
  ultimately show ?thesis using agree_pool [OF s] by (cases "release i (el_pool (set_conn i c a'))") simp_all
qed

lemma agree_create:
  assumes "agree a b"
  shows "rel_prod (=) agree (create_connection now fd a) (create_connection now fd b)"
proof -
  have p: "agree (a\<lparr>el_pool := p\<rparr>) (b\<lparr>el_pool := p\<rparr>)" for p by (rule agree_pool [OF assms])
  show ?thesis
    using assms agree_set_conn [OF p] agree_fields [OF p] agree_fields [OF assms]
    by (auto simp: create_connection_def Let_def split: option.split)
qed

lemma agree_accept: "agree a b \<Longrightarrow> rel_prod agree (=) (accept_loop now fds a) (accept_loop now fds b)"
proof (induction now fds a arbitrary: b rule: accept_loop.induct)
  case (2 now fd fds a)
  obtain r a' s b' where c: "create_connection now fd a = (r, a')" "create_connection now fd b = (s, b')"
    by (metis surj_pair)
  then have "r = s" "agree a' b'" using agree_create [OF 2(2), of now fd] by simp_all
  moreover have "rel_prod agree (=) (accept_loop now fds a') (accept_loop now fds b')" if "0 \<le> fd" "r = Some i" for i
    using 2(1) that \<open>agree a' b'\<close> c(1) by auto
  ultimately show ?case using 2(2) c by (cases r) (auto split: prod.splits)
qed simp

lemma agree_process:
  assumes "agree a b"
  shows "alike (process_connection li i a) (process_connection li i b)"
proof -
  note f = agree_fields [OF assms]
  have d: "alike (destroy_connection i (set_conn i c a)) (destroy_connection i (set_conn i c b))" for c
    by (rule agree_destroy [OF agree_set_conn [OF assms]])
  have m: "alike (map_sum id (\<lambda>(el, es'). (el, es @ es')) x) (map_sum id (\<lambda>(el, es'). (el, es @ es')) y)" if "alike x y" for es x y
    using that by (cases x; cases y) auto
  have s: "agree (sync_keepalive st i (set_conn i c a)) (sync_keepalive st i (set_conn i c b))" for st c
    by (rule agree_sync [OF agree_set_conn [OF assms]])
  show ?thesis
    by (auto simp: process_connection_def Let_def f assms s intro!: m d split: prod.split sum.split)
qed

lemma timer_loop_agree:
  assumes "timer_loop now t cur a es = Some r" and "agree a b"
  shows "\<exists>r'. timer_loop now t cur b es = Some r' \<and> alike r r'"
proof -
  have "\<forall>b. agree a b \<longrightarrow> (\<exists>r'. timer_loop now t cur b es = Some r' \<and> alike r r')"
    using assms(1)
  proof (rule timer_loop.raw_induct [rotated])
    fix loop now t cur a es r
    assume ih: "\<And>now t cur a es r. loop now t cur a es = Some r \<Longrightarrow>
        \<forall>b. agree a b \<longrightarrow> (\<exists>r'. timer_loop now t cur b es = Some r' \<and> alike r r')"
      and step: "(case cur of None \<Rightarrow> Some (Inr (a, es))
        | Some i \<Rightarrow> let nxt = cn_next (conn_at i a) in
            if is_expired now t (conn_at i a)
            then case destroy_connection i a of Inl u \<Rightarrow> Some (Inl u) | Inr (el', es') \<Rightarrow> loop now t nxt el' (es @ es')
            else loop now t nxt a es) = Some r"
    show "\<forall>b. agree a b \<longrightarrow> (\<exists>r'. timer_loop now t cur b es = Some r' \<and> alike r r')"
    proof (intro allI impI)
      fix b assume ab: "agree a b"
      note f = agree_fields(1) [OF ab]
      show "\<exists>r'. timer_loop now t cur b es = Some r' \<and> alike r r'"
      proof (cases cur)
        case None
        then show ?thesis using step ab by (auto simp: timer_loop.simps)
      next
        case (Some i)
        show ?thesis
        proof (cases "is_expired now t (conn_at i a)")
          case False
          then have "loop now t (cn_next (conn_at i a)) a es = Some r" using step Some by (simp add: Let_def)
          from ih [OF this] ab show ?thesis using Some False f [of i] by (simp add: timer_loop.simps [of now t "Some i"])
        next
          case True
          have d: "alike (destroy_connection i a) (destroy_connection i b)" by (rule agree_destroy [OF ab])
          show ?thesis
          proof (cases "destroy_connection i a")
            case (Inl u)
            then have "destroy_connection i b = Inl u" "r = Inl u" using d step Some True
              by (auto simp: Let_def elim: rel_sum.cases)
            then show ?thesis using Some True f [of i] by (simp add: timer_loop.simps [of now t "Some i"])
          next
            case (Inr y)
            obtain a' es' where a': "destroy_connection i a = Inr (a', es')" using Inr by (cases y) simp
            then obtain b' where b': "destroy_connection i b = Inr (b', es')" "agree a' b'"
              using d by (auto elim: rel_sum.cases)
            have "loop now t (cn_next (conn_at i a)) a' (es @ es') = Some r" using step Some True a' by (simp add: Let_def)
            from ih [OF this] b'(2) show ?thesis using Some True f [of i] b'(1) by (simp add: timer_loop.simps [of now t "Some i"])
          qed
        qed
      qed
    qed
  qed
  then show ?thesis using assms(2) by blast
qed

lemma dispatch_agree:
  assumes "dispatch li ev a = Some r" and "agree a b"
  shows "\<exists>r'. dispatch li ev b = Some r' \<and> alike r r'"
proof -
  note f = agree_fields [OF assms(2)]
  have acc: "alike (Inr (handle_accept li a)) (Inr (handle_accept li b))"
    using agree_accept [OF assms(2)] by (simp add: handle_accept_def)
  have t: "handle_timer li a = Some r \<Longrightarrow> \<exists>r'. handle_timer li b = Some r' \<and> alike r r'"
    using timer_loop_agree [OF _ assms(2)] f by (simp add: handle_timer_def)
  show ?thesis
    using assms(1) acc t agree_process [OF assms(2)] agree_destroy [OF assms(2)] assms(2)
    by (auto simp: dispatch_def split: if_splits udata.splits)
qed

lemma dispatch_alike: "agree a b \<Longrightarrow> rel_option alike (dispatch li ev a) (dispatch li ev b)"
  using dispatch_agree [of li ev a _ b] dispatch_agree [of li ev b _ a] agree_sym [of a b]
  by (cases "dispatch li ev a"; cases "dispatch li ev b") auto

lemma dispatch_alikeE:
  assumes "agree a b"
  obtains "dispatch li ev a = None" "dispatch li ev b = None"
    | u where "dispatch li ev a = Some (Inl u)" "dispatch li ev b = Some (Inl u)"
    | a' b' es where "dispatch li ev a = Some (Inr (a', es))" "dispatch li ev b = Some (Inr (b', es))" "agree a' b'"
  using dispatch_alike [OF assms, of li ev] that by (auto elim!: option.rel_cases rel_sum.cases)

subsection \<open>Batches\<close>

lemma dispatch_all_agree:
  "dispatch_all evs a = Some (Inr (a', es)) \<Longrightarrow> agree a b \<Longrightarrow> \<exists>b'. dispatch_all evs b = Some (Inr (b', es)) \<and> agree a' b'"
proof (induction evs arbitrary: a b es)
  case (Cons e evs)
  obtain li ev where e: "e = (li, ev)" by (cases e)
  obtain a1 es1 es2 where a1: "dispatch li ev a = Some (Inr (a1, es1))" "dispatch_all evs a1 = Some (Inr (a', es2))" "es = es1 @ es2"
    using Cons.prems(1) by (auto simp: e map_sum_Inr_iff split: option.splits sum.splits)
  from Cons.prems(2) obtain b1 where b1: "dispatch li ev b = Some (Inr (b1, es1))" "agree a1 b1"
    using a1(1) by (cases rule: dispatch_alikeE [where li = li and ev = ev]) auto
  from Cons.IH [OF a1(2) b1(2)] show ?case using b1(1) a1(3) by (auto simp: e)
qed simp

lemma events_ok_agree: "agree a b \<Longrightarrow> events_ok evs a = events_ok evs b"
proof (induction evs arbitrary: a b)
  case (Cons e evs)
  obtain li ev where e: "e = (li, ev)" by (cases e)
  have "event_ok a li ev = event_ok b li ev" unfolding event_ok_def agree_fields(2) [OF Cons.prems] by (rule refl)
  with Cons.prems show ?case using Cons.IH
    by (cases rule: dispatch_alikeE [where li = li and ev = ev]) (auto simp: e)
qed simp

subsection \<open>Runs\<close>

text \<open>The events of the rounds of a run, and the runs that no signal and no failure of \<open>kevent\<close> ends.\<close>

fun batch :: "(bool \<times> kevent_answer) list \<Rightarrow> (loop_io \<times> kevent) list" where
  "batch [] = []"
| "batch ((running, Kq_Events evs) # rounds) = evs @ batch rounds"
| "batch ((running, answer) # rounds) = batch rounds"

definition uninterrupted :: "(bool \<times> kevent_answer) list \<Rightarrow> bool" where
  "uninterrupted rounds \<longleftrightarrow> (\<forall>(running, answer) \<in> set rounds. running \<and> answer \<noteq> Kq_Error)"

lemma events_ok_append:
  "dispatch_all xs el = Some (Inr (el1, es)) \<Longrightarrow> events_ok (xs @ ys) el \<longleftrightarrow> events_ok xs el \<and> events_ok ys el1"
  by (rule batch_append(1))

text \<open>A run does what its events do one after the other, and conversely.\<close>

lemma run_batch:
  assumes "uninterrupted rounds" and "rounds_ok rounds a" and "run rounds a = Some (Inr (a', es, cs))" and "agree a b"
  shows "\<exists>b'. dispatch_all (batch rounds) b = Some (Inr (b', es)) \<and> events_ok (batch rounds) b \<and> agree a' b'"
  using assms
proof (induction rounds arbitrary: a b es cs)
  case (Cons r rounds)
  obtain answer where r: "r = (True, answer)" "answer \<noteq> Kq_Error" and un: "uninterrupted rounds"
    using Cons.prems(1) by (cases r) (auto simp: uninterrupted_def)
  let ?a = "a\<lparr>el_changelist := []\<rparr>"
  have ab: "agree ?a b" using agree_trans [OF agree_changelist(1) Cons.prems(4)] .
  show ?case
  proof (cases answer)
    case (Kq_Events evs)
    obtain a1 es1 es2 cs2 where d: "dispatch_all evs ?a = Some (Inr (a1, es1))" and rest: "run rounds a1 = Some (Inr (a', es2, cs2))" "es = es1 @ es2"
      using Cons.prems(3) by (auto simp: r Kq_Events Let_def map_sum_Inr_iff split: option.splits sum.splits)
    have ok: "events_ok evs ?a" "rounds_ok rounds a1" using Cons.prems(2) d by (simp_all add: r Kq_Events)
    obtain b1 where b1: "dispatch_all evs b = Some (Inr (b1, es1))" "agree a1 b1" using dispatch_all_agree [OF d ab] by blast
    obtain b' where b': "dispatch_all (batch rounds) b1 = Some (Inr (b', es2))" "events_ok (batch rounds) b1" "agree a' b'"
      using Cons.IH [OF un ok(2) rest(1) b1(2)] by blast
    have "dispatch_all (evs @ batch rounds) b = Some (Inr (b', es))" using b1(1) b'(1) rest(2) dispatch_all_append by blast
    moreover have "events_ok (evs @ batch rounds) b"
      using events_ok_append [OF b1(1)] b'(2) ok(1) events_ok_agree [OF ab] by simp
    ultimately show ?thesis using b'(3) by (simp add: r Kq_Events)
  next
    case Kq_EINTR
    then obtain cs2 where rest: "run rounds ?a = Some (Inr (a', es, cs2))" using Cons.prems(3) by (auto simp: r Let_def map_sum_Inr_iff)
    have "rounds_ok rounds ?a" using Cons.prems(2) Kq_EINTR by (simp add: r)
    from Cons.IH [OF un this rest ab] show ?thesis by (simp add: r Kq_EINTR)
  qed (use r in simp)
qed simp

lemma batch_run:
  assumes "uninterrupted rounds" and "dispatch_all (batch rounds) b = Some (Inr (b', es))" and "events_ok (batch rounds) b" and "agree a b"
  shows "\<exists>a' cs. run rounds a = Some (Inr (a', es, cs)) \<and> rounds_ok rounds a \<and> agree a' b'"
  using assms
proof (induction rounds arbitrary: a b es)
  case (Cons r rounds)
  obtain answer where r: "r = (True, answer)" "answer \<noteq> Kq_Error" and un: "uninterrupted rounds"
    using Cons.prems(1) by (cases r) (auto simp: uninterrupted_def)
  let ?a = "a\<lparr>el_changelist := []\<rparr>"
  have ab: "agree ?a b" using agree_trans [OF agree_changelist(1) Cons.prems(4)] .
  show ?case
  proof (cases answer)
    case (Kq_Events evs)
    obtain b1 es1 es2 where b1: "dispatch_all evs b = Some (Inr (b1, es1))" "dispatch_all (batch rounds) b1 = Some (Inr (b', es2))" "es = es1 @ es2"
      using Cons.prems(2) dispatch_all_append [of evs "batch rounds" b] by (auto simp: r Kq_Events)
    have ok: "events_ok evs ?a" "events_ok (batch rounds) b1"
      using Cons.prems(3) events_ok_append [OF b1(1)] events_ok_agree [OF ab] by (simp_all add: r Kq_Events)
    obtain a1 where a1: "dispatch_all evs ?a = Some (Inr (a1, es1))" "agree b1 a1" using dispatch_all_agree [OF b1(1) agree_sym [OF ab]] by blast
    obtain a' cs where a': "run rounds a1 = Some (Inr (a', es2, cs))" "rounds_ok rounds a1" "agree a' b'"
      using Cons.IH [OF un b1(2) ok(2) agree_sym [OF a1(2)]] by blast
    show ?thesis using a1(1) a' ok(1) b1(3) by (auto simp: r Kq_Events Let_def)
  next
    case Kq_EINTR
    then obtain a' cs where "run rounds ?a = Some (Inr (a', es, cs))" "rounds_ok rounds ?a" "agree a' b'"
      using Cons.IH [OF un _ _ ab] Cons.prems(2,3) by (auto simp: r)
    then show ?thesis by (auto simp: r Kq_EINTR Let_def)
  qed (use r in simp)
qed (simp add: agree_sym)

subsection \<open>The property\<close>



end
