(* ===== verification/Client_Reader.thy ===== *)
theory Client_Reader
  imports Response_Spec
begin

text \<open>
  The other end of the connection: an HTTP/1.1 client that reads one response off a stream of bytes and
  leaves the rest of the stream for the next.  It knows nothing of the server but the protocol, RFC 9112:
  the head ends with the first blank line, the body has the length \<open>Content-Length\<close> gives, and neither an answer to
  \<open>HEAD\<close> nor a 304 has one.
\<close>

subsection \<open>Reading a response\<close>

record message =
  msg_code :: nat
  msg_reason :: string
  msg_fields :: "(string \<times> string) list"
  msg_body :: string

function block_lines :: "string \<Rightarrow> string list" where
  "block_lines s = (case find_str CRLF s of None \<Rightarrow> [] | Some i \<Rightarrow> take i s # block_lines (drop (i + 2) s))"
  by pat_completeness auto
termination by (relation "measure length") (auto dest: find_str_SomeD)

declare block_lines.simps [simp del]

definition read_status :: "string \<Rightarrow> (nat \<times> string) option" where
  "read_status line =
     (let r = drop 9 line; ds = takeWhile is_digit r; t = drop (length ds) r
      in if take 9 line = ''HTTP/1.1 '' \<and> ds \<noteq> [] \<and> t \<noteq> [] \<and> hd t = CHR '' ''
         then Some (nat (decimal_val ds), tl t) else None)"

definition read_length :: "(string \<times> string) list \<Rightarrow> nat option" where
  "read_length fs =
     (case map_of fs ''content-length'' of
        None \<Rightarrow> None
      | Some v \<Rightarrow> if v \<noteq> [] \<and> list_all is_digit v then Some (nat (decimal_val v)) else None)"

text \<open>
  A response that has a body and does not say how long it is, or of which bytes are missing, is not read.
  \<open>no_body\<close> is whether the request was a \<open>HEAD\<close>.
\<close>

definition read_message :: "bool \<Rightarrow> string \<Rightarrow> (message \<times> string) option" where
  "read_message no_body s =
     (case find_str CRLFCRLF s of
        None \<Rightarrow> None
      | Some i \<Rightarrow>
          (case block_lines (take (i + 2) s) of
             [] \<Rightarrow> None
           | l # ls \<Rightarrow>
               (case read_status l of
                  None \<Rightarrow> None
                | Some (code, why) \<Rightarrow>
                    let fs = List.map_filter parse_header_line ls; rest = drop (i + 4) s
                    in if no_body \<or> code = 304 then Some (\<lparr>msg_code = code, msg_reason = why, msg_fields = fs, msg_body = []\<rparr>, rest)
                       else case read_length fs of
                         None \<Rightarrow> None
                       | Some n \<Rightarrow> if length rest < n then None
                           else Some (\<lparr>msg_code = code, msg_reason = why, msg_fields = fs, msg_body = take n rest\<rparr>, drop n rest))))"

text \<open>What a client should read when it is given an answer.\<close>

definition message_of :: "(int \<Rightarrow> string) \<Rightarrow> int \<Rightarrow> http_request \<Rightarrow> answer \<Rightarrow> message" where
  "message_of content now req a =
     \<lparr>msg_code = unat (status_code (answer_status a)), msg_reason = reason (answer_status a),
      msg_fields = map stored_header (answer_fields content now (is_keep_alive req) a),
      msg_body = (if rq_method req = HEAD then [] else answer_body content a)\<rparr>"

subsection \<open>Reading back what is written\<close>

lemma block_lines_block: "\<forall>l \<in> set ls. CR \<notin> set l \<Longrightarrow> block_lines (lines_block ls) = ls"
proof (induction ls)
  case Nil
  show ?case by (subst block_lines.simps) (simp add: lines_block_def)
next
  case (Cons l ls)
  then have "find_str CRLF (l @ CR # LF # lines_block ls) = Some (length l)" by (simp add: find_crlf_append)
  with Cons show ?case by (subst block_lines.simps) (simp add: lines_block_def)
qed

lemma read_status_line: "read_status (''HTTP/1.1 '' @ string_of_nat n @ '' '' @ why) = Some (n, why)"
proof -
  have d: "\<not> is_digit CHR '' ''" by (simp add: is_digit_def)
  have "takeWhile is_digit (string_of_nat n @ CHR '' '' # why) = string_of_nat n"
    using string_of_nat_digits [of n] d by (simp add: list_all_iff takeWhile_append2)
  then show ?thesis by (simp add: read_status_def Let_def)
qed

lemma status_line_no_CR: "''HTTP/1.1 '' @ string_of_nat (unat (status_code st)) @ '' '' @ reason st \<noteq> []
    \<and> CR \<notin> set (''HTTP/1.1 '' @ string_of_nat (unat (status_code st)) @ '' '' @ reason st)"
  by (cases st) auto

lemma read_head:
  fixes st :: status
  assumes "\<forall>h \<in> set fs. plain_header h"
  defines "head \<equiv> lines_block ((''HTTP/1.1 '' @ string_of_nat (unat (status_code st)) @ '' '' @ reason st) # map render_header fs)"
  shows "find_str CRLFCRLF (head @ CRLF @ rest) = Some (length head - 2)" and "2 \<le> length head"
    and "block_lines head = (''HTTP/1.1 '' @ string_of_nat (unat (status_code st)) @ '' '' @ reason st) # map render_header fs"
proof -
  let ?ls = "(''HTTP/1.1 '' @ string_of_nat (unat (status_code st)) @ '' '' @ reason st) # map render_header fs"
  have ls: "\<forall>l \<in> set ?ls. l \<noteq> [] \<and> CR \<notin> set l"
    using status_line_no_CR [of st] render_header_ok assms(1) unfolding list.set ball_simps by auto
  have "find_str CRLFCRLF (lines_block ?ls @ CR # LF # rest) = Some (length (lines_block (butlast ?ls)) + length (last ?ls))"
    by (rule find_crlfcrlf_block [OF _ ls]) simp
  moreover have "length (lines_block (butlast ?ls)) + length (last ?ls) = length (lines_block ?ls) - 2"
    by (rule length_lines_block_last) simp
  ultimately show "find_str CRLFCRLF (head @ CRLF @ rest) = Some (length head - 2)" unfolding head_def by simp
  show "2 \<le> length head" by (simp add: head_def lines_block_def)
  show "block_lines head = ?ls" unfolding head_def by (rule block_lines_block) (use ls in blast)
qed

text \<open>A message is read off the stream as far as its length says.\<close>

lemma read_message_wire:
  assumes "\<forall>h \<in> set fs. plain_header h"
    and "no_body \<or> unat (status_code st) = 304 \<Longrightarrow> body = []"
    and "\<not> (no_body \<or> unat (status_code st) = 304) \<Longrightarrow> read_length (map stored_header fs) = Some (length body)"
  shows "read_message no_body
      (lines_block ((''HTTP/1.1 '' @ string_of_nat (unat (status_code st)) @ '' '' @ reason st) # map render_header fs) @ CRLF @ body @ rest)
    = Some (\<lparr>msg_code = unat (status_code st), msg_reason = reason st, msg_fields = map stored_header fs, msg_body = body\<rparr>, rest)"
proof -
  define head where "head = lines_block ((''HTTP/1.1 '' @ string_of_nat (unat (status_code st)) @ '' '' @ reason st) # map render_header fs)"
  note h = read_head [OF assms(1), of st, folded head_def]
  have "length head - 2 + 2 = length head" "length head - 2 + 4 = length head + 2" using h(2) by linarith+
  then have drop: "take (length head - 2 + 2) (head @ CRLF @ body @ rest) = head"
    "drop (length head - 2 + 4) (head @ CRLF @ body @ rest) = body @ rest" by (simp_all only:) (simp_all add: numeral_2_eq_2)
  show ?thesis unfolding head_def [symmetric] read_message_def h(1) option.case drop h(3) list.case read_status_line prod.case Let_def map_filter_render [OF assms(1)]
    using assms(2,3) by auto
qed

subsection \<open>The fields of an answer are plain\<close>

lemma detect_mime_type_plain: "plain_header (''Content-Type'', detect_mime_type path)"
proof -
  have "\<forall>(ext, m) \<in> set MIME_TABLE. plain_header (''Content-Type'', m)" by (simp add: MIME_TABLE_def plain_header_def)
  moreover have "mime_search MIME_TABLE ext = Some m \<Longrightarrow> m \<in> snd ` set MIME_TABLE" for ext m
    using lower_bound_range [of 0 mime_less MIME_TABLE ext "length MIME_TABLE"]
    by (auto simp: mime_search_def Let_def intro!: imageI nth_mem split: if_splits)
  moreover have "plain_header (''Content-Type'', FALLBACK_MIME)" by (simp add: FALLBACK_MIME_def plain_header_def)
  ultimately show ?thesis by (auto simp: detect_mime_type_def split: option.split) fastforce
qed

lemma open_file_mime_plain: "open_file fs root p = Inr info \<Longrightarrow> plain_header (''Content-Type'', fi_mime_type info)"
  by (auto simp: open_file_def Let_def detect_mime_type_plain split: if_splits option.splits sum.splits prod.splits)

lemma answer_content_type: "answer_to si root req = Inr (Content info rng) \<Longrightarrow> plain_header (''Content-Type'', fi_mime_type info)"
  by (auto simp: answer_to_def open_file_mime_plain map_sum_Inr_iff split: if_splits sum.splits file_error.splits)

lemma content_range_plain: "CR \<notin> set (content_range a b n) \<and> hd (content_range a b n) = CHR ''b''"
  by (auto simp: content_range_def string_of_int_def)

lemma answer_fields_plain:
  assumes "answer_to si root req = Inr a"
  shows "\<forall>h \<in> set (answer_fields content now keep a). plain_header h"
proof (cases a)
  case (Content info rng)
  then have "plain_header (''Content-Type'', fi_mime_type info)" using answer_content_type assms by blast
  then show ?thesis using string_of_nat_hd content_range_plain Content
    by (auto simp: format_time_plain split: option.split) (auto simp: plain_header_def)
qed (use string_of_nat_hd in \<open>auto simp: format_time_plain\<close>, auto simp: plain_header_def)

lemma status_304 [simp]: "unat (status_code st) = 304 \<longleftrightarrow> st = NOT_MODIFIED"
  by (cases st) simp_all

lemma length_field_read: "list_all is_digit (string_of_nat n)" "nat (decimal_val (string_of_nat n)) = n"
  by (simp_all add: string_of_nat_digits)

lemma answer_length_read:
  assumes "\<And>info. a \<noteq> Unchanged info"
  shows "read_length (map stored_header (answer_fields content now keep a)) = Some (length (answer_body content a))"
  using assms by (cases a) (auto simp: read_length_def stored_header_def tolower_def char_eval length_field_read)

lemma read_answer:
  assumes "answer_to si root req = Inr a"
  shows "read_message (rq_method req = HEAD) (answer_wire content t req a @ rest) = Some (message_of content t req a, rest)"
proof -
  let ?fs = "answer_fields content t (is_keep_alive req) a" and ?body = "if rq_method req = HEAD then [] else answer_body content a"
  have st: "unat (status_code (answer_status a)) = 304 \<longleftrightarrow> (\<exists>info. a = Unchanged info)"
  proof (cases a)
    case (Page s b)
    then show ?thesis using answer_given [OF assms] by (simp add: given_def)
  next
    case (Content info rng)
    then show ?thesis by (cases rng) simp_all
  qed simp
  have "read_message (rq_method req = HEAD)
      (lines_block ((''HTTP/1.1 '' @ string_of_nat (unat (status_code (answer_status a))) @ '' '' @ reason (answer_status a)) # map render_header ?fs)
        @ CRLF @ ?body @ rest)
    = Some (\<lparr>msg_code = unat (status_code (answer_status a)), msg_reason = reason (answer_status a), msg_fields = map stored_header ?fs,
        msg_body = ?body\<rparr>, rest)"
  proof (rule read_message_wire [OF answer_fields_plain [OF assms]])
    show "?body = []" if "rq_method req = HEAD \<or> unat (status_code (answer_status a)) = 304" using that st by auto
    show "read_length (map stored_header ?fs) = Some (length ?body)" if "\<not> (rq_method req = HEAD \<or> unat (status_code (answer_status a)) = 304)"
    proof -
      have "a \<noteq> Unchanged info" for info using that unfolding st by blast
      then show ?thesis using that answer_length_read by simp
    qed
  qed
  then show ?thesis by (simp add: answer_wire_def answer_head_def message_of_def)
qed

text \<open>A stream of answers is read one after the other.\<close>

fun read_messages :: "bool list \<Rightarrow> string \<Rightarrow> (message list \<times> string) option" where
  "read_messages [] s = Some ([], s)"
| "read_messages (b # bs) s =
     (case read_message b s of
        None \<Rightarrow> None
      | Some (m, rest) \<Rightarrow> (case read_messages bs rest of None \<Rightarrow> None | Some (ms, rest') \<Rightarrow> Some (m # ms, rest')))"

definition due :: "http_request \<Rightarrow> answer \<Rightarrow> bool" where
  "due req a \<longleftrightarrow> (\<exists>si root. answer_to si root req = Inr a)"

lemma read_answers:
  "\<forall>(t, req, a) \<in> set xs. due req a \<Longrightarrow>
   read_messages (map (\<lambda>(t, req, a). rq_method req = HEAD) xs) (concat (map (\<lambda>(t, req, a). answer_wire content t req a) xs) @ rest)
     = Some (map (\<lambda>(t, req, a). message_of content t req a) xs, rest)"
proof (induction xs)
  case (Cons x xs)
  obtain t req a where x: "x = (t, req, a)" by (cases x)
  then obtain si root where "answer_to si root req = Inr a" using Cons.prems by (auto simp: due_def)
  with Cons show ?case by (simp add: x read_answer)
qed simp

subsection \<open>The property\<close>

text \<open>
  C8: a client reads the answer back.  Whatever the request, what the program leaves to be sent on the connection is
  one well-formed response: a client that knows only the protocol finds the end of its head at the
  first blank line, reads the status and every field, takes exactly the body of the answer, the page or the
  interval of the file, by its \<open>Content-Length\<close>, and leaves whatever follows on the stream untouched.
\<close>

theorem client_reads_response:
  assumes "blank c" and "prepare_response si root c = Inr (c', es)"
    and "answer_to si root (cn_request c) = Inr a" and "well_sized content a"
  shows "read_message (rq_method (cn_request c) = HEAD) (pending_response content c' @ rest)
    = Some (message_of content (io_time (si_io si)) (cn_request c) a, rest)"
proof -
  have "c' = fst (realise si c a)" using assms(2,3) by (auto simp: prepare_response_answer)
  then show ?thesis using realise_wire [OF assms(1) answer_given [OF assms(3)] assms(4)] read_answer [OF assms(3)] by simp
qed

lemma client_reads_response_witness:
  "\<exists>c' es m. prepare_response example_si ''/srv'' (example_request [(''range'', render_range (Interval 1 3))]) = Inr (c', es)
    \<and> read_message False (pending_response (\<lambda>_. ''hello'') c' @ ''next'') = Some (m, ''next'')
    \<and> msg_code m = 206 \<and> msg_body m = ''ell'' \<and> read_length (msg_fields m) = Some 3"
proof -
  let ?c = "example_request [(''range'', render_range (Interval 1 3))]" and ?a = "Content example_info (Some (1, 3))"
  obtain c' es where p: "prepare_response example_si ''/srv'' ?c = Inr (c', es)"
    unfolding prepare_response_answer example_range_answer map_sum.simps using surj_pair [of "realise example_si ?c ?a"] by metis
  have head: "rq_method (cn_request ?c) \<noteq> HEAD" by (simp add: example_request_def)
  have "well_sized (\<lambda>_. ''hello'') ?a" by (simp add: example_info_def off_max_def)
  note r = client_reads_response [OF example_blank p example_range_answer this, of "''next''"]
  let ?m = "message_of (\<lambda>_. ''hello'') (io_time (si_io example_si)) (cn_request ?c) ?a"
  have body: "answer_body (\<lambda>_. ''hello'') ?a = ''ell''" by (simp add: numeral_eq_Suc)
  have "msg_code ?m = 206" "msg_body ?m = ''ell''" using head body by (simp_all add: message_of_def)
  moreover have "read_length (msg_fields ?m) = Some 3"
    using answer_length_read [of ?a "\<lambda>_. ''hello''"] unfolding message_of_def message.simps body by simp
  moreover have "read_message False (pending_response (\<lambda>_. ''hello'') c' @ ''next'') = Some (?m, ''next'')" using r head by simp
  ultimately show ?thesis using p by blast
qed

end
