(* ===== verification/Loop_Sessions.thy ===== *)
theory Loop_Sessions
  imports Loop_Rounds Client_Reader
begin

text \<open>
  A whole session of a client: one request after the other on a connection that is kept, each answered before the next is
  sent.  The bytes the program sends are the answers in the order of the requests, and a client that reads the
  stream gets them back one by one.
\<close>

subsection \<open>Exchanges\<close>

text \<open>A request, the answer it is due, the events it arrives with and those that come until the next request.\<close>

record exchange =
  ex_method :: string
  ex_path :: string
  ex_version :: string
  ex_headers :: "(string \<times> string) list"
  ex_answer :: answer
  ex_arrival :: "(loop_io \<times> kevent) list"
  ex_service :: "(loop_io \<times> kevent) list"

definition ex_input :: "exchange \<Rightarrow> string" where
  "ex_input x = render_request (ex_method x) (ex_path x) (ex_version x) (ex_headers x)"

definition ex_request :: "exchange \<Rightarrow> http_request" where
  "ex_request x = parsed (ex_method x) (ex_path x) (ex_version x) (ex_headers x)"

abbreviation ex_events :: "exchange \<Rightarrow> (loop_io \<times> kevent) list" where
  "ex_events x \<equiv> ex_arrival x @ ex_service x"

definition well_formed :: "exchange \<Rightarrow> bool" where
  "well_formed x \<longleftrightarrow> (ex_method x = ''GET'' \<or> ex_method x = ''HEAD'') \<and> plain_token (ex_path x) \<and> CR \<notin> set (ex_version x)
     \<and> (\<forall>h \<in> set (ex_headers x). plain_header h) \<and> ex_headers x \<noteq> []"

text \<open>
  The events of the connection report no error and their calls work; once the request has arrived nothing more is sent
  by the client, every event takes some of the answer, and there are enough of them.
\<close>

definition served_in_full :: "(int \<Rightarrow> string) \<Rightarrow> nat option \<Rightarrow> int \<Rightarrow> string \<Rightarrow> nat \<Rightarrow> exchange \<Rightarrow> bool" where
  "served_in_full content ssl fd root i x \<longleftrightarrow> well_sized content (ex_answer x) \<and> pieces ssl fd (own_ios i (ex_service x)) []
     \<and> (\<forall>e \<in> set (ex_events x). ke_udata (snd e) = Conn i \<longrightarrow> favourable content ssl root (ex_request x) (ex_answer x) e)
     \<and> (\<forall>e \<in> set (ex_service x). ke_udata (snd e) = Conn i \<longrightarrow> makes_progress content (li_io (fst e)))
     \<and> (\<forall>t. length (answer_wire content t (ex_request x) (ex_answer x)) < length (own_ios i (ex_service x)))"

lemma exchange_request: "rq_method (ex_request x) = method_of (ex_method x)"
  by (simp add: ex_request_def)

lemma exchange_due:
  assumes "served_in_full content ssl fd root i x"
  shows "due (ex_request x) (ex_answer x)"
proof -
  have "own_ios i (ex_service x) \<noteq> []" using assms by (auto simp: served_in_full_def)
  then obtain e where "e \<in> set (ex_service x)" "ke_udata (snd e) = Conn i" by (auto simp: own_ios_def filter_empty_conv)
  then have "favourable content ssl root (ex_request x) (ex_answer x) e" using assms by (auto simp: served_in_full_def)
  then show ?thesis by (auto simp: favourable_def due_def)
qed

lemma exchange_served:
  assumes "reachable el" and "i < MAX_CONNECTIONS" and "well_formed x" and "length (ex_input x) \<le> 65536"
    and "served_in_full content ssl fd (el_root_dir el) i x"
    and "in_service content (ex_input x) (ex_request x) (ex_answer x) ssl fd (own_ios i (ex_arrival x)) [] (conn_at i el)"
    and "events_ok (ex_events x) el" and "unexpired i (ex_events x) el" and "dispatch_all (ex_events x) el = Some (Inr (el', es))"
  shows "\<exists>t. cn_state (conn_at i el') = KEEP_ALIVE \<and> cn_ssl (conn_at i el') = ssl \<and> cn_fd (conn_at i el') = fd
    \<and> sent_bytes content (effects_on i (ex_events x) el) = answer_wire content t (ex_request x) (ex_answer x)"
proof -
  have c: "complete_request (ex_input x) (ex_request x)"
    using assms(3,4) unfolding ex_input_def ex_request_def well_formed_def by (intro complete_request_wire) auto
  have s: "well_sized content (ex_answer x)" "pieces ssl fd (own_ios i (ex_service x)) []"
    "\<forall>e \<in> set (ex_events x). ke_udata (snd e) = Conn i \<longrightarrow> favourable content ssl (el_root_dir el) (ex_request x) (ex_answer x) e"
    "\<forall>e \<in> set (ex_service x). ke_udata (snd e) = Conn i \<longrightarrow> makes_progress content (li_io (fst e))"
    "\<forall>t. length (answer_wire content t (ex_request x) (ex_answer x)) < length (own_ios i (ex_service x))"
    using assms(5) unfolding served_in_full_def by blast+
  show ?thesis by (rule exchange_completed [OF assms(1,2) c s(1) assms(6) s(2) assms(7-9) s(3-5)])
qed

text \<open>The session, from a first request that is in service.\<close>

lemma session_served:
  assumes "i < MAX_CONNECTIONS" and "reachable el"
    and "in_service content (ex_input x) (ex_request x) (ex_answer x) ssl fd (own_ios i (ex_arrival x)) [] (conn_at i el)"
    and "length (ex_input x) \<le> 65536" and "\<forall>y \<in> set (x # xs). well_formed y \<and> served_in_full content ssl fd (el_root_dir el) i y"
    and "\<forall>y \<in> set xs. arrives_whole ssl fd (own_ios i (ex_arrival y)) (ex_input y) \<and> length (ex_input y) \<le> 4096"
    and "events_ok (concat (map ex_events (x # xs))) el" and "unexpired i (concat (map ex_events (x # xs))) el"
    and "dispatch_all (concat (map ex_events (x # xs))) el = Some (Inr (el', es))"
  shows "\<exists>ts. length ts = Suc (length xs) \<and> cn_state (conn_at i el') = KEEP_ALIVE
    \<and> sent_bytes content (effects_on i (concat (map ex_events (x # xs))) el)
      = concat (map (\<lambda>(t, y). answer_wire content t (ex_request y) (ex_answer y)) (zip ts (x # xs)))"
  using assms(2-)
proof (induction xs arbitrary: x el es)
  case Nil
  then obtain t where "cn_state (conn_at i el') = KEEP_ALIVE"
    "sent_bytes content (effects_on i (ex_events x) el) = answer_wire content t (ex_request x) (ex_answer x)"
    using exchange_served [OF Nil.prems(1) assms(1) _ Nil.prems(3) _ Nil.prems(2)] by auto
  then show ?case by (intro exI [of _ "[t]"]) simp
next
  case (Cons y ys)
  let ?rest = "concat (map ex_events (y # ys))"
  obtain el1 es1 es2 where d: "dispatch_all (ex_events x) el = Some (Inr (el1, es1))" and rest: "dispatch_all ?rest el1 = Some (Inr (el', es2))"
    using Cons.prems(8) dispatch_all_append [of "ex_events x" ?rest] by auto
  note app = batch_append(1) [OF d, of ?rest] batch_append(2) [OF d, of i ?rest] batch_append(3) [OF d, of i ?rest]
  have ok: "events_ok (ex_events x) el" "events_ok ?rest el1" "unexpired i (ex_events x) el" "unexpired i ?rest el1"
    using Cons.prems(6,7) app(1,2) by simp_all
  have x: "well_formed x" "served_in_full content ssl fd (el_root_dir el) i x" using Cons.prems(4) by simp_all
  obtain t where t: "cn_state (conn_at i el1) = KEEP_ALIVE" "cn_ssl (conn_at i el1) = ssl" "cn_fd (conn_at i el1) = fd"
    "sent_bytes content (effects_on i (ex_events x) el) = answer_wire content t (ex_request x) (ex_answer x)"
    using exchange_served [OF Cons.prems(1) assms(1) x(1) Cons.prems(3) x(2) Cons.prems(2) ok(1,3) d] by blast
  have reach: "reachable el1" by (rule dispatch_all_reaches [OF Cons.prems(1) ok(1) d])
  have next_in: "in_service content (ex_input y) (ex_request y) (ex_answer y) ssl fd (own_ios i (ex_arrival y)) [] (conn_at i el1)"
    using t(1-3) Cons.prems(5) by (simp add: in_service_def)
  have n: "length (ex_input y) \<le> 65536" using Cons.prems(5) by simp
  have all: "\<forall>z \<in> set (y # ys). well_formed z \<and> served_in_full content ssl fd (el_root_dir el1) i z"
    using Cons.prems(4) dispatch_all_root [OF d] by simp
  have whole: "\<forall>z \<in> set ys. arrives_whole ssl fd (own_ios i (ex_arrival z)) (ex_input z) \<and> length (ex_input z) \<le> 4096"
    using Cons.prems(5) by simp
  obtain ts where ts: "length ts = Suc (length ys)" "cn_state (conn_at i el') = KEEP_ALIVE"
    "sent_bytes content (effects_on i ?rest el1) = concat (map (\<lambda>(t, y). answer_wire content t (ex_request y) (ex_answer y)) (zip ts (y # ys)))"
    using Cons.IH [OF reach next_in n all whole ok(2,4) rest] by blast
  have "effects_on i (concat (map ex_events (x # y # ys))) el = effects_on i (ex_events x) el @ effects_on i ?rest el1"
    using app(3) by simp
  then have "sent_bytes content (effects_on i (concat (map ex_events (x # y # ys))) el)
      = concat (map (\<lambda>(t, y). answer_wire content t (ex_request y) (ex_answer y)) (zip (t # ts) (x # y # ys)))"
    using t(4) ts(3) by simp
  then show ?case using ts(1,2) by (intro exI [of _ "t # ts"]) simp
qed

text \<open>Every exchange is due its answer, so the stream reads back.\<close>

lemma read_exchanges:
  assumes "\<forall>y \<in> set xs. due (ex_request y) (ex_answer y)" and "length ts = length xs"
  shows "read_messages (map (\<lambda>y. ex_method y = ''HEAD'') xs)
      (concat (map (\<lambda>(t, y). answer_wire content t (ex_request y) (ex_answer y)) (zip ts xs)))
    = Some (map (\<lambda>(t, y). message_of content t (ex_request y) (ex_answer y)) (zip ts xs), [])"
proof -
  have head: "rq_method (ex_request y) = HEAD \<longleftrightarrow> ex_method y = ''HEAD''" for y
    by (simp add: exchange_request method_of_def)
  let ?qs = "map (\<lambda>(t, y). (t, ex_request y, ex_answer y)) (zip ts xs)"
  have "\<forall>(t, req, a) \<in> set ?qs. due req a" using assms(1) by (auto dest: set_zip_rightD)
  from read_answers [OF this, of content "[]"]
  have "read_messages (map (\<lambda>(t, y). ex_method y = ''HEAD'') (zip ts xs))
      (concat (map (\<lambda>(t, y). answer_wire content t (ex_request y) (ex_answer y)) (zip ts xs)))
    = Some (map (\<lambda>(t, y). message_of content t (ex_request y) (ex_answer y)) (zip ts xs), [])"
    by (simp add: comp_def split_def head)
  moreover have "map (\<lambda>(t, y). ex_method y = ''HEAD'') (zip ts xs) = map (\<lambda>y. ex_method y = ''HEAD'') xs"
    using assms(2) map_snd_zip [of ts xs] by (metis (no_types, lifting) case_prod_beta' map_map comp_def map_cong)
  ultimately show ?thesis by simp
qed

subsection \<open>The properties\<close>


text \<open>An example: the same file twice.\<close>

definition example_exchange :: "nat \<Rightarrow> io list \<Rightarrow> exchange" where
  "example_exchange i ios =
     \<lparr>ex_method = ''GET'', ex_path = ''/a.txt'', ex_version = ''HTTP/1.1'', ex_headers = [(''Host'', ''x'')],
      ex_answer = Content example_info None,
      ex_arrival = map (\<lambda>io. (example_io io [], example_event (Conn i))) ios,
      ex_service = replicate (Suc (length (answer_wire (\<lambda>_. ''hello'') 0 example_parsed (Content example_info None)) + 63))
        (example_io io_sending [], example_event (Conn i))\<rparr>"

lemma example_exchange_simps:
  "ex_input (example_exchange i ios) = example_input" "ex_request (example_exchange i ios) = example_parsed"
  "ex_answer (example_exchange i ios) = Content example_info None" "own_ios i (ex_arrival (example_exchange i ios)) = ios"
  "well_formed (example_exchange i ios)"
proof -
  show "own_ios i (ex_arrival (example_exchange i ios)) = ios"
    by (induction ios) (simp_all add: example_exchange_def example_event_def example_io_def)
qed (use example_plain in \<open>simp_all add: example_exchange_def ex_input_def ex_request_def example_input_def well_formed_def\<close>)

lemma example_exchange_served:
  assumes "\<forall>io \<in> set ios. cooperative (\<lambda>_. ''hello'') ssl io"
  shows "served_in_full (\<lambda>_. ''hello'') ssl 5 ''/srv'' i (example_exchange i ios)"
    and "\<forall>e \<in> set (ex_events (example_exchange i ios)). ke_udata (snd e) = Conn i
      \<and> favourable (\<lambda>_. ''hello'') ssl ''/srv'' example_parsed (Content example_info None) e"
proof -
  have own: "own_ios i (replicate k (example_io io [], example_event (Conn i))) = replicate k io" for k io
    by (induction k) (simp_all add: example_event_def example_io_def)
  show fav: "\<forall>e \<in> set (ex_events (example_exchange i ios)). ke_udata (snd e) = Conn i
      \<and> favourable (\<lambda>_. ''hello'') ssl ''/srv'' example_parsed (Content example_info None) e"
    using assms io_sending_ok(1) example_answer
    by (auto simp: favourable_def example_exchange_def example_event_def) (simp_all add: example_io_def)
  have "well_sized (\<lambda>_. ''hello'') (Content example_info None)" by (simp add: example_info_def off_max_def)
  moreover have "\<forall>e \<in> set (ex_service (example_exchange i ios)). makes_progress (\<lambda>_. ''hello'') (li_io (fst e))"
    using io_sending_ok(2) by (auto simp: example_exchange_def example_io_def)
  moreover have "length (answer_wire (\<lambda>_. ''hello'') t example_parsed (Content example_info None)) < length (own_ios i (ex_service (example_exchange i ios)))" for t
    unfolding example_exchange_def exchange.simps own length_replicate by (rule le_imp_less_Suc [OF answer_wire_length])
  moreover have "pieces ssl 5 (own_ios i (ex_service (example_exchange i ios))) []"
    unfolding example_exchange_def exchange.simps own by (rule io_sending_pieces)
  ultimately show "served_in_full (\<lambda>_. ''hello'') ssl 5 ''/srv'' i (example_exchange i ios)"
    using fav by (simp add: served_in_full_def example_exchange_simps)
qed

lemma example_exchange_returns:
  assumes "reachable el" and "i < MAX_CONNECTIONS" and "el_root_dir el = ''/srv''" and "\<forall>io \<in> set ios. cooperative (\<lambda>_. ''hello'') ssl io"
    and "in_service (\<lambda>_. ''hello'') example_input example_parsed (Content example_info None) ssl 5 ios [] (conn_at i el)"
  shows "\<exists>el' es. dispatch_all (ex_events (example_exchange i ios)) el = Some (Inr (el', es)) \<and> events_ok (ex_events (example_exchange i ios)) el
    \<and> unexpired i (ex_events (example_exchange i ios)) el \<and> reachable el' \<and> el_root_dir el' = ''/srv''
    \<and> cn_state (conn_at i el') = KEEP_ALIVE \<and> cn_ssl (conn_at i el') = ssl \<and> cn_fd (conn_at i el') = 5"
proof -
  let ?x = "example_exchange i ios"
  note served = example_exchange_served [OF assms(4), of i]
  have "pieces ssl 5 (own_ios i (ex_service ?x)) []" using served(1) by (simp add: served_in_full_def)
  from in_service_append [OF assms(5) this]
  have start: "in_service (\<lambda>_. ''hello'') example_input example_parsed (Content example_info None) ssl 5 (own_ios i (ex_events ?x)) [] (conn_at i el)"
    by (simp add: own_ios_append example_exchange_simps)
  have size: "well_sized (\<lambda>_. ''hello'') (Content example_info None)" by (simp add: example_info_def off_max_def)
  obtain el' es where d: "dispatch_all (ex_events ?x) el = Some (Inr (el', es))" "events_ok (ex_events ?x) el" "unexpired i (ex_events ?x) el"
    using service_returns [OF assms(1,2) example_complete size start served(2) [folded assms(3)]] by blast
  have n: "length (ex_input ?x) \<le> 65536" using example_input_length(1) by (simp add: example_exchange_simps)
  have s: "in_service (\<lambda>_. ''hello'') (ex_input ?x) (ex_request ?x) (ex_answer ?x) ssl 5 (own_ios i (ex_arrival ?x)) [] (conn_at i el)"
    using assms(5) by (simp add: example_exchange_simps)
  from exchange_served [OF assms(1,2) example_exchange_simps(5) n served(1) [folded assms(3)] s d(2,3,1)]
    d dispatch_all_reaches [OF assms(1) d(2,1)] dispatch_all_root [OF d(1)] assms(3)
  show ?thesis by auto
qed

text \<open>Two such exchanges return, and a client that reads their stream reads the answer twice.\<close>

lemma example_session_returns:
  assumes "reachable el" and "i < MAX_CONNECTIONS" and "el_root_dir el = ''/srv''"
    and "\<forall>io \<in> set (ios1 @ ios2). cooperative (\<lambda>_. ''hello'') ssl io"
    and "in_service (\<lambda>_. ''hello'') example_input example_parsed (Content example_info None) ssl 5 ios1 [] (conn_at i el)"
    and "arrives_whole ssl 5 ios2 example_input"
  defines "evs \<equiv> concat (map ex_events [example_exchange i ios1, example_exchange i ios2])"
  shows "\<exists>el' es. dispatch_all evs el = Some (Inr (el', es)) \<and> events_ok evs el \<and> unexpired i evs el"
proof -
  let ?x = "example_exchange i ios1" and ?y = "example_exchange i ios2"
  have coop: "\<forall>io \<in> set ios1. cooperative (\<lambda>_. ''hello'') ssl io" "\<forall>io \<in> set ios2. cooperative (\<lambda>_. ''hello'') ssl io"
    using assms(4) by simp_all
  obtain el1 es1 where d1: "dispatch_all (ex_events ?x) el = Some (Inr (el1, es1))" "events_ok (ex_events ?x) el" "unexpired i (ex_events ?x) el"
    and r1: "reachable el1" "el_root_dir el1 = ''/srv''" "cn_state (conn_at i el1) = KEEP_ALIVE" "cn_ssl (conn_at i el1) = ssl" "cn_fd (conn_at i el1) = 5"
    using example_exchange_returns [OF assms(1-3) coop(1) assms(5)] by blast
  have "in_service (\<lambda>_. ''hello'') example_input example_parsed (Content example_info None) ssl 5 ios2 [] (conn_at i el1)"
    using r1(3-5) assms(6) by (simp add: in_service_def)
  from example_exchange_returns [OF r1(1) assms(2) r1(2) coop(2) this]
  obtain el' es2 where d2: "dispatch_all (ex_events ?y) el1 = Some (Inr (el', es2))" "events_ok (ex_events ?y) el1" "unexpired i (ex_events ?y) el1"
    by blast
  have "evs = ex_events ?x @ ex_events ?y" by (simp add: evs_def)
  then show ?thesis using d1 d2 batch_append(1,2) [OF d1(1)] dispatch_all_append by blast
qed

lemma example_session_fine:
  assumes "\<forall>io \<in> set (ios1 @ ios2). cooperative (\<lambda>_. ''hello'') ssl io"
  shows "\<forall>y \<in> set [example_exchange i ios1, example_exchange i ios2]. well_formed y \<and> served_in_full (\<lambda>_. ''hello'') ssl 5 ''/srv'' i y"
  using example_exchange_served(1) [of ios1 ssl i] example_exchange_served(1) [of ios2 ssl i] assms
  by (simp add: example_exchange_simps(5))

lemma example_session_later:
  assumes "arrives_whole ssl 5 ios example_input"
  shows "\<forall>y \<in> set [example_exchange i ios]. arrives_whole ssl 5 (own_ios i (ex_arrival y)) (ex_input y) \<and> length (ex_input y) \<le> 4096"
  using assms example_input_length(1) by (simp add: example_exchange_simps)

lemma example_session_read:
  assumes "length ts = Suc (length [example_exchange i ios2])"
    and "read_messages (map (\<lambda>y. ex_method y = ''HEAD'') [example_exchange i ios1, example_exchange i ios2]) s
      = Some (map (\<lambda>(t, y). message_of content t (ex_request y) (ex_answer y)) (zip ts [example_exchange i ios1, example_exchange i ios2]), [])"
  shows "length ts = 2"
    and "read_messages [False, False] s = Some (map (\<lambda>t. message_of content t example_parsed (Content example_info None)) ts, [])"
proof -
  obtain t u where u: "ts = [t, u]" using assms(1) by (auto simp: length_Suc_conv)
  have "ex_method (example_exchange i ios) = ''GET''" for ios by (simp add: example_exchange_def)
  then show "read_messages [False, False] s = Some (map (\<lambda>t. message_of content t example_parsed (Content example_info None)) ts, [])"
    using assms(2) unfolding u by (simp add: example_exchange_simps del: read_messages.simps)
  show "length ts = 2" by (simp add: u)
qed


end
