(* ===== verification/Loop_Tls.thy ===== *)
theory Loop_Tls
  imports Loop_Sessions
begin

text \<open>
  The first message of a TLS client.  One byte is looked at, the SSL object is made and handed to the connection, and the
  handshake is begun, all in one event; from there on the session is like any other, on the SSL object.
\<close>

subsection \<open>The ClientHello\<close>

lemma client_hello_served:
  assumes "cn_state c = PROTO_DETECT" and "cn_read_buf c = []" and "cn_ssl c = None" and "conn_inv c"
    and "io_recv_peek (li_io li) (cn_fd c) = Sys_OK [CHR 0x16]" and "new_ssl (li_ssl_new li) ctx = Some s"
    and "arrives (Some s) (cn_fd c) (li_io li # ios) input"
  shows "\<exists>c'. served_by li (Some ctx) root c c' [E_Ssl_New s] \<and> in_service content input req a (Some s) (cn_fd c) ios [] c'"
proof -
  let ?c = "c\<lparr>cn_state := TLS_ACCEPT, cn_ssl := Some s\<rparr>"
  have unknown: "rq_method (cn_request c) = UNKNOWN" using assms(1,4) by (simp add: conn_inv_def idle_def)
  have hello: "conn_action (li_io li) (Some ctx \<noteq> None) c = (Want_None, c\<lparr>cn_state := TLS_ACCEPT\<rparr>, [])"
    using assms(1,5) by (simp add: conn_action_def do_proto_detect_def waiting_def)
  have inject: "inject_ssl li (Some ctx) (conn_action (li_io li) (Some ctx \<noteq> None) c)
      = (case do_tls_accept (li_io li) ?c of (w, c', es) \<Rightarrow> (w, c', [E_Ssl_New s] @ es))"
    unfolding hello inject_ssl_def by (simp add: assms(3,6))
  consider (wait) w where "do_tls_accept (li_io li) ?c = (w, ?c, [])" "arrives (Some s) (cn_fd c) ios input"
    | (over) "do_tls_accept (li_io li) ?c = (Want_Read, ?c\<lparr>cn_state := READING, cn_last_active := io_now (li_io li)\<rparr>, [])"
        "pieces (Some s) (cn_fd c) ios input"
    using assms(7) by (cases "io_ssl_accept (li_io li) (Some s)") (auto simp: do_tls_accept_def waiting_def)
  then show ?thesis
  proof cases
    case wait
    have "respond li root (inline_parse (li_io li) (w, ?c, [E_Ssl_New s])) = Inr (w, ?c, [E_Ssl_New s])"
      by (rule after_action(2)) simp_all
    then have "served_by li (Some ctx) root c ?c [E_Ssl_New s]" unfolding served_by_def inject wait(1) by simp
    then show ?thesis using assms(2) wait(2) by (intro exI [of _ ?c]) (simp add: in_service_defs)
  next
    case over
    let ?d = "?c\<lparr>cn_state := READING, cn_last_active := io_now (li_io li)\<rparr>"
    have "respond li root (inline_parse (li_io li) (Want_Read, ?d, [E_Ssl_New s])) = Inr (Want_Read, ?d, [E_Ssl_New s])"
      by (rule after_action(2)) (simp_all add: unknown)
    then have "served_by li (Some ctx) root c ?d [E_Ssl_New s]" unfolding served_by_def inject over(1) by simp
    then show ?thesis using assms(2) over(2) by (intro exI [of _ ?d]) (simp add: in_service_defs)
  qed
qed

text \<open>The event in the loop.\<close>

lemma client_hello_event:
  assumes "reachable el" and "i < MAX_CONNECTIONS" and "cn_state (conn_at i el) = PROTO_DETECT" and "cn_ssl (conn_at i el) = None"
    and "cn_read_buf (conn_at i el) = []" and "el_tls_ctx el = Some ctx" and "new_ssl (li_ssl_new li) ctx = Some s"
    and "io_recv_peek (li_io li) (cn_fd (conn_at i el)) = Sys_OK [CHR 0x16]" and "io_ok (li_io li)"
    and "ke_udata ev = Conn i" and "EV_ERROR \<notin> ke_flags ev" and "EV_EOF \<notin> ke_flags ev"
    and "arrives (Some s) (cn_fd (conn_at i el)) (li_io li # ios) input"
  shows "\<exists>el1. dispatch li ev el = Some (Inr (el1, [E_Ssl_New s])) \<and> event_ok el li ev
    \<and> in_service content input req a (Some s) (cn_fd (conn_at i el)) ios [] (conn_at i el1)"
proof -
  have inv: "loop_inv el" by (rule reachable_inv [OF assms(1)])
  have cinv: "conn_inv (conn_at i el)" using inv assms(2) by (simp add: loop_inv_def loop_base_def)
  have opn: "cn_state (conn_at i el) \<noteq> CLOSED" using assms(3) by simp
  obtain c' where s: "served_by li (el_tls_ctx el) (el_root_dir el) (conn_at i el) c' [E_Ssl_New s]"
    "in_service content input req a (Some s) (cn_fd (conn_at i el)) ios [] c'"
    using client_hello_served [OF assms(3,5,4) cinv assms(8,7,13)] unfolding assms(6) by blast
  obtain el1 where d: "dispatch li ev el = Some (Inr (el1, [E_Ssl_New s]))" using served_returns [OF s(1) opn assms(10-12)] by blast
  have "event_ok el li ev" using assms(2,9-12) by (simp add: event_ok_def)
  moreover have "unlinked (conn_at i el1) = unlinked c'"
    using served_event [OF inv assms(2,10-12,9) d opn s(1)] by blast
  ultimately show ?thesis using d s(2) in_service_unlinked by blast
qed

subsection \<open>The property\<close>


text \<open>An example: a ClientHello, a handshake that is over at once, and the same file twice.\<close>

definition io_tls :: "string \<Rightarrow> io" where
  "io_tls input = io_sending\<lparr>io_recv_peek := \<lambda>_. Sys_OK [CHR 0x16], io_ssl_accept := \<lambda>_. Ssl_OK (),
     io_ssl_read := \<lambda>_ n. if take n input = [] then Ssl_Want_Read else Ssl_OK (take n input)\<rparr>"

lemma io_tls_cooperative: "cooperative (\<lambda>_. ''hello'') ssl (io_tls input)"
  using io_sending_ok(1) [of ssl]
  by (cases ssl) (auto simp: cooperative_def io_ok_def files_ok_def io_tls_def split: if_splits)


end
