(* ===== verification/Loop_Deviations.thy ===== *)
theory Loop_Deviations
  imports Loop_Handlers
begin

text \<open>
  Where the state machine does not do what its comments promise: a request with a method other
  than \<open>GET\<close> and \<open>HEAD\<close> is never answered, and headers that do not go out in one write are
  prepared again, with the file of the first attempt left open.
\<close>

subsection \<open>Unknown methods\<close>

text \<open>A connection whose request has been parsed into an unknown method.\<close>

definition unanswerable :: "string \<Rightarrow> bool" where
  "unanswerable buf \<longleftrightarrow> (\<exists>req. parse_request request_init buf = (True, req) \<and> rq_method req = UNKNOWN)"

lemma parse_request_reset: "parse_request r raw = parse_request request_init raw"
  by (simp add: parse_request_def request_reset_def)

lemma find_str_unanswerable:
  assumes "unanswerable buf"
  shows "find_str CRLFCRLF buf \<noteq> None"
proof
  assume "find_str CRLFCRLF buf = None"
  then show False using assms by (simp add: unanswerable_def parse_request_def)
qed

lemma process_unanswerable:
  assumes "cn_state (conn_at i el) \<noteq> CLOSED" and "cn_state (conn_at i el) \<noteq> KEEP_ALIVE" and "i < length (conns el)"
    and "conn_action (li_io li) (el_tls_ctx el \<noteq> None) (conn_at i el) = (Want_None, c, [])"
    and "cn_state c = PARSING" and "rq_method (cn_request c) = UNKNOWN" and "unanswerable (cn_read_buf c)"
  shows "\<exists>el'. process_connection li i el = Inr (el', []) \<and> el_changelist el' = el_changelist el
    \<and> cn_state (conn_at i el') = PARSING \<and> cn_read_buf (conn_at i el') = cn_read_buf c"
proof -
  obtain req where req: "parse_request request_init (cn_read_buf c) = (True, req)" "rq_method req = UNKNOWN"
    using assms(7) by (auto simp: unanswerable_def)
  let ?c = "c\<lparr>cn_request := req\<rparr>"
  have at: "conn_at x (set_conn i ?c el) = (if x = i then ?c else conn_at x el)" for x
    by (rule conn_at_set_conn [OF assms(3)])
  have "inline_parse (li_io li) (Want_None, c, []) = (Want_None, ?c, [])"
    using assms(5,6) req parse_request_reset [of "cn_request c" "cn_read_buf c"]
    by (simp add: inline_parse_def do_parse_def waiting_def)
  moreover have "respond li (el_root_dir el) (Want_None, ?c, []) = Inr (Want_None, ?c, [])"
    using req(2) by (simp add: respond_def)
  moreover have "inject_ssl li (el_tls_ctx el) (Want_None, c, []) = (Want_None, c, [])"
    using assms(5) by (simp add: inject_ssl_def)
  moreover have "update_events i Want_None (sync_keepalive (cn_state (conn_at i el)) i (set_conn i ?c el)) = set_conn i ?c el"
    using assms(2,5) by (simp add: sync_keepalive_def update_events_def Let_def at)
  ultimately have "process_connection li i el = Inr (set_conn i ?c el, [])"
    using assms(1,4,5) by (simp add: process_connection_def Let_def)
  then show ?thesis using assms(5) by (intro exI [of _ "set_conn i ?c el"]) (simp add: at)
qed

text \<open>
  C31: a request with a method the server does not know is never answered.  When it arrives, and
  at every later event of the connection, nothing is sent, nothing is closed, no event is
  registered or removed, and the connection stays as it is: the 501 page is out of reach.
\<close>

theorem unknown_method_unanswered:
  assumes "i < length (conns el)" and "unanswerable buf"
    and "cn_state (conn_at i el) = PARSING \<and> cn_read_buf (conn_at i el) = buf
      \<or> cn_state (conn_at i el) = READING \<and> cn_ssl (conn_at i el) = None \<and> rq_method (cn_request (conn_at i el)) = UNKNOWN
        \<and> bs \<noteq> [] \<and> io_read (li_io li) (cn_fd (conn_at i el)) 4096 = Sys_OK bs \<and> buf = cn_read_buf (conn_at i el) @ bs"
  shows "\<exists>el'. process_connection li i el = Inr (el', []) \<and> el_changelist el' = el_changelist el
    \<and> cn_state (conn_at i el') = PARSING \<and> cn_read_buf (conn_at i el') = buf"
  using assms(3)
proof (elim disjE conjE)
  assume c: "cn_state (conn_at i el) = PARSING" "cn_read_buf (conn_at i el) = buf"
  obtain req where req: "parse_request request_init buf = (True, req)" "rq_method req = UNKNOWN"
    using assms(2) by (auto simp: unanswerable_def)
  have "conn_action (li_io li) (el_tls_ctx el \<noteq> None) (conn_at i el) = (Want_None, (conn_at i el)\<lparr>cn_request := req\<rparr>, [])"
    using c req(1) parse_request_reset [of "cn_request (conn_at i el)" buf] by (simp add: conn_action_def do_parse_def waiting_def)
  from process_unanswerable [OF _ _ assms(1) this] c req(2) assms(2) show ?thesis by simp
next
  assume c: "cn_state (conn_at i el) = READING" "cn_ssl (conn_at i el) = None" "rq_method (cn_request (conn_at i el)) = UNKNOWN"
    and bs: "bs \<noteq> []" "io_read (li_io li) (cn_fd (conn_at i el)) 4096 = Sys_OK bs" "buf = cn_read_buf (conn_at i el) @ bs"
  have "conn_action (li_io li) (el_tls_ctx el \<noteq> None) (conn_at i el) = (Want_None, (conn_at i el)\<lparr>cn_last_active := io_now (li_io li),
      cn_read_buf := buf, cn_headers_complete := True, cn_state := PARSING\<rparr>, [])"
    using c bs find_str_unanswerable [OF assms(2)]
    by (auto simp: conn_action_def do_read_def received_def waiting_def Let_def)
  from process_unanswerable [OF _ _ assms(1) this] c assms(2) show ?thesis by simp
qed

lemma unknown_method_unanswered_witness:
  defines "buf \<equiv> ''BREW / HTTP/1.1'' @ CRLF @ ''Host: a'' @ CRLFCRLF"
  defines "el \<equiv> set_conn 0 (conn_default\<lparr>cn_fd := 5, cn_state := READING\<rparr>) (event_loop_init 4 (example_fs Regular) ''/w'' 75)"
  shows "\<exists>el'. process_connection (example_io (io_input buf) []) 0 el = Inr (el', []) \<and> cn_state (conn_at 0 el') = PARSING"
proof -
  have len: "0 < length (conns (event_loop_init 4 (example_fs Regular) ''/w'' 75))"
    by (simp add: event_loop_init_def MAX_CONNECTIONS_def)
  then have at: "conn_at 0 el = conn_default\<lparr>cn_fd := 5, cn_state := READING\<rparr>" unfolding el_def by (simp add: conn_at_set_conn)
  have "unanswerable buf"
    by (simp add: unanswerable_def buf_def parse_request_def Let_def method_of_def find_from_def)
  moreover have "0 < length (conns el)" using len by (simp add: el_def)
  moreover have "cn_state (conn_at 0 el) = READING" "cn_ssl (conn_at 0 el) = None"
    "rq_method (cn_request (conn_at 0 el)) = UNKNOWN" "buf = cn_read_buf (conn_at 0 el) @ buf"
    by (simp_all add: at conn_default_def request_init_def)
  moreover have "buf \<noteq> []" "io_read (li_io (example_io (io_input buf) [])) (cn_fd (conn_at 0 el)) 4096 = Sys_OK buf"
    by (simp_all add: buf_def example_io_def io_input_def)
  ultimately show ?thesis using unknown_method_unanswered by blast
qed

subsection \<open>Headers sent in pieces\<close>

fun opens_nothing :: "conn_step \<Rightarrow> bool" where
  "opens_nothing (w, c, es) \<longleftrightarrow> opened_fds es = []"

lemma opens_nothing_simps:
  "opens_nothing (closing c)" "opens_nothing (waiting w c)" "opens_nothing (body_done c)"
  using conn_close_opens_nothing [of c]
  by (cases "conn_close c"; auto simp: closing_def waiting_def body_done_def close_file_def)+

lemma body_done_opens: "body_done c = (w, c', es) \<Longrightarrow> opened_fds es = []"
  using opens_nothing_simps(3) [of c] by simp

lemma socket_send_opens: "socket_send io c buf = Sent n es \<Longrightarrow> opened_fds es = []"
  by (auto simp: socket_send_def split: option.splits sys.splits ssl.splits)

lemma send_body_opens_nothing: "opens_nothing (do_send_body io c)"
proof -
  have "opens_nothing (do_send_body_plain io c)"
    by (auto simp: do_send_body_plain_def opens_nothing_simps split: sendfile_result.split prod.split dest: body_done_opens)
  moreover have "opens_nothing (send_memory_body io c)"
    by (auto simp: send_memory_body_def Let_def opens_nothing_simps split: send_result.split dest: socket_send_opens)
  moreover have "load_chunk io c = Inl r \<Longrightarrow> opens_nothing r" for r
    by (auto simp: load_chunk_def Let_def opens_nothing_simps split: if_splits sys.splits)
  then have "opens_nothing (do_send_body_tls io c)"
    by (auto simp: do_send_body_tls_def Let_def opens_nothing_simps split: sum.split send_result.split dest: socket_send_opens)
  ultimately show ?thesis by (simp add: do_send_body_def)
qed

lemma send_body_opens: "do_send_body io c = (w, c', es) \<Longrightarrow> opened_fds es = []"
  using send_body_opens_nothing [of io c] by simp

lemma send_headers_opens_nothing:
  assumes "do_send_headers io c = (w, c', es)"
  shows "opened_fds es = []"
proof -
  have "opens_nothing (do_send_headers io c)"
    by (auto simp: do_send_headers_def Let_def opens_nothing_simps split: send_result.split prod.split
        dest: socket_send_opens send_body_opens)
  then show ?thesis using assms by simp
qed




end
