(* ===== verification/Loop_Slots.thy ===== *)
theory Loop_Slots
  imports Loop_Service Loop_Deviations
begin

text \<open>
  Where the loop loses track of a slot or of input: an event for a connection that was destroyed earlier in the same
  batch, a connection that is closed while its answer is begun, and a second request that
  arrives in pieces.
\<close>

subsection \<open>Stale events\<close>

lemma closed_conn_frame:
  assumes "loop_inv el" and "i < MAX_CONNECTIONS" and "cn_state (conn_at i el) = CLOSED"
  shows "cn_fd (conn_at i el) = -1" and "cn_ssl (conn_at i el) = None" and "cn_file_fd (conn_at i el) = -1"
    and "\<not> cn_in_list (conn_at i el)"
proof -
  have inv: "conn_inv (conn_at i el)" and ka: "ka_inv el" and l: "listed {} el"
    using assms(1,2) by (simp_all add: loop_inv_def loop_base_def)
  then show "cn_fd (conn_at i el) = -1" "cn_ssl (conn_at i el) = None" "cn_file_fd (conn_at i el) = -1"
    using assms(3) by (simp_all add: conn_inv_def conn_base_def)
  have "i \<notin> set (ka_list el)" using l assms(2,3) by (simp add: listed_def)
  then show "\<not> cn_in_list (conn_at i el)" using ka_invD [OF ka] assms(2) by (auto simp: ka_rep_def)
qed

lemma conns_same: "i < length (conns el) \<Longrightarrow> set_conn i (conn_at i el) el = el"
  by (simp add: set_conn_def conn_at_def)

text \<open>Destroying a connection that is closed already only gives its slot back.\<close>

lemma destroy_closed:
  assumes "loop_inv el" and "i < MAX_CONNECTIONS" and "cn_state (conn_at i el) = CLOSED"
  shows "destroy_connection i el = (case release i (el_pool el) of Inl u \<Rightarrow> Inl u | Inr p \<Rightarrow> Inr (el\<lparr>el_pool := p\<rparr>, []))"
proof -
  note f = closed_conn_frame [OF assms]
  have "length (conns el) = MAX_CONNECTIONS" using assms(1) ka_invD by (auto simp: loop_inv_def loop_base_def)
  then have same: "set_conn i (conn_at i el) el = el" using assms(2) by (intro conns_same) simp
  have "remove_from_keepalive_list i el = el" using f(4) by (simp add: remove_from_keepalive_list_def)
  then show ?thesis using f(1) assms(3) same by (simp add: destroy_connection_def conn_close_def Let_def split: sum.split)
qed

lemma release_top:
  assumes "pool_inv p" and "i < MAX_CONNECTIONS" and "lent p \<noteq> {}"
  shows "\<exists>p'. release i p = Inr p' \<and> free_slots p' = i # free_slots p \<and> pl_connections p' = pl_connections p
    \<and> pl_free_head p' = pl_free_head p - 1 \<and> length (pl_free_list p') = MAX_CONNECTIONS"
proof -
  have "card (lent p) \<noteq> 0" using assms(3) by simp
  then have h: "0 < pl_free_head p" by (simp add: card_lent [OF assms(1)])
  then have b: "pl_free_head p - 1 < length (pl_free_list p)" using assms(1) by (auto simp: pool_inv_def)
  have "drop (pl_free_head p - 1) ((pl_free_list p)[pl_free_head p - 1 := i]) = i # drop (pl_free_head p) (pl_free_list p)"
    using h b by (simp add: Cons_nth_drop_Suc [symmetric] drop_update_swap)
  then show ?thesis using assms(1,2) h by (simp add: release_def free_slots_def pool_inv_def)
qed

lemma acquire_top:
  assumes "free_slots p = i # xs" and "length (pl_free_list p) = MAX_CONNECTIONS"
  shows "\<exists>p'. acquire p = Some (i, p') \<and> free_slots p' = xs \<and> pl_connections p' = pl_connections p
    \<and> length (pl_free_list p') = MAX_CONNECTIONS"
proof -
  have "pl_free_head p < length (pl_free_list p)" using assms(1) by (rule_tac ccontr) (simp add: free_slots_def)
  moreover have "pl_free_list p ! pl_free_head p = i" "drop (Suc (pl_free_head p)) (pl_free_list p) = xs"
    using assms(1) calculation by (simp_all add: free_slots_def Cons_nth_drop_Suc [symmetric])
  ultimately show ?thesis using assms(2) by (simp add: acquire_def free_slots_def)
qed


lemma create_connection_top:
  assumes "free_slots (el_pool el) = i # xs" and "length (pl_free_list (el_pool el)) = MAX_CONNECTIONS" and "i < length (conns el)"
  shows "\<exists>el'. create_connection now fd el = (Some i, el') \<and> free_slots (el_pool el') = xs
    \<and> length (pl_free_list (el_pool el')) = MAX_CONNECTIONS \<and> length (conns el') = length (conns el)
    \<and> cn_fd (conn_at i el') = fd \<and> cn_file_fd (conn_at i el') = -1 \<and> (\<forall>x. x \<noteq> i \<longrightarrow> conn_at x el' = conn_at x el)"
proof -
  obtain p where p: "acquire (el_pool el) = Some (i, p)" "free_slots p = xs" "pl_connections p = pl_connections (el_pool el)"
    "length (pl_free_list p) = MAX_CONNECTIONS" using acquire_top [OF assms(1,2)] by blast
  let ?c = "(conn_init now fd (el_root_dir el) (el_keep_alive_timeout el) (conn_at i el))\<lparr>cn_tls_available := (el_tls_ctx el \<noteq> None)\<rparr>"
  have at: "conn_at x (set_conn i ?c (el\<lparr>el_pool := p\<rparr>)) = (if x = i then ?c else conn_at x el)" for x
    using assms(3) p(3) by (subst conn_at_set_conn) (simp_all add: conn_at_def)
  have "create_connection now fd el =
      (Some i, add_event fd EVFILT_READ {EV_ADD, EV_ENABLE} (Conn i) (set_conn i ?c (el\<lparr>el_pool := p\<rparr>)))"
    using p(1,3) by (simp add: create_connection_def Let_def conn_at_def)
  then show ?thesis using p(2-4) at by (simp add: set_conn_def free_slots_def conn_init_def)
qed

text \<open>
  C33: what an event for a destroyed connection does.  The timer, or an earlier event of the batch, has destroyed the
  connection in slot \<open>i\<close>, and then an event with an error or the end of the stream for it comes.
  It gives the free slot back once more, and of the next two clients the second takes the place of
  the first: nobody holds the descriptor of the first client any more, and it has not been closed.
\<close>

theorem stale_event_loses_client:
  assumes "reachable el" and "i < MAX_CONNECTIONS" and "lent (el_pool el) \<noteq> {}" and "free_slots (el_pool el) = i # free"
    and "ke_udata ev = Conn i" and "EV_ERROR \<in> ke_flags ev \<or> EV_EOF \<in> ke_flags ev"
    and "0 \<le> fd1" and "0 \<le> fd2" and "fd1 \<noteq> fd2" and "li_accept li' = [fd1, fd2]"
    and "\<forall>x < MAX_CONNECTIONS. fd1 \<notin># owned (conn_at x el)"
  shows "\<exists>el1 el2. dispatch li ev el = Some (Inr (el1, [])) \<and> handle_accept li' el1 = (el2, [E_Accept fd1, E_Accept fd2])
    \<and> cn_fd (conn_at i el2) = fd2 \<and> (\<forall>x < MAX_CONNECTIONS. fd1 \<notin># owned (conn_at x el2))"
proof -
  have inv: "loop_inv el" by (rule reachable_inv [OF assms(1)])
  then have pool: "pool_inv (el_pool el)" and len: "length (conns el) = MAX_CONNECTIONS"
    using ka_invD by (auto simp: loop_inv_def loop_base_def)
  have "i \<notin> lent (el_pool el)" using assms(4) by (simp add: lent_def)
  then have closed: "cn_state (conn_at i el) = CLOSED" using inv assms(2) by (simp add: loop_inv_def loop_base_def)
  obtain p where p: "release i (el_pool el) = Inr p" "free_slots p = i # i # free" "pl_connections p = conns el"
    "length (pl_free_list p) = MAX_CONNECTIONS" using release_top [OF pool assms(2,3)] assms(4) by auto
  let ?el1 = "el\<lparr>el_pool := p\<rparr>"
  have d: "dispatch li ev el = Some (Inr (?el1, []))"
    using destroy_closed [OF inv assms(2) closed] p(1) assms(5,6) by (auto simp: dispatch_def)
  have at1: "conn_at x ?el1 = conn_at x el" for x using p(3) by (simp add: conn_at_def)
  obtain el2 where c1: "create_connection (io_now (li_io li')) fd1 ?el1 = (Some i, el2)" "free_slots (el_pool el2) = i # free"
    "length (pl_free_list (el_pool el2)) = MAX_CONNECTIONS" "length (conns el2) = MAX_CONNECTIONS"
    "\<forall>x. x \<noteq> i \<longrightarrow> conn_at x el2 = conn_at x el"
    using create_connection_top [of ?el1 i "i # free" "io_now (li_io li')" fd1] p assms(2) len at1 by auto
  obtain el3 where c2: "create_connection (io_now (li_io li')) fd2 el2 = (Some i, el3)"
    "cn_fd (conn_at i el3) = fd2" "cn_file_fd (conn_at i el3) = -1" "\<forall>x. x \<noteq> i \<longrightarrow> conn_at x el3 = conn_at x el2"
    using create_connection_top [OF c1(2,3), of "io_now (li_io li')" fd2] c1(4) assms(2) by auto
  have "handle_accept li' ?el1 = (el3, [E_Accept fd1, E_Accept fd2])"
    using assms(7,8,10) c1(1) c2(1) by (simp add: handle_accept_def)
  moreover have "fd1 \<notin># owned (conn_at x el3)" if "x < MAX_CONNECTIONS" for x
  proof (cases "x = i")
    case True
    then show ?thesis using c2(2,3) assms(9) by (simp add: owned_def)
  next
    case False
    then show ?thesis using c1(5) c2(4) assms(11) that by simp
  qed
  ultimately show ?thesis using d c2(2) by blast
qed


lemma stale_event_loses_client_witness:
  defines "stale \<equiv> \<lparr>ke_ident = 6, ke_filter = EVFILT_READ, ke_flags = {EV_EOF}, ke_note_seconds = False, ke_data = 0, ke_udata = Conn 1\<rparr>"
  shows "\<exists>el el1 el2. reachable el \<and> dispatch example_li stale el = Some (Inr (el1, []))
    \<and> handle_accept (example_io io_idle [6, 7]) el1 = (el2, [E_Accept 6, E_Accept 7])
    \<and> (\<forall>x < MAX_CONNECTIONS. 6 \<notin># owned (conn_at x el2))"
proof -
  have start: "reachable example_start" unfolding example_loop_def by (rule reachable.start)
  have pool: "el_pool example_start = pool_init conn_default"
    by (simp add: example_loop_def set_tls_context_def event_loop_init_def)
  have many: "1 < MAX_CONNECTIONS" by (simp add: MAX_CONNECTIONS_def)
  then have slots: "free_slots (el_pool example_start) = 0 # 1 # [2..<MAX_CONNECTIONS]"
    by (simp add: pool pool_init_def free_slots_def upt_conv_Cons numeral_2_eq_2)
  have len: "length (pl_free_list (el_pool example_start)) = MAX_CONNECTIONS" "0 < length (conns example_start)"
    using many by (simp_all add: pool pool_init_def)
  obtain el where cr: "create_connection 0 5 example_start = (Some 0, el)" "free_slots (el_pool el) = 1 # [2..<MAX_CONNECTIONS]"
    "cn_fd (conn_at 0 el) = 5" "cn_file_fd (conn_at 0 el) = -1" "\<forall>x. x \<noteq> 0 \<longrightarrow> conn_at x el = conn_at x example_start"
    using create_connection_top [OF slots len, of 0 5] by blast
  have "handle_accept (example_io io_idle [5]) example_start = (el, [E_Accept 5])"
    using cr(1) by (simp add: handle_accept_def example_io_def io_idle_def)
  then have "dispatch (example_io io_idle [5]) (example_event Listener_Tag) example_start = Some (Inr (el, [E_Accept 5]))"
    by (simp add: dispatch_def example_event_def)
  moreover have "event_ok example_start (example_io io_idle [5]) (example_event Listener_Tag)"
    by (simp add: event_ok_def example_event_def example_io_def)
  ultimately have reach: "reachable el" using step [OF start] event by blast
  have "conn_at x el = conn_default" if "x \<noteq> 0" "x < MAX_CONNECTIONS" for x using cr(5) that pool by (simp add: conn_at_def)
  then have "6 \<notin># owned (conn_at x el)" if "x < MAX_CONNECTIONS" for x
    using that cr(3,4) by (cases "x = 0") (simp_all add: owned_def conn_default_def)
  then have other: "\<forall>x < MAX_CONNECTIONS. 6 \<notin># owned (conn_at x el)" by blast
  have "0 \<in> lent (el_pool el)" using cr(2) many by (auto simp: lent_def)
  then have "lent (el_pool el) \<noteq> {}" by blast
  from stale_event_loses_client [OF reach many this cr(2), of stale 6 7 "example_io io_idle [6, 7]" example_li] other
  obtain el1 el2 where "dispatch example_li stale el = Some (Inr (el1, []))"
    "handle_accept (example_io io_idle [6, 7]) el1 = (el2, [E_Accept 6, E_Accept 7])" "\<forall>x < MAX_CONNECTIONS. 6 \<notin># owned (conn_at x el2)"
    by (auto simp: stale_def example_io_def)
  then show ?thesis using reach by blast
qed

subsection \<open>A connection closed while its answer is begun\<close>

text \<open>No event of the batch reports an error or the end of the stream for the slot.\<close>

definition unflagged :: "nat \<Rightarrow> (loop_io \<times> kevent) list \<Rightarrow> bool" where
  "unflagged i evs \<longleftrightarrow> (\<forall>(li, ev) \<in> set evs. ke_udata ev = Conn i \<longrightarrow> EV_ERROR \<notin> ke_flags ev \<and> EV_EOF \<notin> ke_flags ev)"

lemma closed_stays_lent:
  assumes "reachable el" and "i < MAX_CONNECTIONS" and "cn_state (conn_at i el) = CLOSED" and "i \<in> lent (el_pool el)"
    and "events_ok evs el" and "unflagged i evs" and "dispatch_all evs el = Some (Inr (el', es))"
  shows "cn_state (conn_at i el') = CLOSED \<and> i \<in> lent (el_pool el')"
  using assms(1,3-)
proof (induction evs arbitrary: el es)
  case (Cons e evs)
  obtain li ev where e: "e = (li, ev)" by (cases e)
  have inv: "loop_inv el" by (rule reachable_inv [OF Cons.prems(1)])
  obtain el1 es1 es2 where d: "dispatch li ev el = Some (Inr (el1, es1))" and rest: "dispatch_all evs el1 = Some (Inr (el', es2))"
    using Cons.prems(6) by (auto simp: e map_sum_Inr_iff split: option.splits sum.splits)
  have ok: "event_ok el li ev" "events_ok evs el1" "unflagged i evs" using Cons.prems(4,5) d by (simp_all add: e unflagged_def)
  have reach: "reachable el1" using step [OF Cons.prems(1) event [OF ok(1) d]] .
  have "cn_state (conn_at i el1) = CLOSED \<and> i \<in> lent (el_pool el1)"
  proof (cases "ke_udata ev = Conn i")
    case True
    then have "el1 = el" using d Cons.prems(2,5) by (simp add: e dispatch_def unflagged_def process_connection_def)
    then show ?thesis using Cons.prems(2,3) by simp
  next
    case False
    have "\<not> expires li el i" using Cons.prems(2) by (simp add: expires_def)
    then have "i \<in> lent (el_pool el1) \<and> unlinked (conn_at i el1) = unlinked (conn_at i el)"
      using dispatch_other [OF inv ok(1) d False assms(2)] Cons.prems(3) by (simp only: if_True if_False simp_thms)
    then show ?thesis using Cons.prems(2) unlinked_fields [of "conn_at i el1" "conn_at i el"] by simp
  qed
  then show ?case using Cons.IH [OF reach _ _ ok(2,3) rest] by blast
qed simp

text \<open>
  C34: a client that is gone when its answer is begun costs a slot.  When the write of the headers fails, the connection
  is closed, but its slot is not given back; no later event but one that reports an error or the
  end of the stream for it, which the kernel does not send for a closed descriptor, frees it.
\<close>

theorem failed_answer_loses_slot:
  assumes "reachable el" and "i < MAX_CONNECTIONS" and "io_ok (li_io li)"
    and "cn_state (conn_at i el) = READING" and "cn_ssl (conn_at i el) = None"
    and "io_read (li_io li) (cn_fd (conn_at i el)) 4096 = Sys_OK bs" and "bs \<noteq> []"
    and "parse_request request_init (cn_read_buf (conn_at i el) @ bs) = (True, req)" and "rq_method req \<noteq> UNKNOWN"
    and "answer_to (li_server li) (el_root_dir el) req = Inr a"
    and "\<forall>fd out. io_write (li_io li) fd out = Sys_Error"
  shows "\<exists>el' es. process_connection li i el = Inr (el', es) \<and> cn_fd (conn_at i el) \<in> set (closed_fds es)
    \<and> (\<forall>evs el'' es'. events_ok evs el' \<and> unflagged i evs \<and> dispatch_all evs el' = Some (Inr (el'', es')) \<longrightarrow>
         cn_state (conn_at i el'') = CLOSED \<and> i \<in> lent (el_pool el''))"
proof -
  let ?c = "conn_at i el"
  have inv: "loop_inv el" by (rule reachable_inv [OF assms(1)])
  then have cinv: "conn_inv ?c" and lent: "i \<in> lent (el_pool el)" and len: "length (conns el) = MAX_CONNECTIONS"
    using assms(2,4) ka_invD by (auto simp: loop_inv_def loop_base_def)
  have idle: "rq_method (cn_request ?c) = UNKNOWN" "0 \<le> cn_fd ?c" using cinv assms(4) by (auto simp: conn_inv_defs)
  let ?p = "?c\<lparr>cn_last_active := io_now (li_io li), cn_read_buf := cn_read_buf ?c @ bs, cn_headers_complete := True, cn_state := PARSING\<rparr>"
  let ?q = "?p\<lparr>cn_request := req\<rparr>"
  have "find_str CRLFCRLF (cn_read_buf ?c @ bs) \<noteq> None" using assms(8) by (auto simp: parse_request_def split: option.splits)
  then have act: "conn_action (li_io li) (el_tls_ctx el \<noteq> None) ?c = (Want_None, ?p, [])"
    using assms(4-7) by (auto simp: conn_action_def do_read_def received_def waiting_def)
  have parse: "inline_parse (li_io li) (Want_None, ?p, []) = (Want_None, ?q, [])"
    using idle(1) assms(8) parse_request_reset [of "cn_request ?c"] by (simp add: inline_parse_def do_parse_def waiting_def)
  obtain c1 es1 where p: "prepare_response (li_server li) (el_root_dir el) ?q = Inr (c1, es1)"
    by (cases "realise (li_server li) ?q a") (simp add: prepare_response_answer assms(10))
  have qinv: "conn_base ?q" "unsent ?q" "cn_state ?q \<noteq> CLOSED"
    using cinv assms(4) io_okD(1) [OF assms(3,6)] by (auto simp: conn_inv_defs)
  note safe = prepare_response_safe [OF p qinv]
  obtain c2 es2 where cl: "conn_close c1 = (c2, es2)" by (cases "conn_close c1")
  have c1: "cn_fd c1 = cn_fd ?c" "cn_ssl c1 = None" "cn_state c1 = PARSING" "same_links ?c c1"
    using safe(3-6) assms(5) by (simp_all add: same_links_def)
  then have c2: "cn_state c2 = CLOSED" "cn_fd ?c \<in> set (closed_fds es2)"
    using cl idle(2) by (auto simp: conn_close_def close_file_def split: if_splits)
  have "do_send_headers (li_io li) c1 = (Want_None, c2, es2)"
    using c1(2) assms(11) cl by (simp add: do_send_headers_def socket_send_def closing_def)
  then have r: "respond li (el_root_dir el) (Want_None, ?q, []) = Inr (Want_None, c2, es1 @ es2)"
    using p assms(9) by (simp add: respond_def)
  let ?el = "update_events i Want_None (sync_keepalive READING i (set_conn i c2 el))"
  have proc: "process_connection li i el = Inr (?el, es1 @ es2)"
    using act parse r assms(4) by (simp add: process_connection_def inject_ssl_def Let_def)
  have "event_ok el li (example_event (Conn i))" using assms(2,3) by (simp add: event_ok_def example_event_def)
  moreover have "dispatch li (example_event (Conn i)) el = Some (Inr (?el, es1 @ es2))"
    using proc by (simp add: dispatch_def example_event_def)
  ultimately have reach: "reachable ?el" using step [OF assms(1)] event by blast
  have "conn_at i (set_conn i c2 el) = c2" using assms(2) len by (simp add: conn_at_set_conn)
  then have "cn_state (conn_at i ?el) = CLOSED" "i \<in> lent (el_pool ?el)"
    using c2(1) lent by (simp_all add: sync_keepalive_def)
  from closed_stays_lent [OF reach assms(2) this] proc c2(2) show ?thesis by auto
qed


lemma unlinked_read_buf: "unlinked c = unlinked c' \<Longrightarrow> cn_read_buf c = cn_read_buf c'"
  by (cases c; cases c') (simp add: unlinked_def)

lemma example_reading:
  "\<exists>el i. reachable el \<and> i < MAX_CONNECTIONS \<and> cn_state (conn_at i el) = READING \<and> cn_fd (conn_at i el) = 5
     \<and> cn_ssl (conn_at i el) = None \<and> cn_read_buf (conn_at i el) = [] \<and> el_root_dir el = ''/srv''"
proof -
  let ?li = "example_io (io_input ''G'') []"
  have io: "li_io ?li = io_input ''G''" by (simp add: example_io_def)
  obtain el i where l: "loop_step example_start [E_Accept 5] el" and el: "reachable el" "i < MAX_CONNECTIONS"
    and c: "cn_state (conn_at i el) = PROTO_DETECT" "cn_fd (conn_at i el) = 5" "cn_ssl (conn_at i el) = None" "cn_read_buf (conn_at i el) = []"
    using example_accepted by blast
  have inv: "loop_inv el" by (rule reachable_inv [OF el(1)])
  then have "rq_method (cn_request (conn_at i el)) = UNKNOWN"
    using el(2) c(1) by (auto simp: loop_inv_def loop_base_def conn_inv_def idle_def)
  let ?c = "(conn_at i el)\<lparr>cn_last_active := 0, cn_state := READING\<rparr>"
  have a: "conn_action (li_io ?li) (el_tls_ctx el \<noteq> None) (conn_at i el) = (Want_Read, ?c, [])"
    using c(1) unfolding io by (simp add: conn_action_def do_proto_detect_def io_input_def io_idle_def waiting_def)
  have s: "served_by ?li (el_tls_ctx el) (el_root_dir el) (conn_at i el) ?c []"
    using \<open>rq_method _ = UNKNOWN\<close> by (intro served_byI [OF a]) simp_all
  have opn: "cn_state (conn_at i el) \<noteq> CLOSED" using c(1) by simp
  have ev: "ke_udata (example_event (Conn i)) = Conn i" "EV_ERROR \<notin> ke_flags (example_event (Conn i))"
    "EV_EOF \<notin> ke_flags (example_event (Conn i))" by (simp_all add: example_event_def)
  have ok: "io_ok (li_io ?li)" unfolding io by (rule io_input_ok)
  obtain el1 where d: "dispatch ?li (example_event (Conn i)) el = Some (Inr (el1, []))"
    using served_returns [OF s opn ev] by blast
  have "unlinked (conn_at i el1) = unlinked ?c" using served_event [OF inv el(2) ev ok d opn s] by blast
  then have f: "cn_state (conn_at i el1) = READING \<and> cn_fd (conn_at i el1) = 5 \<and> cn_ssl (conn_at i el1) = None
      \<and> cn_read_buf (conn_at i el1) = []"
    using unlinked_fields [of "conn_at i el1" ?c] unlinked_read_buf [of "conn_at i el1" ?c] c by simp
  have "event_ok el ?li (example_event (Conn i))" using el(2) ok by (simp add: event_ok_def example_event_def)
  then have "reachable el1" using step [OF el(1) event] d by blast
  moreover have "el_root_dir el1 = ''/srv''" using dispatch_root [OF d] example_root [OF l] by simp
  ultimately show ?thesis using f el(2) by blast
qed

lemma failed_answer_loses_slot_witness:
  defines "li \<equiv> example_io ((io_input example_input)\<lparr>io_write := \<lambda>_ _. Sys_Error\<rparr>) []"
  shows "\<exists>el i el' es. reachable el \<and> process_connection li i el = Inr (el', es) \<and> 5 \<in> set (closed_fds es)
    \<and> cn_state (conn_at i el') = CLOSED \<and> i \<in> lent (el_pool el')"
proof -
  obtain el i where el: "reachable el" "i < MAX_CONNECTIONS" and c: "cn_state (conn_at i el) = READING" "cn_fd (conn_at i el) = 5"
    "cn_ssl (conn_at i el) = None" "cn_read_buf (conn_at i el) = []" "el_root_dir el = ''/srv''"
    using example_reading by blast
  have parse: "parse_request request_init (cn_read_buf (conn_at i el) @ example_input) = (True, example_parsed)"
    and known: "rq_method example_parsed \<noteq> UNKNOWN"
    using c(4) example_complete by (simp_all add: complete_request_def)
  have io: "io_ok (li_io li)" "io_read (li_io li) (cn_fd (conn_at i el)) 4096 = Sys_OK example_input"
    "\<forall>fd out. io_write (li_io li) fd out = Sys_Error"
    using example_input_length(1) by (auto simp: li_def example_io_def io_input_def io_idle_def io_ok_def)
  have a: "answer_to (li_server li) (el_root_dir el) example_parsed = Inr (Content example_info None)"
    unfolding li_def c(5) by (rule example_answer)
  obtain el' es where r: "process_connection li i el = Inr (el', es)" "cn_fd (conn_at i el) \<in> set (closed_fds es)"
    "\<forall>evs el'' es'. events_ok evs el' \<and> unflagged i evs \<and> dispatch_all evs el' = Some (Inr (el'', es')) \<longrightarrow>
       cn_state (conn_at i el'') = CLOSED \<and> i \<in> lent (el_pool el'')"
    using failed_answer_loses_slot [OF el io(1) c(1,3) io(2) example_input_length(2) parse known a io(3)] by blast
  have "cn_state (conn_at i el') = CLOSED \<and> i \<in> lent (el_pool el')" using r(3) [rule_format, of "[]" el' "[]"] by (simp add: unflagged_def)
  then show ?thesis using el(1) r(1,2) c(2) by auto
qed

subsection \<open>A second request in pieces\<close>

text \<open>
  C35: on a kept connection a request must arrive in one piece.  The connection is waiting for its next request and the
  first piece of it comes, without the empty line; it is read, but the next event resets the connection before it
  reads on, and the parser is given only what comes then.
\<close>

theorem second_request_loses_first_piece:
  assumes "cn_state c = KEEP_ALIVE" and "cn_ssl c = None"
    and "io_read io1 (cn_fd c) 4096 = Sys_OK b1" and "b1 \<noteq> []" and "find_str CRLFCRLF b1 = None" and "length b1 \<le> 4096"
    and "io_read io2 (cn_fd c) 4096 = Sys_OK b2" and "b2 \<noteq> []" and "find_str CRLFCRLF b2 \<noteq> None"
  shows "\<exists>c1 es1 c2. conn_action io1 tls c = (Want_Read, c1, es1) \<and> cn_read_buf c1 = b1
    \<and> conn_action io2 tls c1 = (Want_None, c2, []) \<and> cn_state c2 = PARSING \<and> cn_read_buf c2 = b2
    \<and> snd (snd (do_parse io c2)) = [] \<and> cn_request (fst (snd (do_parse io c2))) = snd (parse_request request_init b2)"
proof -
  obtain c0 es1 where r: "conn_reset c = (c0, es1)" by (cases "conn_reset c")
  then have c0: "cn_state c0 = KEEP_ALIVE" "cn_ssl c0 = None" "cn_fd c0 = cn_fd c" "cn_read_buf c0 = []" "cn_file_fd c0 < 0"
    using assms(1,2) by (auto simp: conn_reset_def close_file_def split: if_splits)
  let ?c1 = "c0\<lparr>cn_last_active := io_now io1, cn_read_buf := b1\<rparr>"
  have a1: "conn_action io1 tls c = (Want_Read, ?c1, es1)"
    using assms(1,3-6) r c0 by (simp add: conn_action_def do_read_def received_def waiting_def)
  obtain c1' where r1: "conn_reset ?c1 = (c1', [])" "cn_state c1' = KEEP_ALIVE" "cn_ssl c1' = None" "cn_fd c1' = cn_fd c" "cn_read_buf c1' = []"
    using c0 by (auto simp: conn_reset_def close_file_def)
  let ?c2 = "c1'\<lparr>cn_last_active := io_now io2, cn_read_buf := b2, cn_headers_complete := True, cn_state := PARSING\<rparr>"
  have a2: "conn_action io2 tls ?c1 = (Want_None, ?c2, [])"
    using assms(7-9) r1 c0(1) by (auto simp: conn_action_def do_read_def received_def waiting_def)
  have "snd (snd (do_parse io ?c2)) = [] \<and> cn_request (fst (snd (do_parse io ?c2))) = snd (parse_request request_init b2)"
    using parse_request_reset [of "cn_request c1'" b2]
    by (simp add: do_parse_def error_response_def prepare_headers_def waiting_def Let_def split: prod.split)
  then show ?thesis using a1 a2 by (intro exI [of _ ?c1] exI [of _ es1] exI [of _ ?c2]) simp
qed

lemma second_request_loses_first_piece_witness:
  defines "c \<equiv> conn_default\<lparr>cn_fd := 5, cn_state := KEEP_ALIVE\<rparr>"
  shows "\<exists>c1 es1 c2. conn_action (io_input ''GET / HTTP/1.1'') False c = (Want_Read, c1, es1) \<and> cn_read_buf c1 = ''GET / HTTP/1.1''
    \<and> conn_action (io_input (CRLF @ ''Host: a'' @ CRLFCRLF)) False c1 = (Want_None, c2, [])
    \<and> cn_read_buf c2 = CRLF @ ''Host: a'' @ CRLFCRLF"
proof -
  let ?b1 = "''GET / HTTP/1.1''" and ?b2 = "CRLF @ ''Host: a'' @ CRLFCRLF"
  have "cn_state c = KEEP_ALIVE" "cn_ssl c = None" by (simp_all add: c_def conn_default_def)
  moreover have "io_read (io_input ?b1) (cn_fd c) 4096 = Sys_OK ?b1" "io_read (io_input ?b2) (cn_fd c) 4096 = Sys_OK ?b2"
    "find_str CRLFCRLF ?b1 = None" "find_str CRLFCRLF ?b2 \<noteq> None" by (simp_all add: io_input_def)
  ultimately show ?thesis
    using second_request_loses_first_piece [of c "io_input ?b1" ?b1 "io_input ?b2" ?b2 False] by fastforce
qed

end
