(* ===== verification/Descriptors.thy ===== *)
theory Descriptors
  imports Loop_Deviations Loop_Events
begin

text \<open>
  The descriptors of the process over whole runs of the event loop.  Every handler closes only
  what a connection holds or what it has just obtained; a history of the loop never closes a
  descriptor it was not given, and as long as the kernel hands out descriptors that are not open,
  no two connections share one.
\<close>

subsection \<open>Closing only what is held\<close>

text \<open>
  The descriptors held while a list of effects takes place, one after the other; \<open>None\<close> when one is closed
  that is not held.
\<close>

fun holds :: "int multiset \<Rightarrow> effect list \<Rightarrow> int multiset option" where
  "holds M [] = Some M"
| "holds M (E_Open fd # es) = holds (add_mset fd M) es"
| "holds M (E_Accept fd # es) = holds (add_mset fd M) es"
| "holds M (E_Close fd # es) = (if fd \<in># M then holds (M - {#fd#}) es else None)"
| "holds M (_ # es) = holds M es"

lemma holds_append: "holds M (es @ es') = Option.bind (holds M es) (\<lambda>M. holds M es')"
  by (induction M es rule: holds.induct) simp_all

lemma holds_more: "holds M es = Some M' \<Longrightarrow> holds (M + R) es = Some (M' + R)"
  by (induction M es rule: holds.induct) (auto split: if_splits)

lemma holds_opens_nothing:
  "opened_fds es = [] \<Longrightarrow> M = mset (closed_fds es) + M' \<Longrightarrow> holds M es = Some M'"
  by (induction M es rule: holds.induct) auto

text \<open>What a connection still has afterwards is part of what is held.\<close>

definition covered :: "int multiset \<Rightarrow> effect list \<Rightarrow> int multiset \<Rightarrow> bool" where
  "covered M es M' \<longleftrightarrow> (\<exists>M1. holds M es = Some M1 \<and> M' \<subseteq># M1)"

lemma covered_Nil [simp]: "covered M [] M' \<longleftrightarrow> M' \<subseteq># M"
  by (simp add: covered_def)

lemma balanced_covered: "balanced c es c' \<Longrightarrow> opened_fds es = [] \<Longrightarrow> covered (owned c) es (owned c')"
  using holds_opens_nothing [of es "owned c" "owned c'"] by (simp add: balanced_def covered_def)

lemma covered_more:
  assumes "covered M es M'"
  shows "covered (M + R) es (M' + R)"
  using assms holds_more by (fastforce simp: covered_def)

lemma covered_trans:
  assumes "covered M es M1" and "covered M1 es' M2"
  shows "covered M (es @ es') M2"
proof -
  obtain M' where m: "holds M es = Some M'" "M1 \<subseteq># M'" using assms(1) by (auto simp: covered_def)
  obtain M'' where m': "holds M1 es' = Some M''" "M2 \<subseteq># M''" using assms(2) by (auto simp: covered_def)
  have "holds M' es' = Some (M'' + (M' - M1))"
    using holds_more [OF m'(1), of "M' - M1"] m(2) by (simp add: subset_mset.add_diff_inverse)
  moreover have "M2 \<subseteq># M'' + (M' - M1)" using m'(2) by (simp add: subset_mset.add_increasing2)
  ultimately show ?thesis using m(1) by (simp add: covered_def holds_append)
qed

lemma prepare_response_covered:
  assumes "prepare_response si root c = Inr (c', es)"
  shows "covered (owned c) es (owned c')"
  using prepare_response_shape [OF assms]
  by (elim exE conjE disjE) (simp_all add: covered_def owned_def)

subsection \<open>Only two calls open a descriptor\<close>

lemma closing_opens: "closing c = (w, c', es) \<Longrightarrow> opened_fds es = []"
  using opens_nothing_simps(1) [of c] by simp

lemma do_read_opens: "do_read io c = (w, c', es) \<Longrightarrow> opened_fds es = []"
  by (auto simp: do_read_def received_def waiting_def Let_def dest: closing_opens
      split: option.splits ssl.splits sys.splits if_splits)

lemma close_file_opens: "close_file c = (c', es) \<Longrightarrow> opened_fds es = []"
  by (auto simp: close_file_def split: if_splits)

lemma do_parse_opens: "do_parse io c = (w, c', es) \<Longrightarrow> opened_fds es = []"
  by (auto simp: do_parse_def waiting_def error_response_def Let_def split: prod.splits if_splits)

lemma do_tls_accept_opens: "do_tls_accept io c = (w, c', es) \<Longrightarrow> opened_fds es = []"
  by (auto simp: do_tls_accept_def waiting_def error_response_def Let_def split: ssl.splits)

lemma conn_action_opens:
  assumes "conn_action io tls c = (w, c', es)"
  shows "opened_fds es = []"
proof (cases "cn_state c")
  case PROTO_DETECT
  then show ?thesis using assms
    by (auto simp: conn_action_def do_proto_detect_def waiting_def error_response_def Let_def dest: closing_opens
        split: sys.splits list.splits if_splits)
next
  case KEEP_ALIVE
  then show ?thesis using assms
    by (auto simp: conn_action_def conn_reset_def dest: close_file_opens do_read_opens split: prod.splits)
qed (use assms in \<open>auto simp: conn_action_def waiting_def
  dest: do_read_opens do_parse_opens do_tls_accept_opens send_headers_opens_nothing send_body_opens\<close>)

lemma inject_ssl_opens:
  "inject_ssl li tls (w, c, es) = (w', c', es') \<Longrightarrow> opened_fds es = [] \<Longrightarrow> opened_fds es' = []"
  by (auto simp: inject_ssl_def Let_def dest: do_tls_accept_opens split: if_splits option.splits prod.splits)

lemma inline_parse_opens:
  "inline_parse io (w, c, es) = (w', c', es') \<Longrightarrow> opened_fds es = [] \<Longrightarrow> opened_fds es' = []"
  by (auto simp: inline_parse_def dest: do_parse_opens split: if_splits prod.splits)

subsection \<open>One event of a connection\<close>

lemma respond_covered:
  assumes "covered M es (owned c1)" and "conn_inv c1" and "cn_state c1 \<noteq> CLOSED" and "io_ok (li_io li)"
    and "respond li root (w, c1, es) = Inr (w', c2, es')"
  shows "covered M es' (owned c2)"
proof (cases "(cn_state c1 = PARSING \<or> cn_state c1 = READING) \<and> rq_method (cn_request c1) \<noteq> UNKNOWN")
  case False
  then show ?thesis using assms(1,5) by (auto simp: respond_def)
next
  case True
  have st: "cn_state c1 = PARSING" using True assms(2) by (auto simp: conn_inv_def idle_def)
  obtain c' es1 where p: "prepare_response (li_server li) root c1 = Inr (c', es1)"
    using assms(5) True by (cases "prepare_response (li_server li) root c1") (auto simp: respond_def)
  obtain w'' es2 where d: "do_send_headers (li_io li) c' = (w'', c2, es2)" and r: "es' = es @ es1 @ es2"
    using assms(5) True p by (auto simp: respond_def split: prod.splits)
  have base: "conn_base c1" "unsent c1" using assms(2) st by (simp_all add: conn_inv_def)
  note safe = prepare_response_safe [OF p base assms(3)]
  have inv': "conn_inv c'" using safe(1-3) st by (simp add: conn_inv_def)
  have "step_ok c' (w'', c2, es2)" using do_send_headers_ok [OF inv' _ assms(4)] safe(3) st unfolding d by simp
  then have "covered (owned c') es2 (owned c2)"
    using send_headers_opens_nothing [OF d] by (simp add: step_ok.simps balanced_covered)
  then show ?thesis unfolding r
    using covered_trans [OF assms(1) covered_trans [OF prepare_response_covered [OF p]]] by blast
qed


text \<open>A connection that reaches \<open>PARSING\<close> from another state has no file.\<close>

lemma conn_action_no_file:
  assumes "conn_inv c" and "cn_state c \<noteq> PARSING" and "conn_action io tls c = (w, c', es)" and "cn_state c' = PARSING"
  shows "no_file c'"
proof -
  have read: "no_file c'" if "do_read io c1 = (w', c', es')" "readable c1" for c1 w' es'
    using do_read_no_file [OF _ that(1)] that(2) assms(4) by (simp add: readable_def idle_def)
  have "cn_state c = READING \<or> cn_state c = KEEP_ALIVE"
    using conn_action_states [OF assms(3)] assms(2,4) by (cases "cn_state c") simp_all
  then show ?thesis
  proof
    assume st: "cn_state c = READING"
    then have "readable c" using assms(1) by (auto simp: readable_def conn_inv_def)
    then show ?thesis using read [of c] st assms(3) by (simp add: conn_action_def)
  next
    assume st: "cn_state c = KEEP_ALIVE"
    obtain c1 es1 where r: "conn_reset c = (c1, es1)" by (cases "conn_reset c")
    then show ?thesis using read [OF _ conn_reset_ok(1) [OF assms(1) st r]] st assms(3)
      by (auto simp: conn_action_def split: prod.splits)
  qed
qed

lemma inject_ssl_parsing:
  "inject_ssl li tls (w, c, es) = (w', c', es') \<Longrightarrow> cn_state c' = PARSING \<Longrightarrow> c' = c \<and> es' = es"
  by (auto simp: inject_ssl_def do_tls_accept_def waiting_def error_response_def prepare_headers_def Let_def
      split: if_splits option.splits ssl.splits)

lemma inline_parse_no_file:
  "inline_parse io (w, c, es) = (w', c', es') \<Longrightarrow> cn_state c' = PARSING \<Longrightarrow> cn_state c = PARSING \<and> no_file c' = no_file c"
  by (auto simp: inline_parse_def do_parse_def waiting_def error_response_def prepare_headers_def no_file_def Let_def
      split: if_splits prod.splits)

lemma parsing_no_file:
  assumes "conn_inv c" and "cn_state c \<noteq> PARSING"
    and "inject_ssl li t (conn_action io tls c) = (w, c1, es)" and "inline_parse io' (w, c1, es) = (w', c2, es')"
  shows "no_file c2 \<or> cn_state c2 \<noteq> PARSING"
proof (cases "cn_state c2 = PARSING")
  case True
  note ip = inline_parse_no_file [OF assms(4) True]
  obtain w0 c0 es0 where a: "conn_action io tls c = (w0, c0, es0)" by (cases "conn_action io tls c")
  have "c1 = c0" using inject_ssl_parsing assms(3) ip a by metis
  then show ?thesis using conn_action_no_file [OF assms(1,2) a] ip by simp
qed simp

lemma process_connection_covered:
  assumes "loop_inv el" and "i < MAX_CONNECTIONS" and "io_ok (li_io li)" and "process_connection li i el = Inr (el', es)"
  shows "covered (owned (conn_at i el)) es (owned (conn_at i el'))"
    and "cn_state (conn_at i el) \<noteq> PARSING \<Longrightarrow> balanced (conn_at i el) es (conn_at i el')"
proof -
  let ?c = "conn_at i el"
  have "covered (owned ?c) es (owned (conn_at i el')) \<and> (cn_state ?c \<noteq> PARSING \<longrightarrow> balanced ?c es (conn_at i el'))"
  proof (cases "cn_state ?c = CLOSED")
    case True
    then show ?thesis using assms(4) by (simp add: process_connection_def)
  next
    case False
    then have inv: "conn_inv ?c" using assms(1,2) by (simp add: loop_inv_def loop_base_def)
    obtain w0 c0 es0 where act: "conn_action (li_io li) (el_tls_ctx el \<noteq> None) ?c = (w0, c0, es0)"
      by (cases "conn_action (li_io li) (el_tls_ctx el \<noteq> None) ?c")
    note act_opens = conn_action_opens [OF act]
    from assms False show ?thesis
    proof (cases rule: process_connection_cases)
      case (destroyed w c es1 es2)
      have "balanced ?c es1 c" using destroyed(2) by (simp add: step_ok.simps)
      then have "balanced ?c es (conn_at i el')" using balanced_trans destroyed(5,7) by simp
      moreover have "opened_fds es = []"
        using inject_ssl_opens [OF destroyed(1) [unfolded act] act_opens] destroy_connection_opens_nothing [OF destroyed(4)]
          destroyed(5) by simp
      ultimately show ?thesis by (simp add: balanced_covered)
    next
      case (kept w c es1 w1 c1 es2 w2 c2)
      have c1: "conn_inv c1" "balanced ?c es2 c1" using kept(4) by (simp_all add: step_ok.simps)
      have o: "owned (conn_at i el') = owned c2" "owned_ssl (conn_at i el') = owned_ssl c2"
        using unlinked_fields [OF kept(8)] by (simp_all add: owned_def owned_ssl_def)
      have "opened_fds es2 = []"
        using inline_parse_opens [OF kept(3) inject_ssl_opens [OF kept(1) [unfolded act] act_opens]] .
      then have "covered (owned ?c) es (owned c2)"
        by (rule respond_covered [OF balanced_covered [OF c1(2)] c1(1) kept(5) assms(3) kept(6)])
      moreover have "balanced ?c es c2" if "cn_state ?c \<noteq> PARSING"
        using respond_ok(5) [OF kept(4,5) assms(3) kept(6)] parsing_no_file [OF inv that kept(1,3)] by blast
      ultimately show ?thesis by (simp add: o balanced_def)
    qed
  qed
  then show "covered (owned ?c) es (owned (conn_at i el'))" and "cn_state ?c \<noteq> PARSING \<Longrightarrow> balanced ?c es (conn_at i el')"
    by simp_all
qed

subsection \<open>One event of the loop\<close>

text \<open>What the connections of the pool hold together.\<close>

definition held :: "event_loop \<Rightarrow> int multiset" where
  "held el = (\<Sum>i < MAX_CONNECTIONS. owned (conn_at i el))"

lemma held_change:
  assumes "S \<subseteq> {..<MAX_CONNECTIONS}" and "\<And>x. x < MAX_CONNECTIONS \<Longrightarrow> x \<notin> S \<Longrightarrow> owned (conn_at x el') = owned (conn_at x el)"
  shows "\<exists>R. held el = (\<Sum>x \<in> S. owned (conn_at x el)) + R \<and> held el' = (\<Sum>x \<in> S. owned (conn_at x el')) + R"
proof -
  have split: "held l = (\<Sum>x \<in> S. owned (conn_at x l)) + (\<Sum>x \<in> {..<MAX_CONNECTIONS} - S. owned (conn_at x l))" for l
    unfolding held_def using sum.subset_diff [OF assms(1), of "\<lambda>x. owned (conn_at x l)"] by (simp add: add.commute)
  have "(\<Sum>x \<in> {..<MAX_CONNECTIONS} - S. owned (conn_at x el')) = (\<Sum>x \<in> {..<MAX_CONNECTIONS} - S. owned (conn_at x el))"
    using assms(2) by (intro sum.cong) auto
  then show ?thesis using split [of el] split [of el'] by auto
qed

lemma held_one:
  assumes "i < MAX_CONNECTIONS" and "\<forall>x. x \<noteq> i \<longrightarrow> unlinked (conn_at x el') = unlinked (conn_at x el)"
  shows "\<exists>R. held el = owned (conn_at i el) + R \<and> held el' = owned (conn_at i el') + R"
proof -
  have "owned (conn_at x el') = owned (conn_at x el)" if "x \<noteq> i" for x
    using assms(2) that by (intro unlinked_owned(1)) simp
  then show ?thesis using held_change [of "{i}" el' el] assms(1) by simp
qed

lemma free_owned:
  assumes "loop_inv el" and "x < MAX_CONNECTIONS" and "x \<notin> lent (el_pool el)"
  shows "owned (conn_at x el) = {#}"
  using assms by (auto simp: loop_inv_def loop_base_def conn_inv_def conn_base_def owned_def)

lemma accept_loop_holds:
  assumes "accept_loop now fds el = (el', es)"
  shows "\<exists>K. mset (opened_fds es) = mset (closed_fds es) + K \<and> (\<forall>M. holds M es = Some (M + K))"
  using assms
proof (induction fds arbitrary: el es)
  case (Cons fd fds)
  show ?case
  proof (cases "fd < 0")
    case False
    obtain r el1 where cr: "create_connection now fd el = (r, el1)" by (cases "create_connection now fd el")
    show ?thesis
    proof (cases r)
      case None
      then show ?thesis using Cons.prems False cr by auto
    next
      case (Some i)
      obtain es1 where al: "accept_loop now fds el1 = (el', es1)" and es: "es = E_Accept fd # es1"
        using Cons.prems False cr Some by (auto split: prod.splits)
      obtain K where "mset (opened_fds es1) = mset (closed_fds es1) + K" "\<forall>M. holds M es1 = Some (M + K)"
        using Cons.IH [OF al] by blast
      then show ?thesis by (intro exI [of _ "add_mset fd K"]) (simp add: es)
    qed
  qed (use Cons.prems in simp)
qed simp

lemma dispatch_covered:
  assumes "loop_inv el" and "event_ok el li ev" and "dispatch li ev el = Some (Inr (el', es))"
  shows "covered (held el) es (held el')"
proof -
  have fin: "finite S" if "S \<subseteq> {..<MAX_CONNECTIONS}" for S :: "nat set" using that finite_subset by blast
  have lent: "lent (el_pool l) \<subseteq> {..<MAX_CONNECTIONS}" for l by (auto simp: lent_def)
  show ?thesis
  proof (cases "EV_ERROR \<in> ke_flags ev \<or> EV_EOF \<in> ke_flags ev")
    case True
    show ?thesis
    proof (cases "ke_udata ev")
      case (Conn i)
      then have i: "i \<in> lent (el_pool el)" using assms(2) True by (simp add: event_ok_def)
      have "loop_base el" "listed {i} el" using assms(1) by (simp_all add: loop_inv_def listed_def)
      from destroy_connection_ok [OF this i] assms(3) True Conn have
        d: "destroy_connection i el = Inr (el', es)" "balanced (conn_at i el) es (conn_at i el')"
          "\<forall>x. x \<noteq> i \<longrightarrow> unlinked (conn_at x el') = unlinked (conn_at x el)"
        by (auto simp: dispatch_def)
      have "i < MAX_CONNECTIONS" using i lent by blast
      then show ?thesis
        using held_one [OF _ d(3)] covered_more [OF balanced_covered [OF d(2) destroy_connection_opens_nothing [OF d(1)]]] by fastforce
    qed (use assms(3) True in \<open>auto simp: dispatch_def\<close>)
  next
    case False
    show ?thesis
    proof (cases "ke_udata ev")
      case Listener_Tag
      then have a: "accept_loop (io_now (li_io li)) (li_accept li) el = (el', es)"
        using assms(3) False by (simp add: dispatch_def handle_accept_def)
      note ok = accept_loop_ok [OF assms(1) a]
      let ?S = "lent (el_pool el') - lent (el_pool el)"
      have "owned (conn_at x el') = owned (conn_at x el)" if "x < MAX_CONNECTIONS" "x \<notin> ?S" for x
        using ok that free_owned [OF assms(1) that(1)] free_owned [of el' x] by (cases "x \<in> lent (el_pool el)") auto
      then obtain R where R: "held el = (\<Sum>x \<in> ?S. owned (conn_at x el)) + R" "held el' = (\<Sum>x \<in> ?S. owned (conn_at x el')) + R"
        using held_change [of ?S el' el] lent [of el'] by blast
      have "(\<Sum>x \<in> ?S. owned (conn_at x el)) = {#}" using free_owned [OF assms(1)] lent [of el'] by (intro sum.neutral) blast
      moreover obtain K where K: "mset (opened_fds es) = mset (closed_fds es) + K" "\<forall>M. holds M es = Some (M + K)"
        using accept_loop_holds [OF a] by blast
      moreover have "K = (\<Sum>x \<in> ?S. owned (conn_at x el'))" using ok K(1) by simp
      ultimately show ?thesis using R by (simp add: covered_def add.commute)
    next
      case Timer_Tag
      let ?xs = "filter (overdue li el) (ka_list el)"
      have "handle_timer li el = Some (Inr (el', es))" using assms(3) False Timer_Tag by (simp add: dispatch_def)
      with handle_timer_ok [OF assms(1), of li] have t: "loop_inv el'" "lent (el_pool el') = lent (el_pool el) - set ?xs"
        "opened_fds es = []" "mset (closed_fds es) = (\<Sum>i \<leftarrow> ?xs. owned (conn_at i el))"
        "\<forall>x. x \<notin> set ?xs \<longrightarrow> unlinked (conn_at x el') = unlinked (conn_at x el)" by auto
      have ka: "ka_inv el" using assms(1) by (simp add: loop_inv_def loop_base_def)
      have d: "distinct ?xs" and b: "set ?xs \<subseteq> {..<MAX_CONNECTIONS}" using keepalive.elems_ok [OF ka] by auto
      have same: "owned (conn_at x el') = owned (conn_at x el)" if "x \<notin> set ?xs" for x
        using t(5) that by (intro unlinked_owned(1)) simp
      obtain R where R: "held el = (\<Sum>x \<in> set ?xs. owned (conn_at x el)) + R" "held el' = (\<Sum>x \<in> set ?xs. owned (conn_at x el')) + R"
        using held_change [OF b same] by blast
      have "(\<Sum>x \<in> set ?xs. owned (conn_at x el')) = {#}"
        using free_owned [OF t(1)] t(2) b by (intro sum.neutral) blast
      moreover have "mset (closed_fds es) = (\<Sum>x \<in> set ?xs. owned (conn_at x el))"
        unfolding t(4) using sum.distinct_set_conv_list [OF d] by metis
      ultimately show ?thesis using holds_opens_nothing [OF t(3), of "held el" "held el'"] R by (simp add: covered_def)
    next
      case (Conn i)
      then have i: "i < MAX_CONNECTIONS" "io_ok (li_io li)" and p: "process_connection li i el = Inr (el', es)"
        using assms(2,3) False by (simp_all add: event_ok_def dispatch_def)
      have "\<forall>x. x \<noteq> i \<longrightarrow> unlinked (conn_at x el') = unlinked (conn_at x el)"
        using process_connection_ok [OF assms(1) i] p by (auto simp: served_def)
      from held_one [OF i(1) this] covered_more [OF process_connection_covered(1) [OF assms(1) i p]] show ?thesis by fastforce
    next
      case Null_Tag
      then show ?thesis using assms(3) False by (simp add: dispatch_def)
    qed
  qed
qed


subsection \<open>Histories\<close>

text \<open>A run of the loop from its start with all effects it had.\<close>

inductive history :: "effect list \<Rightarrow> event_loop \<Rightarrow> bool" where
  begins: "history [] (fst (add_listener fd (set_tls_context tls (event_loop_init kq fs root timeout))))"
| continues: "history es el \<Longrightarrow> loop_step el es' el' \<Longrightarrow> history (es @ es') el'"

lemma history_reachable: "history es el \<Longrightarrow> reachable el"
  by (induction rule: history.induct) (auto intro: reachable.intros)

lemma start_held: "held (fst (add_listener fd (set_tls_context tls (event_loop_init kq fs root timeout)))) = {#}"
proof -
  let ?el = "fst (add_listener fd (set_tls_context tls (event_loop_init kq fs root timeout)))"
  have "lent (el_pool ?el) = {}" by (simp add: set_tls_context_def event_loop_init_def)
  then show ?thesis using free_owned [OF reachable_inv [OF reachable.start [of fd tls kq fs root timeout]]]
    unfolding held_def by (intro sum.neutral) auto
qed

lemma loop_step_covered: "loop_step el es el' \<Longrightarrow> loop_inv el \<Longrightarrow> covered (held el) es (held el')"
  unfolding loop_step_iff using dispatch_covered by (auto simp: held_def)

lemma history_covered: "history es el \<Longrightarrow> covered {#} es (held el)"
proof (induction rule: history.induct)
  case (begins fd tls kq fs root timeout)
  show ?case unfolding start_held by simp
next
  case (continues es el es' el')
  then show ?case using covered_trans loop_step_covered [OF _ reachable_inv [OF history_reachable]] by blast
qed

lemma held_part:
  assumes "S \<subseteq> {..<MAX_CONNECTIONS}"
  shows "(\<Sum>x \<in> S. owned (conn_at x el)) \<subseteq># held el"
  using sum.subset_diff [OF assms, of "\<lambda>x. owned (conn_at x el)"] by (simp add: held_def)

text \<open>The history of the example: a client is accepted, gets the headers of an answer and the answer itself.\<close>

lemma example_history:
  "\<exists>el i. history [E_Accept 5] el \<and> i < MAX_CONNECTIONS \<and> owned (conn_at i el) = {#5#} \<and> cn_fd (conn_at i el) = 5
     \<and> (\<exists>el' es bs. dispatch (example_io (io_input []) []) (example_event (Conn i)) el = Some (Inr (el', es)) \<and> E_Send 5 bs \<in> set es)"
proof -
  let ?io = "io_input []"
  have io [simp]: "li_io (example_io ?io []) = ?io" by (simp add: example_io_def)
  obtain el0 el i where l: "loop_step example_start [E_Accept 5] el0" "loop_step el0 [] el" "reachable el" "i < MAX_CONNECTIONS"
    and c: "cn_state (conn_at i el) = SENDING_HEADERS" "cn_ssl (conn_at i el) = None" "rs_body (cn_response (conn_at i el)) \<noteq> []"
    "cn_body_sent (conn_at i el) = 0" "cn_file_fd (conn_at i el) = -1" "\<not> cn_is_head (conn_at i el)"
    "cn_header_sent (conn_at i el) = 0" "cn_fd (conn_at i el) = 5"
    using example_page by blast
  have "history [] example_start" unfolding example_loop_def by (rule history.begins)
  from continues [OF continues [OF this l(1)] l(2)] have "history [E_Accept 5] el" by simp
  moreover have "owned (conn_at i el) = {#5#}" using c by (simp add: owned_def)
  moreover obtain c' es bs where d: "do_send_headers ?io (conn_at i el) = (Want_Read, c', es)" "cn_state c' = KEEP_ALIVE"
    "E_Send 5 bs \<in> set es" using page_sent [OF c(2-7), of "[]"] unfolding c(8) by blast
  then have "conn_action ?io (el_tls_ctx el \<noteq> None) (conn_at i el) = (Want_Read, c', es)"
    using c(1) by (simp add: conn_action_def)
  then have "\<exists>el'. dispatch (example_io ?io []) (example_event (Conn i)) el = Some (Inr (el', es))"
    using process_reaches [OF l(3,4), of "example_io ?io []" Want_Read c' es] c(1) d(2) io_input_ok by auto
  ultimately show ?thesis using l(4) c(8) d(3) by blast
qed

text \<open>
  C11: the server closes only what it holds.  Over a whole run, however the events come and whatever the
  calls answer, every descriptor that is closed was handed out before and has not been closed since; and what
  the connections hold is part of what is then open.
\<close>

theorem closes_only_what_it_holds:
  assumes "history es el"
  shows "\<exists>M. holds {#} es = Some M \<and> (\<forall>i < MAX_CONNECTIONS. owned (conn_at i el) \<subseteq># M)"
proof -
  obtain M where M: "holds {#} es = Some M" "held el \<subseteq># M" using history_covered [OF assms] by (auto simp: covered_def)
  have "owned (conn_at i el) \<subseteq># M" if "i < MAX_CONNECTIONS" for i
    using held_part [of "{i}" el] M(2) that by (auto intro: subset_mset.trans)
  then show ?thesis using M(1) by blast
qed

lemma closes_only_what_it_holds_witness:
  "\<exists>el i M. holds {#} [E_Accept 5] = Some M \<and> history [E_Accept 5] el \<and> owned (conn_at i el) = {#5#} \<and> owned (conn_at i el) \<subseteq># M"
proof -
  obtain el i where h: "history [E_Accept 5] el" "i < MAX_CONNECTIONS" "owned (conn_at i el) = {#5#}"
    using example_history by blast
  with closes_only_what_it_holds [OF h(1)] show ?thesis by blast
qed

text \<open>
  The kernel's side: \<open>open\<close> and \<open>accept\<close> answer a descriptor that is not open.
\<close>

fun kernel_fresh :: "int set \<Rightarrow> effect list \<Rightarrow> bool" where
  "kernel_fresh S [] = True"
| "kernel_fresh S (E_Open fd # es) = (fd \<notin> S \<and> kernel_fresh (insert fd S) es)"
| "kernel_fresh S (E_Accept fd # es) = (fd \<notin> S \<and> kernel_fresh (insert fd S) es)"
| "kernel_fresh S (E_Close fd # es) = kernel_fresh (S - {fd}) es"
| "kernel_fresh S (_ # es) = kernel_fresh S es"

lemma fresh_single:
  assumes "kernel_fresh S es" and "holds M es = Some M'" and "\<forall>x. count M x \<le> 1" and "set_mset M \<subseteq> S - P" and "P \<subseteq> S"
  shows "(\<forall>x. count M' x \<le> 1) \<and> set_mset M' \<inter> P = {}"
  using assms
proof (induction S es arbitrary: M rule: kernel_fresh.induct)
  case (2 S fd es)
  have "count M fd = 0" using 2 by (auto simp: count_eq_zero_iff)
  then have "\<forall>x. count (add_mset fd M) x \<le> 1" using 2 by simp
  moreover have "set_mset (add_mset fd M) \<subseteq> insert fd S - P" "P \<subseteq> insert fd S" using 2 by auto
  ultimately show ?case using 2 by simp
next
  case (3 S fd es)
  have "count M fd = 0" using 3 by (auto simp: count_eq_zero_iff)
  then have "\<forall>x. count (add_mset fd M) x \<le> 1" using 3 by simp
  moreover have "set_mset (add_mset fd M) \<subseteq> insert fd S - P" "P \<subseteq> insert fd S" using 3 by auto
  ultimately show ?case using 3 by simp
next
  case (4 S fd es)
  have fd: "fd \<in># M" and h: "holds (M - {#fd#}) es = Some M'" using 4 by (auto split: if_splits)
  have one: "count M x \<le> 1" for x using 4 by blast
  then have "fd \<notin># M - {#fd#}" by (metis One_nat_def count_diff count_single diff_is_0_eq not_in_iff)
  moreover have "count (M - {#fd#}) x \<le> 1" for x using one [of x] by simp
  moreover have "set_mset (M - {#fd#}) \<subseteq> set_mset M" by (meson in_diffD subsetI)
  moreover have "set_mset (M - {#fd#}) \<subseteq> S - {fd} - P" using 4(5) calculation(1,3) by blast
  moreover have "P \<subseteq> S - {fd}" using 4(5,6) fd by blast
  moreover have "kernel_fresh (S - {fd}) es" using 4(2) by simp
  ultimately show ?case using 4(1) h by blast
qed auto


lemma history_exclusive:
  assumes "history es el" and "kernel_fresh before es" and "i < MAX_CONNECTIONS"
  shows "(\<forall>fd. count (owned (conn_at i el)) fd \<le> 1) \<and> set_mset (owned (conn_at i el)) \<inter> before = {}
    \<and> (\<forall>j < MAX_CONNECTIONS. j \<noteq> i \<longrightarrow> owned (conn_at i el) \<inter># owned (conn_at j el) = {#})"
proof -
  obtain M where M: "holds {#} es = Some M" "held el \<subseteq># M" using history_covered [OF assms(1)] by (auto simp: covered_def)
  have f: "(\<forall>x. count M x \<le> 1) \<and> set_mset M \<inter> before = {}"
    by (rule fresh_single [OF assms(2) M(1)]) simp_all
  have two: "(\<forall>x. count N x \<le> 1) \<and> set_mset N \<inter> before = {}" if "N \<subseteq># held el" for N
  proof -
    have "N \<subseteq># M" using that M(2) by (rule subset_mset.trans)
    then have "count N x \<le> count M x" "set_mset N \<subseteq> set_mset M" for x
      by (simp_all add: mset_subset_eq_count set_mset_mono)
    then show ?thesis using f by (metis (no_types, lifting) Int_mono le_trans subset_empty subset_refl)
  qed
  have "owned (conn_at i el) \<inter># owned (conn_at j el) = {#}" if "j < MAX_CONNECTIONS" "j \<noteq> i" for j
  proof (rule multiset_eqI)
    fix x
    have "owned (conn_at i el) + owned (conn_at j el) \<subseteq># held el"
      using held_part [of "{i, j}" el] assms(3) that by simp
    then have "count (owned (conn_at i el)) x + count (owned (conn_at j el)) x \<le> 1"
      using two by (metis count_union)
    then show "count (owned (conn_at i el) \<inter># owned (conn_at j el)) x = count {#} x" by simp
  qed
  moreover have "owned (conn_at i el) \<subseteq># held el" using held_part [of "{i}" el] assms(3) by simp
  ultimately show ?thesis using two by blast
qed

text \<open>
  C10: no descriptor is shared.  As long as \<open>open\<close> and \<open>accept\<close> answer descriptors that are not open,
  at any time the sockets and files of the connections are all different from one another, and different from
  those the process had open before, the listener among them.
\<close>

theorem descriptors_exclusive:
  assumes "history es el" and "kernel_fresh before es" and "i < MAX_CONNECTIONS"
  shows "(\<forall>fd. count (owned (conn_at i el)) fd \<le> 1) \<and> set_mset (owned (conn_at i el)) \<inter> before = {}
    \<and> (\<forall>j < MAX_CONNECTIONS. j \<noteq> i \<longrightarrow> owned (conn_at i el) \<inter># owned (conn_at j el) = {#})"
  using assms by (rule history_exclusive)

lemma descriptors_exclusive_witness:
  "\<exists>el i. history [E_Accept 5] el \<and> owned (conn_at i el) = {#5#}
     \<and> (\<forall>j < MAX_CONNECTIONS. j \<noteq> i \<longrightarrow> {#5#} \<inter># owned (conn_at j el) = {#})"
proof -
  obtain el i where h: "history [E_Accept 5] el" "i < MAX_CONNECTIONS" "owned (conn_at i el) = {#5#}"
    using example_history by blast
  have "kernel_fresh {0, 1, 2, 3, 4} [E_Accept 5]" by simp
  from descriptors_exclusive [OF h(1) this h(2)] h(1,3) show ?thesis by metis
qed

end
