(* ===== verification/Sockets.thy ===== *)
theory Sockets
  imports Descriptors
begin

text \<open>
  Where the bytes go: every write of a handler is to the socket, or through the SSL object, of the connection
  the event is for; with the account of the descriptors, no answer reaches another client.
\<close>

subsection \<open>Whose socket\<close>

text \<open>Bytes leave by the socket of the connection, and in the clear only when it has no SSL object.\<close>

fun to_peer :: "connection \<Rightarrow> effect \<Rightarrow> bool" where
  "to_peer c (E_Send fd bs) \<longleftrightarrow> fd = cn_fd c \<and> cn_ssl c = None"
| "to_peer c (E_Sendfile file fd off n) \<longleftrightarrow> fd = cn_fd c \<and> cn_ssl c = None"
| "to_peer c (E_Ssl_Send s bs) \<longleftrightarrow> cn_ssl c = Some s"
| "to_peer c _ \<longleftrightarrow> True"

definition addressed :: "connection \<Rightarrow> effect list \<Rightarrow> bool" where
  "addressed c es \<longleftrightarrow> (\<forall>e \<in> set es. to_peer c e)"

lemma addressed_simps [simp]:
  "addressed c []" "addressed c (e # es) \<longleftrightarrow> to_peer c e \<and> addressed c es"
  "addressed c (es @ es') \<longleftrightarrow> addressed c es \<and> addressed c es'"
  by (auto simp: addressed_def)

lemma addressed_cong: "cn_fd c' = cn_fd c \<Longrightarrow> cn_ssl c' = cn_ssl c \<Longrightarrow> addressed c' es = addressed c es"
proof -
  assume "cn_fd c' = cn_fd c" "cn_ssl c' = cn_ssl c"
  then have "to_peer c' e = to_peer c e" for e by (cases e) simp_all
  then show ?thesis by (simp add: addressed_def)
qed

lemma conn_close_addressed: "conn_close c = (c', es) \<Longrightarrow> addressed x es"
  by (auto simp: conn_close_def close_file_def split: if_splits option.splits)

lemma closing_addressed: "closing c = (w, c', es) \<Longrightarrow> addressed x es"
  by (auto simp: closing_def split: prod.splits dest: conn_close_addressed)

lemma close_file_addressed: "close_file c = (c', es) \<Longrightarrow> addressed x es"
  by (auto simp: close_file_def split: if_splits)

lemma body_done_addressed: "body_done c = (w, c', es) \<Longrightarrow> addressed x es"
  by (auto simp: body_done_def split: prod.splits dest: close_file_addressed)

lemma socket_send_addressed: "socket_send io c buf = Sent n es \<Longrightarrow> addressed c es"
  by (auto simp: socket_send_def split: option.splits sys.splits ssl.splits)

lemma do_send_body_tls_addressed:
  assumes "do_send_body_tls io c = (w, c', es)"
  shows "addressed c es"
proof (cases "load_chunk io c")
  case (Inl r)
  then show ?thesis using assms
    by (auto simp: do_send_body_tls_def load_chunk_def Let_def dest: closing_addressed body_done_addressed
        split: if_splits sys.splits)
next
  case (Inr c1)
  then have same: "cn_fd c1 = cn_fd c" "cn_ssl c1 = cn_ssl c"
    by (auto simp: load_chunk_def Let_def split: if_splits sys.splits)
  show ?thesis using assms Inr addressed_cong [OF same]
    by (auto simp: do_send_body_tls_def Let_def waiting_def dest: closing_addressed socket_send_addressed
        split: send_result.splits)
qed

lemma do_send_body_addressed:
  assumes "do_send_body io c = (w, c', es)"
  shows "addressed c es"
  using assms do_send_body_tls_addressed [of io c w c' es]
  by (auto simp: do_send_body_def send_memory_body_def do_send_body_plain_def waiting_def Let_def
      dest: closing_addressed body_done_addressed socket_send_addressed
      split: if_splits send_result.splits sendfile_result.splits prod.splits)

lemma do_send_body_addressed':
  "do_send_body io (c\<lparr>cn_header_sent := n, cn_state := st\<rparr>) = (w, c', es) \<Longrightarrow> addressed c es"
  using do_send_body_addressed [of io "c\<lparr>cn_header_sent := n, cn_state := st\<rparr>" w c' es]
    addressed_cong [of "c\<lparr>cn_header_sent := n, cn_state := st\<rparr>" c es] by simp

lemma do_send_headers_addressed:
  assumes "do_send_headers io c = (w, c', es)"
  shows "addressed c es"
  using assms
  by (auto simp: do_send_headers_def Let_def waiting_def dest: closing_addressed socket_send_addressed do_send_body_addressed'
      split: send_result.splits if_splits prod.splits)

lemma do_read_addressed: "do_read io c = (w, c', es) \<Longrightarrow> addressed x es"
  by (auto simp: do_read_def received_def waiting_def Let_def dest: closing_addressed
      split: option.splits ssl.splits sys.splits if_splits)

lemma do_parse_addressed: "do_parse io c = (w, c', es) \<Longrightarrow> addressed x es"
  by (auto simp: do_parse_def waiting_def error_response_def Let_def split: prod.splits if_splits)

lemma do_tls_accept_addressed: "do_tls_accept io c = (w, c', es) \<Longrightarrow> addressed x es"
  by (auto simp: do_tls_accept_def waiting_def error_response_def Let_def split: ssl.splits)

lemma conn_action_addressed:
  assumes "conn_action io tls c = (w, c', es)"
  shows "addressed c es"
proof (cases "cn_state c")
  case PROTO_DETECT
  then show ?thesis using assms
    by (auto simp: conn_action_def do_proto_detect_def waiting_def error_response_def Let_def dest: closing_addressed
        split: sys.splits list.splits if_splits)
next
  case KEEP_ALIVE
  then show ?thesis using assms
    by (auto simp: conn_action_def conn_reset_def dest: close_file_addressed do_read_addressed split: prod.splits)
qed (use assms in \<open>auto simp: conn_action_def waiting_def
  dest: do_read_addressed do_parse_addressed do_tls_accept_addressed do_send_headers_addressed do_send_body_addressed\<close>)

lemma inject_ssl_addressed:
  "inject_ssl li tls (w, c, es) = (w', c', es') \<Longrightarrow> addressed x es \<Longrightarrow> addressed x es'"
  by (auto simp: inject_ssl_def Let_def dest: do_tls_accept_addressed split: if_splits option.splits prod.splits)

lemma inline_parse_addressed:
  "inline_parse io (w, c, es) = (w', c', es') \<Longrightarrow> addressed x es \<Longrightarrow> addressed x es'"
  by (auto simp: inline_parse_def dest: do_parse_addressed split: if_splits prod.splits)


lemma do_read_ssl: "do_read io c = (w, c', es) \<Longrightarrow> cn_state c' \<noteq> CLOSED \<Longrightarrow> cn_fd c' = cn_fd c \<and> cn_ssl c' = cn_ssl c"
  by (auto simp: do_read_def received_def waiting_def Let_def dest: closing_CLOSED
      split: option.splits ssl.splits sys.splits if_splits)

lemma conn_action_parsing_ssl:
  assumes "conn_action io tls c = (w, c', es)" and "cn_state c' = PARSING"
  shows "cn_ssl c' = cn_ssl c"
proof -
  have "cn_state c = READING \<or> cn_state c = KEEP_ALIVE \<or> cn_state c = PARSING"
    using conn_action_states [OF assms(1)] assms(2) by (cases "cn_state c") simp_all
  then show ?thesis using assms
    by (auto simp: conn_action_def do_parse_def waiting_def error_response_def prepare_headers_def Let_def
        dest!: do_read_ssl conn_reset_state split: prod.splits if_splits)
qed

lemma inline_parse_ssl:
  "inline_parse io (w, c, es) = (w', c', es') \<Longrightarrow> cn_ssl c' = cn_ssl c"
  by (auto simp: inline_parse_def do_parse_def waiting_def error_response_def prepare_headers_def Let_def
      split: if_splits prod.splits)

lemma respond_addressed:
  assumes "respond li root (w, c, es) = Inr (w', c', es')" and "conn_inv c" and "addressed x es"
    and "cn_state c = PARSING \<Longrightarrow> cn_fd c = cn_fd x \<and> cn_ssl c = cn_ssl x"
  shows "addressed x es'"
proof (cases "(cn_state c = PARSING \<or> cn_state c = READING) \<and> rq_method (cn_request c) \<noteq> UNKNOWN")
  case False
  then show ?thesis using assms(1,3) by (auto simp: respond_def)
next
  case True
  then have st: "cn_state c = PARSING" using assms(2) by (auto simp: conn_inv_def idle_def)
  then have base: "conn_base c" "unsent c" "cn_state c \<noteq> CLOSED" using assms(2) by (simp_all add: conn_inv_def)
  obtain c1 es1 where p: "prepare_response (li_server li) root c = Inr (c1, es1)"
    using assms(1) True by (cases "prepare_response (li_server li) root c") (auto simp: respond_def)
  then obtain w2 es2 where d: "do_send_headers (li_io li) c1 = (w2, c', es2)" "es' = es @ es1 @ es2"
    using assms(1) True by (auto simp: respond_def split: prod.splits)
  have "addressed x es1" using prepare_response_shape [OF p] by auto
  moreover have "addressed x es2" using do_send_headers_addressed [OF d(1)] prepare_response_safe(5,6) [OF p base]
      assms(4) [OF st] addressed_cong [of c1 x es2] by simp
  ultimately show ?thesis using assms(3) d(2) by simp
qed

lemma destroy_connection_addressed: "destroy_connection i el = Inr (el', es) \<Longrightarrow> addressed x es"
  by (auto simp: destroy_connection_def Let_def split: prod.splits sum.splits dest: conn_close_addressed)

lemma process_connection_addressed:
  assumes "loop_inv el" and "i < MAX_CONNECTIONS" and "io_ok (li_io li)" and "process_connection li i el = Inr (el', es)"
  shows "addressed (conn_at i el) es"
proof (cases "cn_state (conn_at i el) = CLOSED")
  case True
  then show ?thesis using assms(4) by (simp add: process_connection_def)
next
  case False
  let ?c = "conn_at i el"
  obtain w0 c0 es0 where act: "conn_action (li_io li) (el_tls_ctx el \<noteq> None) ?c = (w0, c0, es0)"
    by (cases "conn_action (li_io li) (el_tls_ctx el \<noteq> None) ?c")
  note sent = conn_action_addressed [OF act]
  from assms False show ?thesis
  proof (cases rule: process_connection_cases)
    case (destroyed w c es1 es2)
    then show ?thesis
      using inject_ssl_addressed [OF destroyed(1) [unfolded act] sent] destroy_connection_addressed [OF destroyed(4)] by simp
  next
    case (kept w c es1 w1 c1 es2 w2 c2)
    have c1: "conn_inv c1" "cn_fd c1 = cn_fd ?c" using kept(4,5) by (simp_all add: step_ok.simps)
    have "cn_ssl c1 = cn_ssl ?c" if st: "cn_state c1 = PARSING"
    proof -
      have "cn_state c = PARSING" using inline_parse_no_file [OF kept(3) st] by blast
      then have "c = c0" "cn_state c0 = PARSING" using inject_ssl_parsing [OF kept(1) [unfolded act]] by simp_all
      then show ?thesis using inline_parse_ssl [OF kept(3)] conn_action_parsing_ssl [OF act] by simp
    qed
    moreover have "addressed ?c es2"
      using inline_parse_addressed [OF kept(3) inject_ssl_addressed [OF kept(1) [unfolded act] sent]] .
    ultimately show ?thesis using respond_addressed [OF kept(6) c1(1)] c1(2) by blast
  qed
qed


lemma accept_loop_addressed: "accept_loop now fds el = (el', es) \<Longrightarrow> addressed x es"
  by (induction now fds el arbitrary: es rule: accept_loop.induct) (auto split: if_splits prod.splits option.splits)

lemma timer_loop_addressed:
  assumes "timer_loop now t cur el es = Some (Inr (el', es'))" and "addressed x es"
  shows "addressed x es'"
proof -
  have "\<forall>el' es'. r = Inr (el', es') \<longrightarrow> addressed x es \<longrightarrow> addressed x es'"
    if "timer_loop now t cur el es = Some r" for r
    using that
  proof (rule timer_loop.raw_induct [rotated])
    fix loop now t cur el es r
    assume ih: "\<And>now t cur el es r. loop now t cur el es = Some r \<Longrightarrow>
        \<forall>el' es'. r = Inr (el', es') \<longrightarrow> addressed x es \<longrightarrow> addressed x es'"
      and step: "(case cur of None \<Rightarrow> Some (Inr (el, es))
        | Some i \<Rightarrow> let nxt = cn_next (conn_at i el) in
            if is_expired now t (conn_at i el)
            then case destroy_connection i el of Inl u \<Rightarrow> Some (Inl u) | Inr (el', es') \<Rightarrow> loop now t nxt el' (es @ es')
            else loop now t nxt el es) = Some r"
    then show "\<forall>el' es'. r = Inr (el', es') \<longrightarrow> addressed x es \<longrightarrow> addressed x es'"
      by (auto simp: Let_def dest: destroy_connection_addressed dest!: ih split: option.splits if_splits sum.splits)
  qed
  then show ?thesis using assms by blast
qed

lemma dispatch_sends:
  assumes "loop_inv el" and "event_ok el li ev" and "dispatch li ev el = Some (Inr (el', es))"
    and "\<not> to_peer x e" and "e \<in> set es"
  shows "\<exists>i < MAX_CONNECTIONS. ke_udata ev = Conn i \<and> cn_state (conn_at i el) \<noteq> CLOSED \<and> to_peer (conn_at i el) e"
proof -
  have none: "\<not> addressed x es" using assms(4,5) by (auto simp: addressed_def)
  have ok: "\<not> (EV_ERROR \<in> ke_flags ev \<or> EV_EOF \<in> ke_flags ev)"
    using assms(3) none by (auto simp: dispatch_def dest: destroy_connection_addressed split: udata.splits)
  then obtain i where u: "ke_udata ev = Conn i"
    using assms(3) none accept_loop_addressed timer_loop_addressed [of _ _ _ el "[]"]
    by (auto simp: dispatch_def handle_accept_def handle_timer_def split: udata.splits)
  then have i: "i < MAX_CONNECTIONS" "io_ok (li_io li)" and p: "process_connection li i el = Inr (el', es)"
    using assms(2,3) ok by (simp_all add: event_ok_def dispatch_def)
  have "cn_state (conn_at i el) \<noteq> CLOSED" using p none by (auto simp: process_connection_def)
  then show ?thesis using process_connection_addressed [OF assms(1) i p] assms(5) i(1) u by (auto simp: addressed_def)
qed

text \<open>
  C9: an answer reaches the client that asked.  As long as the kernel answers descriptors that are not
  open, whatever is written to a socket is written while an event of the connection that owns
  this socket is handled, no other connection holds the descriptor, and a connection with an SSL object never
  sends a byte in the clear.
\<close>

theorem bytes_reach_own_client:
  assumes "history es el" and "kernel_fresh before es" and "event_ok el li ev" and "dispatch li ev el = Some (Inr (el', es'))"
    and "E_Send fd bs \<in> set es' \<or> E_Sendfile file fd off n \<in> set es'"
  shows "\<exists>i < MAX_CONNECTIONS. ke_udata ev = Conn i \<and> fd = cn_fd (conn_at i el) \<and> cn_ssl (conn_at i el) = None
    \<and> (\<forall>j < MAX_CONNECTIONS. j \<noteq> i \<longrightarrow> fd \<notin># owned (conn_at j el))"
proof -
  have inv: "loop_inv el" by (rule reachable_inv [OF history_reachable [OF assms(1)]])
  let ?x = "conn_default\<lparr>cn_ssl := Some 0\<rparr>"
  obtain e where e: "e \<in> set es'" "e = E_Send fd bs \<or> e = E_Sendfile file fd off n" using assms(5) by blast
  then have "\<not> to_peer ?x e" by auto
  from dispatch_sends [OF inv assms(3,4) this e(1)] obtain i where i: "i < MAX_CONNECTIONS" "ke_udata ev = Conn i"
    "cn_state (conn_at i el) \<noteq> CLOSED" "to_peer (conn_at i el) e" by blast
  have "0 \<le> cn_fd (conn_at i el)" using inv i(1,3) by (auto simp: loop_inv_def loop_base_def conn_inv_def conn_base_def)
  moreover have fd: "fd = cn_fd (conn_at i el)" "cn_ssl (conn_at i el) = None" using i(4) e(2) by auto
  ultimately have "fd \<in># owned (conn_at i el)" by (simp add: owned_def)
  moreover have "owned (conn_at i el) \<inter># owned (conn_at j el) = {#}" if "j < MAX_CONNECTIONS" "j \<noteq> i" for j
    using history_exclusive [OF assms(1,2) i(1)] that by blast
  ultimately have "fd \<notin># owned (conn_at j el)" if "j < MAX_CONNECTIONS" "j \<noteq> i" for j
    using that by (metis disjunct_not_in)
  then show ?thesis using i(1,2) fd by blast
qed


lemma bytes_reach_own_client_witness:
  "\<exists>el el' es i bs. dispatch (example_io (io_input []) []) (example_event (Conn i)) el = Some (Inr (el', es)) \<and> E_Send 5 bs \<in> set es
     \<and> (\<forall>j < MAX_CONNECTIONS. j \<noteq> i \<longrightarrow> 5 \<notin># owned (conn_at j el))"
proof -
  let ?li = "example_io (io_input []) []"
  obtain el i el' es bs where h: "history [E_Accept 5] el" "i < MAX_CONNECTIONS"
    and d: "dispatch ?li (example_event (Conn i)) el = Some (Inr (el', es))" "E_Send 5 bs \<in> set es"
    using example_history by blast
  have "kernel_fresh {0, 1, 2, 3, 4} [E_Accept 5]" by simp
  moreover have "event_ok el ?li (example_event (Conn i))" using h(2) io_input_ok by (simp add: event_ok_def example_event_def example_io_def)
  ultimately obtain j where "ke_udata (example_event (Conn i)) = Conn j"
    "\<forall>k < MAX_CONNECTIONS. k \<noteq> j \<longrightarrow> 5 \<notin># owned (conn_at k el)"
    using bytes_reach_own_client [OF h(1) _ _ d(1) disjI1 [OF d(2)]] by blast
  then have "\<forall>k < MAX_CONNECTIONS. k \<noteq> i \<longrightarrow> 5 \<notin># owned (conn_at k el)" by (simp add: example_event_def)
  then show ?thesis using d by blast
qed

end
