(* ===== verification/Cli.thy ===== *)
theory Cli
  imports C_Library
begin

text \<open>
  \<open>src/server/cli.h\<close>: the command line.  A message on \<open>std::cerr\<close> followed by
  \<open>std::exit(1)\<close> is the error value that carries the message's argument.
\<close>

subsection \<open>The configuration\<close>

record server_config =
  cfg_root_dir :: string
  cfg_port :: "16 word"
  cfg_cert_file :: "string option"
  cfg_key_file :: "string option"
  cfg_keep_alive_timeout :: int
  cfg_help :: bool
  cfg_version :: bool

definition config_default :: server_config where
  "config_default = \<lparr>cfg_root_dir = [], cfg_port = 8080, cfg_cert_file = None, cfg_key_file = None,
     cfg_keep_alive_timeout = 75, cfg_help = False, cfg_version = False\<rparr>"

datatype cli_error = Requires_Value string | Unknown_Option string | Cert_Without_Key

fun cli_message :: "cli_error \<Rightarrow> string" where
  "cli_message (Requires_Value arg) = ''error: '' @ arg @ '' requires a value'' @ [LF]"
| "cli_message (Unknown_Option arg) = ''error: unknown option: '' @ arg @ [LF]"
| "cli_message Cert_Without_Key = ''error: --cert and --key must be used together'' @ [LF]"

subsection \<open>Parsing\<close>

text \<open>
  \<open>std::atoi\<close>: \<open>strtol\<close> in base 10; C++ leaves a value outside \<open>int\<close> undefined.
\<close>

definition int_min :: int where "int_min = - (2 ^ 31)"
definition int_max :: int where "int_max = 2 ^ 31 - 1"

definition atoi :: "string \<Rightarrow> int cpp" where
  "atoi s = (let v = fst (strtol 10 s) in if int_min \<le> v \<and> v \<le> int_max then Inr v else Inl Signed_Overflow)"

fun parse_loop :: "string list \<Rightarrow> server_config \<Rightarrow> (cli_error + server_config) cpp" where
  "parse_loop [] cfg = Inr (Inr cfg)"
| "parse_loop (arg # rest) cfg =
     (if arg = ''--help'' \<or> arg = ''-h'' then parse_loop rest (cfg\<lparr>cfg_help := True\<rparr>)
      else if arg = ''--version'' then parse_loop rest (cfg\<lparr>cfg_version := True\<rparr>)
      else case rest of
        [] \<Rightarrow> Inr (Inl (Requires_Value arg))
      | val # rest' \<Rightarrow>
          if arg = ''--root'' then parse_loop rest' (cfg\<lparr>cfg_root_dir := val\<rparr>)
          else if arg = ''--port'' then
            (case atoi val of Inl u \<Rightarrow> Inl u | Inr n \<Rightarrow> parse_loop rest' (cfg\<lparr>cfg_port := word_of_int n\<rparr>))
          else if arg = ''--cert'' then parse_loop rest' (cfg\<lparr>cfg_cert_file := Some val\<rparr>)
          else if arg = ''--key'' then parse_loop rest' (cfg\<lparr>cfg_key_file := Some val\<rparr>)
          else if arg = ''--timeout'' then
            (case atoi val of Inl u \<Rightarrow> Inl u | Inr n \<Rightarrow> parse_loop rest' (cfg\<lparr>cfg_keep_alive_timeout := n\<rparr>))
          else Inr (Inl (Unknown_Option arg)))"

definition parse_args :: "string list \<Rightarrow> (cli_error + server_config) cpp" where
  "parse_args args =
     (case parse_loop (drop 1 args) config_default of
        Inl u \<Rightarrow> Inl u
      | Inr (Inl e) \<Rightarrow> Inr (Inl e)
      | Inr (Inr cfg) \<Rightarrow>
          if (cfg_cert_file cfg \<noteq> None) \<noteq> (cfg_key_file cfg \<noteq> None) then Inr (Inl Cert_Without_Key)
          else Inr (Inr (if cfg_root_dir cfg = [] then cfg\<lparr>cfg_root_dir := ''.''\<rparr> else cfg)))"

definition help_lines :: "string list" where
  "help_lines = [''Options:'',
     ''  --root <dir>     Root directory to serve (default: .)'',
     ''  --port <num>     Port to listen on (default: 8080)'',
     ''  --cert <file>    TLS certificate file (PEM)'',
     ''  --key <file>     TLS private key file (PEM)'',
     ''  --timeout <sec>  Keep-Alive timeout (default: 75)'',
     ''  --version        Show version'',
     ''  --help, -h       Show this help'']"

definition print_help :: "string \<Rightarrow> string" where
  "print_help prog = ''Usage: '' @ prog @ '' [options]'' @ [LF] @ concat (map (\<lambda>l. l @ [LF]) help_lines)"

subsection \<open>Reading decimal numbers back\<close>

lemma base_digit_10 [simp]: "base_digit 10 = is_digit"
  by (rule ext) (auto simp: base_digit_def digit_of_def is_digit_def Let_def)

lemma digits_val_10: "list_all is_digit s \<Longrightarrow> digits_val 10 s = decimal_val s"
proof -
  have "list_all is_digit s \<Longrightarrow>
     foldl (\<lambda>a c. a * 10 + (case digit_of c of None \<Rightarrow> 0 | Some d \<Rightarrow> int d)) x s
       = foldl (\<lambda>a c. a * 10 + digit_val c) x s" for x
    by (induction s arbitrary: x) (auto simp: digit_of_def is_digit_def digit_val_def Let_def)
  then show "list_all is_digit s \<Longrightarrow> digits_val 10 s = decimal_val s"
    by (simp add: digits_val_def decimal_val_def)
qed

lemma digit_char: "is_digit c \<Longrightarrow> c \<noteq> NUL \<and> \<not> is_space c \<and> c \<noteq> CHR ''-'' \<and> c \<noteq> CHR ''+''"
  by (auto simp: is_digit_def is_space_def)

lemma strtol_digits:
  assumes "list_all is_digit s" and "s \<noteq> []" and "decimal_val s \<le> off_max" and "0 \<le> decimal_val s"
  shows "fst (strtol 10 s) = decimal_val s" and "fst (strtol 10 (CHR ''-'' # s)) = - decimal_val s"
proof -
  have p: "c \<noteq> NUL" "\<not> is_space c" "is_digit c" "c \<noteq> CHR ''-''" "c \<noteq> CHR ''+''" if "c \<in> set s" for c
    using assms(1) that digit_char [of c] by (auto simp: list_all_iff)
  have t: "takeWhile (\<lambda>c. c \<noteq> NUL) s = s" "takeWhile is_digit s = s" using p by simp_all
  have w: "takeWhile is_space s = []" and h: "hd s \<noteq> CHR ''-''" "hd s \<noteq> CHR ''+''"
    using p assms(2) by (cases s; auto)+
  have m: "max off_min (min off_max (decimal_val s)) = decimal_val s"
    "max off_min (min off_max (- decimal_val s)) = - decimal_val s"
    using assms(3,4) by (auto simp: off_min_def off_max_def)
  show "fst (strtol 10 s) = decimal_val s"
    by (simp add: strtol_def Let_def t w h m assms(2) digits_val_10 [OF assms(1)])
  show "fst (strtol 10 (CHR ''-'' # s)) = - decimal_val s"
    by (simp add: strtol_def Let_def t m assms(2) digits_val_10 [OF assms(1)] is_space_def)
qed

lemma atoi_string_of_int:
  assumes "int_min \<le> n" and "n \<le> int_max"
  shows "atoi (string_of_int n) = Inr n"
  using assms strtol_digits [OF string_of_nat_digits, of "nat n"] strtol_digits [OF string_of_nat_digits, of "nat (- n)"]
  by (auto simp: atoi_def string_of_int_def Let_def int_min_def int_max_def off_max_def decimal_val_string_of_nat)


subsection \<open>What a command line means\<close>

datatype cli_option =
  Opt_Root string | Opt_Port int | Opt_Cert string | Opt_Key string | Opt_Timeout int | Opt_Help | Opt_Version

fun option_words :: "cli_option \<Rightarrow> string list" where
  "option_words (Opt_Root dir) = [''--root'', dir]"
| "option_words (Opt_Port n) = [''--port'', string_of_int n]"
| "option_words (Opt_Cert path) = [''--cert'', path]"
| "option_words (Opt_Key path) = [''--key'', path]"
| "option_words (Opt_Timeout n) = [''--timeout'', string_of_int n]"
| "option_words Opt_Help = [''--help'']"
| "option_words Opt_Version = [''--version'']"

fun apply_option :: "cli_option \<Rightarrow> server_config \<Rightarrow> server_config" where
  "apply_option (Opt_Root dir) cfg = cfg\<lparr>cfg_root_dir := dir\<rparr>"
| "apply_option (Opt_Port n) cfg = cfg\<lparr>cfg_port := word_of_int n\<rparr>"
| "apply_option (Opt_Cert path) cfg = cfg\<lparr>cfg_cert_file := Some path\<rparr>"
| "apply_option (Opt_Key path) cfg = cfg\<lparr>cfg_key_file := Some path\<rparr>"
| "apply_option (Opt_Timeout n) cfg = cfg\<lparr>cfg_keep_alive_timeout := n\<rparr>"
| "apply_option Opt_Help cfg = cfg\<lparr>cfg_help := True\<rparr>"
| "apply_option Opt_Version cfg = cfg\<lparr>cfg_version := True\<rparr>"

fun option_in_range :: "cli_option \<Rightarrow> bool" where
  "option_in_range (Opt_Port n) \<longleftrightarrow> int_min \<le> n \<and> n \<le> int_max"
| "option_in_range (Opt_Timeout n) \<longleftrightarrow> int_min \<le> n \<and> n \<le> int_max"
| "option_in_range opt \<longleftrightarrow> True"

lemma parse_loop_option:
  "option_in_range opt \<Longrightarrow> parse_loop (option_words opt @ rest) cfg = parse_loop rest (apply_option opt cfg)"
  by (cases opt) (simp_all add: atoi_string_of_int)

lemma parse_loop_options:
  "\<forall>opt \<in> set opts. option_in_range opt \<Longrightarrow>
   parse_loop (concat (map option_words opts)) cfg = Inr (Inr (fold apply_option opts cfg))"
  by (induction opts arbitrary: cfg) (simp_all add: parse_loop_option)

text \<open>
  C38: the options take effect in the order they are given, the last of a kind wins, a port is
  taken modulo 65536, and the result is refused exactly when one of \<open>--cert\<close> and \<open>--key\<close> is
  there without the other.
\<close>

theorem parse_args_render:
  assumes "\<forall>opt \<in> set opts. option_in_range opt"
  defines "cfg \<equiv> fold apply_option opts config_default"
  shows "parse_args (prog # concat (map option_words opts)) =
    Inr (if (cfg_cert_file cfg = None) \<noteq> (cfg_key_file cfg = None) then Inl Cert_Without_Key
         else Inr (cfg\<lparr>cfg_root_dir := (if cfg_root_dir cfg = [] then ''.'' else cfg_root_dir cfg)\<rparr>))"
  using parse_loop_options [OF assms(1), of config_default]
  by (auto simp: parse_args_def cfg_def)

lemma parse_args_render_witness:
  "parse_args [''srv'', ''--port'', string_of_int 70000, ''--root'', ''/www'', ''--timeout'', string_of_int 5]
     = Inr (Inr (config_default\<lparr>cfg_port := 4464, cfg_root_dir := ''/www'', cfg_keep_alive_timeout := 5\<rparr>))"
  using parse_args_render [of "[Opt_Port 70000, Opt_Root ''/www'', Opt_Timeout 5]" "''srv''"]
  by (simp add: int_min_def int_max_def config_default_def)

text \<open>
  Whatever the command line, a configuration that is accepted has a root directory, and a
  certificate exactly when it has a key.
\<close>

theorem parse_args_complete:
  "case parse_args args of
     Inr (Inr cfg) \<Rightarrow> cfg_root_dir cfg \<noteq> [] \<and> (cfg_cert_file cfg = None \<longleftrightarrow> cfg_key_file cfg = None)
   | _ \<Rightarrow> True"
  by (auto simp: parse_args_def split: sum.split)

end
