(* ===== verification/Signals.thy ===== *)
theory Signals
  imports Loop_Run
begin

text \<open>
  The signals of \<open>EventLoop::run\<close> (\<open>src/core/event_loop.cpp\<close>) and the global flag \<open>g_running\<close>
  with its handler (\<open>src/core/event_loop.h\<close>).  \<open>run\<close> of the theory \<open>Event_Loop\<close> takes the value of
  the flag at each test of the \<open>while\<close> loop as given; here these values come from the signals that are
  delivered between two tests.
\<close>

subsection \<open>Dispositions and delivery\<close>

datatype signal = SIGINT | SIGTERM | SIGPIPE | Other_Signal nat

datatype disposition = Default_Action | Ignored | Handled

text \<open>The calls of \<open>signal\<close> and \<open>sigaction\<close> that precede the loop.\<close>

definition install_signals :: "(signal \<Rightarrow> disposition) \<Rightarrow> signal \<Rightarrow> disposition" where
  "install_signals d = d(SIGPIPE := Ignored, SIGINT := Handled, SIGTERM := Handled)"

text \<open>The handler: the value it leaves in \<open>g_running\<close>, whose initial value is 1.\<close>

definition g_running_init :: int where
  "g_running_init = 1"

definition handle_signal :: "signal \<Rightarrow> int \<Rightarrow> int" where
  "handle_signal s g_running = 0"

text \<open>
  Signals delivered one after the other; \<open>None\<close> is the end of the process by a default action
  (of the signals named here every default action is to terminate).
\<close>

fun deliver :: "(signal \<Rightarrow> disposition) \<Rightarrow> signal list \<Rightarrow> int \<Rightarrow> int option" where
  "deliver d [] g = Some g"
| "deliver d (s # sigs) g =
     (case d s of
        Default_Action \<Rightarrow> None
      | Ignored \<Rightarrow> deliver d sigs g
      | Handled \<Rightarrow> deliver d sigs (handle_signal s g))"

text \<open>
  A round pairs the signals delivered since the previous test of the flag with the answer of
  \<open>kevent\<close> in it.  \<open>observed\<close> turns the signals into the values the tests see.
\<close>

fun observed :: "(signal \<Rightarrow> disposition) \<Rightarrow> int \<Rightarrow> (signal list \<times> kevent_answer) list \<Rightarrow> (bool \<times> kevent_answer) list option" where
  "observed d g [] = Some []"
| "observed d g ((sigs, answer) # rounds) =
     (case deliver d sigs g of
        None \<Rightarrow> None
      | Some g' \<Rightarrow> map_option ((#) (g' \<noteq> 0, answer)) (observed d g' rounds))"

definition run_with_signals ::
  "(signal \<Rightarrow> disposition) \<Rightarrow> (signal list \<times> kevent_answer) list \<Rightarrow> event_loop
   \<Rightarrow> (event_loop \<times> effect list \<times> kevent list list) cpp option option" where
  "run_with_signals d rounds el =
     map_option (\<lambda>rs. run rs el) (observed (install_signals d) g_running_init rounds)"

subsection \<open>Installed handlers\<close>

abbreviation expected :: "signal set" where
  "expected \<equiv> {SIGINT, SIGTERM, SIGPIPE}"

abbreviation shutdown :: "signal set" where
  "shutdown \<equiv> {SIGINT, SIGTERM}"

lemma install_signals_simps [simp]:
  "install_signals d SIGPIPE = Ignored"
  "install_signals d SIGINT = Handled"
  "install_signals d SIGTERM = Handled"
  "install_signals d (Other_Signal n) = d (Other_Signal n)"
  by (simp_all add: install_signals_def)

lemma deliver_installed:
  assumes "set sigs \<subseteq> expected"
  shows "deliver (install_signals d) sigs g = Some (if set sigs \<inter> shutdown = {} then g else 0)"
  using assms by (induction sigs arbitrary: g) (auto simp: handle_signal_def)

lemma deliver_without_pipe:
  "deliver (install_signals d) (filter (\<lambda>s. s \<noteq> SIGPIPE) sigs) g = deliver (install_signals d) sigs g"
  by (induction sigs arbitrary: g) (auto split: disposition.split)

lemma observed_without_pipe:
  "observed (install_signals d) g (map (\<lambda>(sigs, a). (filter (\<lambda>s. s \<noteq> SIGPIPE) sigs, a)) rounds)
   = observed (install_signals d) g rounds"
  by (induction rounds arbitrary: g) (auto simp: deliver_without_pipe split: option.split)

lemma observed_installed:
  assumes "\<forall>(sigs, a) \<in> set rounds. set sigs \<subseteq> expected"
  shows "\<exists>rs. observed (install_signals d) g rounds = Some rs"
  using assms by (induction rounds arbitrary: g) (fastforce simp: deliver_installed)+

text \<open>Once the flag is down it stays down.\<close>

lemma observed_append:
  assumes "observed (install_signals d) g (pre @ (sigs, a) # post) = Some rs"
    and "set sigs \<subseteq> expected" and "set sigs \<inter> shutdown \<noteq> {}"
  shows "\<exists>xs ys. rs = xs @ (False, a) # ys \<and> observed (install_signals d) g pre = Some xs"
  using assms
proof (induction pre arbitrary: g rs)
  case Nil
  then show ?case by (auto simp: deliver_installed split: option.splits)
next
  case (Cons r pre)
  obtain sigs' a' where r: "r = (sigs', a')" by (cases r)
  from Cons.prems(1) obtain g' rs' where g': "deliver (install_signals d) sigs' g = Some g'"
    and rs': "observed (install_signals d) g' (pre @ (sigs, a) # post) = Some rs'" "rs = (g' \<noteq> 0, a') # rs'"
    by (auto simp: r split: option.splits)
  from Cons.IH [OF rs'(1) Cons.prems(2,3)] obtain xs ys
    where "rs' = xs @ (False, a) # ys" "observed (install_signals d) g' pre = Some xs" by blast
  then show ?case using g' rs'(2) by (intro exI [of _ "(g' \<noteq> 0, a') # xs"] exI [of _ ys]) (simp add: r)
qed

lemma run_until_flag: "run (xs @ (False, a) # ys) el = run xs el"
proof (induction xs arbitrary: el)
  case (Cons r xs)
  show ?case by (cases r) (auto simp: Let_def Cons.IH split: kevent_answer.split option.split sum.split)
qed simp

subsection \<open>The property\<close>

text \<open>
  C40: shutting down on a signal.  After \<open>install_signals\<close> none of the three signals ends the process.
  A \<open>SIGINT\<close> or \<open>SIGTERM\<close> ends the loop at its next test of the flag: the run is exactly the run of the
  rounds before the signal, whatever the kernel would have reported later, so the batch
  in hand is completed and no further one begun.  A \<open>SIGPIPE\<close>, raised by
  writing to a connection the peer has closed, changes nothing at all.
\<close>

theorem shutdown_on_signal:
  assumes "\<forall>(sigs, a) \<in> set (pre @ (sigs, a) # post). set sigs \<subseteq> expected"
    and "s \<in> set sigs" and "s = SIGINT \<or> s = SIGTERM"
  shows "run_with_signals d (pre @ (sigs, a) # post) el = run_with_signals d pre el
    \<and> (\<exists>r. run_with_signals d pre el = Some r)
    \<and> run_with_signals d (map (\<lambda>(sigs, a). (filter (\<lambda>s. s \<noteq> SIGPIPE) sigs, a)) pre) el = run_with_signals d pre el"
proof -
  obtain rs where rs: "observed (install_signals d) g_running_init (pre @ (sigs, a) # post) = Some rs"
    using observed_installed [OF assms(1)] by blast
  have "set sigs \<subseteq> expected" "set sigs \<inter> shutdown \<noteq> {}" using assms by auto
  from observed_append [OF rs this] obtain xs ys
    where "rs = xs @ (False, a) # ys" "observed (install_signals d) g_running_init pre = Some xs" by blast
  with rs show ?thesis by (simp add: run_with_signals_def run_until_flag observed_without_pipe)
qed

lemma shutdown_on_signal_witness:
  "\<exists>r. run_with_signals (\<lambda>_. Default_Action) [([SIGPIPE], Kq_EINTR), ([SIGPIPE, SIGTERM], Kq_Error), ([], Kq_Events [])] example_start = Some r"
  using shutdown_on_signal [of "[([SIGPIPE], Kq_EINTR)]" "[SIGPIPE, SIGTERM]" Kq_Error "[([], Kq_Events [])]" SIGTERM
      "\<lambda>_. Default_Action" example_start] by auto

end
