(* ===== verification/Server_Main.thy ===== *)
theory Server_Main
  imports Cli Signals
begin

text \<open>
  \<open>src/main.cpp\<close>: the listening socket and the main function.  The answers of the calls into the
  kernel and OpenSSL are the record \<open>main_io\<close>; what the program does to the outside is a list of
  \<open>main_effect\<close>s, the work of the event loop being one of them.
\<close>

subsection \<open>The environment\<close>

record main_io =
  mi_socket :: int
  mi_bind :: "int \<Rightarrow> 16 word \<Rightarrow> int"
  mi_listen :: "int \<Rightarrow> int"
  mi_ssl_ctx :: "nat option"
  mi_use_cert :: "string \<Rightarrow> int"
  mi_use_key :: "string \<Rightarrow> int"
  mi_check_key :: int
  mi_kqueue :: int
  mi_fs :: fs
  mi_dispositions :: "signal \<Rightarrow> disposition"
  mi_rounds :: "(signal list \<times> kevent_answer) list"

datatype main_effect =
  M_Socket int | M_Reuse_Address int | M_Bind int "16 word" | M_Listen int | M_Close int | M_Perror string
| M_Close_Queue int | M_Out string | M_Err string | M_Tls_New nat | M_Tls_Free nat | M_Loop "effect list" "kevent list list"

subsection \<open>The listening socket\<close>

definition create_listener :: "main_io \<Rightarrow> 16 word \<Rightarrow> int \<times> main_effect list" where
  "create_listener mi port =
     (let fd = mi_socket mi in
      if fd < 0 then (-1, [M_Perror ''socket''])
      else let es = [M_Socket fd, M_Reuse_Address fd] in
      if mi_bind mi fd port < 0 then (-1, es @ [M_Perror ''bind'', M_Close fd])
      else if mi_listen mi fd < 0 then (-1, es @ [M_Bind fd port, M_Perror ''listen'', M_Close fd])
      else (fd, es @ [M_Bind fd port, M_Listen fd]))"

subsection \<open>The main function\<close>

definition VERSION_STR :: string where
  "VERSION_STR = ''file_web_server '' @ ''1.0.0'' @ '' (kqueue + HTTP/1.1 + optional TLS)''"

definition string_of_port :: "16 word \<Rightarrow> string" where
  "string_of_port port = string_of_nat (unat port)"

text \<open>The loop from its construction to its destruction; \<open>None\<close> is also the end of the process by a signal.\<close>

definition serve :: "main_io \<Rightarrow> server_config \<Rightarrow> tls_context \<Rightarrow> int \<Rightarrow> main_effect list cpp option" where
  "serve mi cfg tls listen_fd =
     (let el = event_loop_init (mi_kqueue mi) (mi_fs mi) (cfg_root_dir cfg) (cfg_keep_alive_timeout cfg);
          el = (if tls_usable tls then set_tls_context (Some tls) el else el);
          (el, changes) = add_listener listen_fd el
      in case run_with_signals (mi_dispositions mi) (mi_rounds mi) el of None \<Rightarrow> None | Some result \<Rightarrow>
         map_option (map_sum id (\<lambda>(el, es, cs).
           M_Loop es (changes # cs) # M_Close listen_fd # M_Out ([LF] @ ''Server shut down.'' @ [LF])
             # map M_Close_Queue (event_loop_destroy el))) result)"

text \<open>Loading the certificate, when both files are given; \<open>Inl\<close> is the early return.\<close>

definition setup_tls :: "main_io \<Rightarrow> server_config \<Rightarrow> tls_context \<Rightarrow> main_effect list + tls_context \<times> main_effect list" where
  "setup_tls mi cfg tls =
     (case (cfg_cert_file cfg, cfg_key_file cfg) of
        (Some cert, Some key) \<Rightarrow>
          (case load_certificate (mi_use_cert mi) (mi_use_key mi) (mi_check_key mi) cert key tls of
             (False, tls) \<Rightarrow> Inl [M_Err (''error: failed to load TLS certificate'' @ [LF])]
           | (True, tls) \<Rightarrow> Inr (tls, [M_Out (''TLS enabled (cert: '' @ cert @ '', key: '' @ key @ '')'' @ [LF])]))
      | _ \<Rightarrow> Inr (tls, []))"

text \<open>The exit code and the effects, or undefined behaviour; \<open>None\<close> is a handler that never returns or a signal that ends the process.\<close>

definition server_main :: "main_io \<Rightarrow> string list \<Rightarrow> (int \<times> main_effect list) cpp option" where
  "server_main mi args =
     (case parse_args args of
        Inl u \<Rightarrow> Some (Inl u)
      | Inr (Inl e) \<Rightarrow> Some (Inr (1, [M_Err (cli_message e)]))
      | Inr (Inr cfg) \<Rightarrow>
          if cfg_version cfg then Some (Inr (0, [M_Out (VERSION_STR @ [LF])]))
          else if cfg_help cfg then Some (Inr (0, [M_Out (print_help (hd args))]))
          else case create_listener mi (cfg_port cfg) of (listen_fd, es) \<Rightarrow>
          if listen_fd < 0 then Some (Inr (1, es))
          else let es = es @ [M_Out (''Listening on port '' @ string_of_port (cfg_port cfg) @ '', serving: '' @ cfg_root_dir cfg @ [LF])];
                   tls = fst (tls_create (mi_ssl_ctx mi));
                   es = es @ map M_Tls_New (tls_destroy tls);
                   free = map M_Tls_Free (tls_destroy tls)
          in case setup_tls mi cfg tls of
               Inl err \<Rightarrow> Some (Inr (1, es @ err @ [M_Close listen_fd] @ free))
             | Inr (tls, out) \<Rightarrow>
                 map_option (map_sum id (\<lambda>es'. (0, es @ out @ es' @ free))) (serve mi cfg tls listen_fd))"


subsection \<open>What is left open\<close>

fun sockets_opened :: "main_effect list \<Rightarrow> int list" where
  "sockets_opened [] = []"
| "sockets_opened (M_Socket fd # es) = fd # sockets_opened es"
| "sockets_opened (e # es) = sockets_opened es"

fun sockets_closed :: "main_effect list \<Rightarrow> int list" where
  "sockets_closed [] = []"
| "sockets_closed (M_Close fd # es) = fd # sockets_closed es"
| "sockets_closed (e # es) = sockets_closed es"

fun contexts_made :: "main_effect list \<Rightarrow> nat list" where
  "contexts_made [] = []"
| "contexts_made (M_Tls_New t # es) = t # contexts_made es"
| "contexts_made (e # es) = contexts_made es"

fun contexts_freed :: "main_effect list \<Rightarrow> nat list" where
  "contexts_freed [] = []"
| "contexts_freed (M_Tls_Free t # es) = t # contexts_freed es"
| "contexts_freed (e # es) = contexts_freed es"

lemma account_append [simp]:
  "sockets_opened (es @ es') = sockets_opened es @ sockets_opened es'"
  "sockets_closed (es @ es') = sockets_closed es @ sockets_closed es'"
  "contexts_made (es @ es') = contexts_made es @ contexts_made es'"
  "contexts_freed (es @ es') = contexts_freed es @ contexts_freed es'"
proof -
  show "sockets_opened (es @ es') = sockets_opened es @ sockets_opened es'" by (induction es rule: sockets_opened.induct) simp_all
  show "sockets_closed (es @ es') = sockets_closed es @ sockets_closed es'" by (induction es rule: sockets_closed.induct) simp_all
  show "contexts_made (es @ es') = contexts_made es @ contexts_made es'" by (induction es rule: contexts_made.induct) simp_all
  show "contexts_freed (es @ es') = contexts_freed es @ contexts_freed es'" by (induction es rule: contexts_freed.induct) simp_all
qed

lemma account_map [simp]:
  "sockets_opened (map M_Tls_New ts) = []" "sockets_closed (map M_Tls_New ts) = []"
  "contexts_made (map M_Tls_New ts) = ts" "contexts_freed (map M_Tls_New ts) = []"
  "sockets_opened (map M_Tls_Free ts) = []" "sockets_closed (map M_Tls_Free ts) = []"
  "contexts_made (map M_Tls_Free ts) = []" "contexts_freed (map M_Tls_Free ts) = ts"
  "sockets_opened (map M_Close_Queue fds) = []" "sockets_closed (map M_Close_Queue fds) = []"
  "contexts_made (map M_Close_Queue fds) = []" "contexts_freed (map M_Close_Queue fds) = []"
  by (induction ts; simp)+ (induction fds; simp)+

abbreviation settled :: "main_effect list \<Rightarrow> bool" where
  "settled es \<equiv> sockets_closed es = sockets_opened es \<and> contexts_freed es = contexts_made es"

lemma create_listener_account:
  assumes "create_listener mi port = (fd, es)"
  shows "contexts_made es = []" and "contexts_freed es = []"
    and "fd < 0 \<Longrightarrow> sockets_closed es = sockets_opened es" and "0 \<le> fd \<Longrightarrow> sockets_closed es = [] \<and> sockets_opened es = [fd]"
  using assms by (auto simp: create_listener_def Let_def split: if_splits)

lemma setup_tls_account:
  shows "setup_tls mi cfg tls = Inl es \<Longrightarrow>
      sockets_opened es = [] \<and> sockets_closed es = [] \<and> contexts_made es = [] \<and> contexts_freed es = []"
    and "setup_tls mi cfg tls = Inr (tls', es) \<Longrightarrow>
      sockets_opened es = [] \<and> sockets_closed es = [] \<and> contexts_made es = [] \<and> contexts_freed es = []"
  by (auto simp: setup_tls_def split: option.splits prod.splits bool.splits)

lemma serve_account:
  "serve mi cfg tls fd = Some (Inr es) \<Longrightarrow>
     sockets_opened es = [] \<and> sockets_closed es = [fd] \<and> contexts_made es = [] \<and> contexts_freed es = []"
  by (auto simp: serve_def Let_def map_sum_Inr_iff split: prod.splits option.splits)

text \<open>
  C39: however the server ends, the listening socket and the OpenSSL context it made are given back,
  each exactly once, and it ends with 0 or 1.
\<close>

theorem server_main_cleans_up:
  assumes "server_main mi args = Some (Inr (code, es))"
  shows "sockets_closed es = sockets_opened es \<and> contexts_freed es = contexts_made es \<and> (code = 0 \<or> code = 1)"
proof (cases "\<exists>cfg fd es0. parse_args args = Inr (Inr cfg) \<and> \<not> cfg_version cfg \<and> \<not> cfg_help cfg
    \<and> create_listener mi (cfg_port cfg) = (fd, es0)")
  case False
  then show ?thesis using assms
    by (auto simp: server_main_def split: sum.splits if_splits prod.splits)
next
  case True
  then obtain cfg fd es0 where cfg: "parse_args args = Inr (Inr cfg)" "\<not> cfg_version cfg" "\<not> cfg_help cfg"
    and l: "create_listener mi (cfg_port cfg) = (fd, es0)" by blast
  note la = create_listener_account [OF l]
  let ?tls = "fst (tls_create (mi_ssl_ctx mi))"
  show ?thesis
  proof (cases "fd < 0")
    case True
    then show ?thesis using assms cfg l la by (simp add: server_main_def)
  next
    case False
    show ?thesis
    proof (cases "setup_tls mi cfg ?tls")
      case (Inl err)
      then show ?thesis using assms cfg l la False setup_tls_account(1) [OF Inl]
        by (simp add: server_main_def Let_def) auto
    next
      case (Inr r)
      obtain tls out where r: "r = (tls, out)" by (cases r)
      obtain es' where s: "serve mi cfg tls fd = Some (Inr es')"
        using assms cfg l False Inr r by (auto simp: server_main_def Let_def map_sum_Inr_iff)
      then show ?thesis using assms cfg l la False Inr r setup_tls_account(2) [OF Inr [unfolded r]] serve_account [OF s]
        by (simp add: server_main_def Let_def) auto
    qed
  qed
qed


definition example_main :: "string \<Rightarrow> main_io" where
  "example_main dir = \<lparr>mi_socket = 3, mi_bind = (\<lambda>fd port. if port = 80 then -1 else 0), mi_listen = (\<lambda>_. 0), mi_ssl_ctx = Some 1,
     mi_use_cert = (\<lambda>_. 1), mi_use_key = (\<lambda>_. 1), mi_check_key = 1, mi_kqueue = 4,
     mi_fs = example_fs Regular, mi_dispositions = \<lambda>_. Default_Action, mi_rounds = [([SIGPIPE, SIGTERM], Kq_EINTR)]\<rparr>"

lemma server_main_cleans_up_witness:
  "\<exists>es. server_main (example_main ''/w'') [''srv''] = Some (Inr (0, es)) \<and> M_Socket 3 \<in> set es
     \<and> contexts_freed es = contexts_made es"
proof -
  obtain es where es: "server_main (example_main ''/w'') [''srv''] = Some (Inr (0, es))" "M_Socket 3 \<in> set es"
    by (simp add: server_main_def example_main_def parse_args_def config_default_def create_listener_def
        setup_tls_def serve_def Let_def tls_create_def tls_destroy_def tls_usable_def case_prod_beta
        run_with_signals_def g_running_init_def handle_signal_def)
  then show ?thesis using server_main_cleans_up [OF es(1)] by blast
qed

end
