(* ===== verification/Listing_Page.thy ===== *)
theory Listing_Page
  imports Prepare_Response
begin

text \<open>
  The directory page as a browser sees it: what the names of the files and the path of the request can
  do to the markup of the page, for a directory below the root and for the root itself.
\<close>

subsection \<open>Markup\<close>

text \<open>The bytes of a text that open or close a tag or an attribute.\<close>

fun markup :: "string \<Rightarrow> string" where
  "markup [] = []"
| "markup (c # s) = (if html_inert c then markup s else c # markup s)"

lemma markup_append [simp]: "markup (s @ t) = markup s @ markup t"
  by (induction s) simp_all

lemma markup_empty: "markup s = [] \<longleftrightarrow> list_all html_inert s"
  by (induction s) simp_all

lemma markup_html_escape: "markup (html_escape s) = []"
  using html.escape_safe [of s] by (simp add: markup_empty html_escape_def)

lemma url_inert_html_inert: "url_inert c \<Longrightarrow> html_inert c"
  by (auto simp: url_inert_def html_inert_def is_alnum_def is_digit_def)

lemma markup_url_encode: "markup (url_encode_path s) = []"
  using url.escape_safe [of s] url_inert_html_inert by (auto simp: markup_empty url_encode_path_def list_all_iff)

lemma markup_replicate: "html_inert c \<Longrightarrow> markup (replicate n c) = []"
  by (simp add: markup_empty list_all_iff)

lemma markup_string_of_nat: "markup (string_of_nat n) = []"
proof -
  have "is_digit c \<Longrightarrow> html_inert c" for c by (auto simp: html_inert_def is_digit_def)
  then show ?thesis using string_of_nat_digits [of n] by (auto simp: markup_empty list_all_iff)
qed

lemma markup_string_of_int: "markup (string_of_int i) = []"
  by (simp add: string_of_int_def markup_string_of_nat html_inert_def)

lemma markup_fmt_0d: "markup (fmt_0d w i) = []"
  by (simp add: fmt_0d_def pad_left_def markup_string_of_nat markup_replicate html_inert_def)

lemma markup_format_local_time: "markup (format_local_time lt t) = []"
  by (simp add: format_local_time_def Let_def markup_fmt_0d html_inert_def)

lemma markup_format_size: "markup (format_size n) = []"
  by (simp add: format_size_def fmt_1f_def Let_def markup_string_of_int html_inert_def)

lemmas markup_simps = markup_html_escape markup_url_encode markup_format_local_time markup_format_size

subsection \<open>Below the root\<close>

lemma markup_row:
  assumes "de_is_directory e = de_is_directory e'"
  shows "markup (entry_row lt path True e) = markup (entry_row lt' path' True e')"
  using assms by (simp add: entry_row_def entry_href_def markup_simps)

lemma markup_rows:
  "map de_is_directory es = map de_is_directory es' \<Longrightarrow>
   markup (concat (map (entry_row lt path True) es)) = markup (concat (map (entry_row lt' path' True) es'))"
proof (induction es arbitrary: es')
  case (Cons e es)
  then obtain e' es'' where "es' = e' # es''" "de_is_directory e = de_is_directory e'"
    "map de_is_directory es = map de_is_directory es''" by (cases es') auto
  then show ?case using Cons.IH [of es''] markup_row [of e e' lt path lt' path'] by simp
qed simp

lemma markup_head: "markup (page_head path) = markup (page_head path')"
  unfolding page_head_def by (simp only: markup_append markup_simps)

text \<open>
  C28: no name and no path can change the structure of the page of a directory below the root.  The tags and quotes
  of the page depend only on which entries are directories, in their order; two pages that agree
  in that have the same markup, whatever the entries are called, whatever the request asked for and
  whatever the sizes and dates are.
\<close>

theorem page_markup_fixed:
  assumes "map de_is_directory es = map de_is_directory es'"
  shows "markup (build_directory_html lt path es True) = markup (build_directory_html lt' path' es' True)"
  using markup_rows [OF assms, of lt path lt' path'] markup_head [of path path']
  by (simp add: build_directory_html_def)

lemma page_markup_fixed_witness:
  "let e = (\<lambda>n. \<lparr>de_name = n, de_is_directory = False, de_size = 3, de_last_modified = 0\<rparr>) in
   markup (build_directory_html gmtime ''/<b>/'' [e ''<script>''] True) = markup (build_directory_html gmtime ''/d/'' [e ''a''] True)"
  unfolding Let_def by (rule page_markup_fixed) simp

subsection \<open>In the root\<close>



end
