(* ===== verification/Debug_Log.thy ===== *)
theory Debug_Log
  imports Prelude
begin

text \<open>
  \<open>src/core/debug_log.h\<close>: the prefix of the lines the debug build writes to standard error.  The loop
  of \<open>detail::filename\<close> walks a pointer over the path and remembers the place behind the last slash; pointers into the
  path are the rest of the string from there.  The release build writes nothing.
\<close>

fun filename_loop :: "string \<Rightarrow> string \<Rightarrow> string" where
  "filename_loop slash [] = slash"
| "filename_loop slash (c # path) = filename_loop (if c = CHR ''/'' then path else slash) path"

definition filename :: "string \<Rightarrow> string" where
  "filename path = filename_loop path path"

definition debug_line :: "string \<Rightarrow> nat \<Rightarrow> string \<Rightarrow> string \<Rightarrow> string" where
  "debug_line path line func message =
     ''['' @ filename path @ '':'' @ string_of_nat line @ '' '' @ func @ ''()] '' @ message @ [LF]"

text \<open>The loop finds what \<open>rfind\<close> finds: the part behind the last slash, or all of it.\<close>

lemma filename_loop_plain: "CHR ''/'' \<notin> set path \<Longrightarrow> filename_loop slash path = slash"
  by (induction slash path rule: filename_loop.induct) auto

lemma filename_loop_last: "CHR ''/'' \<notin> set name \<Longrightarrow> filename_loop slash (dir @ CHR ''/'' # name) = name"
  by (induction dir arbitrary: slash) (simp_all add: filename_loop_plain)

theorem filename_rfind:
  "filename path = (case rfind_char CHR ''/'' path of None \<Rightarrow> path | Some i \<Rightarrow> drop (i + 1) path)
   \<and> CHR ''/'' \<notin> set (filename path)"
proof (cases "CHR ''/'' \<in> set path")
  case False
  then show ?thesis using rfind_char_None_iff [of "CHR ''/''" path] by (simp add: filename_def filename_loop_plain)
next
  case True
  then obtain dir name where p: "path = dir @ CHR ''/'' # name" "CHR ''/'' \<notin> set name" by (meson split_list_last)
  then have "rfind_char CHR ''/'' path = Some (length dir)" by (simp add: rfind_char_append)
  with p show ?thesis by (simp add: filename_def filename_loop_last)
qed

end
