(* ===== verification/Spec2Isabelle.thy ===== *)
theory Spec2Isabelle
  imports Loop_Tls Loop_Slots Sockets Server_Main Listing_Page Debug_Log
begin

text \<open>
  A verification of the file web server: an HTTP/1.1 server for static files, one thread around
  \<open>kqueue\<close>, with TLS by OpenSSL (sources under \<open>src/src\<close>).

  \<^bold>\<open>The program and the theories.\<close>  A \<open>string\<close> is a list of bytes; machine integers that wrap are
  words, \<open>off_t\<close> and \<open>time_t\<close> are integers whose overflow, undefined in C++, is a value of the
  type \<open>cpp\<close> (\<open>Prelude\<close>).  \<open>C_Library\<close> has \<open>strtol\<close> and the \<open>printf\<close> conversions the
  program uses, \<open>C_Time\<close> the civil calendar of \<open>gmtime_r\<close> and \<open>timegm\<close>.

  \<^item> \<open>Http_Request\<close>: \<open>http/http_request.{h,cpp}\<close>, the parser and the queries on a request.
  \<^item> \<open>Http_Response\<close>: \<open>http/http_response.{h,cpp}\<close>, the response and its serialisation.
  \<^item> \<open>Mime_Types\<close>: \<open>http/mime_types.h\<close>, the table and its binary search.
  \<^item> \<open>Path_Normalize\<close>, \<open>File_Server\<close>, \<open>Escaping\<close>, \<open>Dir_Listing\<close>: \<open>server/file_server.{h,cpp}\<close>,
    from a request path to a descriptor or a listing page.
  \<^item> \<open>Connection_Pool\<close>: \<open>core/connection_pool.h\<close>, slots handed out from a stack of free indices.
  \<^item> \<open>System_Calls\<close>: the answers of the kernel and of OpenSSL (\<open>io\<close>), the effects of a step, and
    what the manual pages promise (\<open>io_ok\<close>, \<open>files_ok\<close>).
  \<^item> \<open>Connection\<close>: \<open>core/connection.{h,cpp}\<close>, every \<open>do_*\<close> member as a function from the answers and the
    connection to the wanted event, the connection and the effects.
  \<^item> \<open>Tls_Context\<close>: \<open>core/tls_context.h\<close>.
  \<^item> \<open>Loop_State\<close>, \<open>Prepare_Response\<close>, \<open>Event_Loop\<close>: \<open>core/event_loop.{h,cpp}\<close>, its state, the
    changes it submits, the intrusive keep-alive list, \<open>prepare_response\<close>, the handlers, the dispatch
    and the main loop.  A \<open>Connection*\<close> is the index of its slot.
  \<^item> \<open>Signals\<close>: the handlers \<open>EventLoop::run\<close> installs and the flag \<open>g_running\<close>, which give the rounds of the loop.
  \<^item> \<open>Cli\<close>, \<open>Server_Main\<close>: \<open>server/cli.h\<close> and \<open>main.cpp\<close>.
  \<^item> \<open>Debug_Log\<close>: \<open>core/debug_log.h\<close>, the line a debug build writes.

  \<^bold>\<open>What is shown.\<close>  \<open>Connection_Safety\<close>: every operation of a connection keeps its invariant and accounts
  for every descriptor and SSL object.  \<open>Connection_Delivery\<close>: a response is sent completely and in
  order, and gets done if the calls make progress.  \<open>Connection_Read\<close>: reading does not depend on
  how the input is cut.  \<open>Keepalive_List\<close>: the pointers implement a list without duplicates, the
  interface \<open>member_list\<close>; the pool implements the interface \<open>slot_pool\<close>.  \<open>Loop_Invariant\<close> and
  \<open>Loop_Safety\<close>: the handlers keep the invariant of the loop.  \<open>Loop_Run\<close>: the reachable states as
  an inductive set, and whole runs.  \<open>Loop_Handlers\<close>: what the timer, the acceptance and an
  action of a connection achieve.  \<open>Response_Spec\<close>: the answer a request is due and its bytes, and that
  \<open>prepare_response\<close> refines it.  \<open>Listing_Page\<close>: what file names and paths can do to the markup of the listing.
  \<open>Loop_Events\<close>: an event as one connection sees it (nothing, or a move along the state table).
  \<open>Descriptors\<close>: an account of every descriptor over the history of a run.  \<open>Sockets\<close>: where the bytes go.
  \<open>Loop_Service\<close>: requests through the loop, the first of a connection and the following ones, from
  the bytes that arrive (\<open>arrives\<close>, \<open>arrives_whole\<close>) over interleaved events to the bytes of the answer, with or without
  TLS.  \<open>Loop_Completion\<close>: enough events that make progress get the whole answer out.
  \<open>Loop_Rounds\<close>: the queued changes are never read, so a run does what the events of its rounds do one after the other; with it the
  service of requests is stated of \<open>EventLoop::run\<close>.
  \<open>Client_Reader\<close>: a client that knows only the protocol reads back any answer the program sends.  \<open>Loop_Sessions\<close> and
  \<open>Loop_Tls\<close> put these together: whole sessions of many requests on one connection, in the clear or from the ClientHello of
  TLS on, are answered in order, and the stream of bytes reads back as exactly these answers.
  \<open>Loop_Deviations\<close> and \<open>Loop_Slots\<close>: where the loop does not do what its comments say, or loses a slot, a client
  or a piece of a request.  This theory adds the case of a request with further input behind it.

  \<^bold>\<open>Loops and bounds.\<close>  The loops over a string, the options and the descriptors of \<open>accept\<close> are structural.
  The walk of the timer follows pointers while it removes nodes and is a partial function, \<open>None\<close>
  being a walk that never ends; it is proved to end in every reachable state.  The rounds of the
  main loop are given by the environment, and a list of them is any prefix of a run.  The read
  buffer of a connection holds at most 65536 bytes and one read of 4096 more.

  \<^bold>\<open>Hypotheses.\<close>  The kernel and OpenSSL are parameters: \<open>io_ok\<close> (no call reads or writes more than
  it was asked), \<open>files_ok\<close> (a file does not change while it is sent) and, for the end of a
  response only, \<open>makes_progress\<close>.  Two properties suppose that \<open>open\<close> and \<open>accept\<close> answer descriptors that are not open
  (\<open>kernel_fresh\<close>).  The requests of \<open>Loop_Service\<close> come over connections whose calls do not fail and which take the
  headers at once (\<open>cooperative\<close>), and are due the same answer at each event (\<open>favourable\<close>).  In a session
  (\<open>served_in_full\<close>) a request is sent when the answer before it is complete, and there are more events than the answer has
  bytes, each of which takes some of it.  The clock stands still while one event is handled.
  An event is admissible (\<open>event_ok\<close>) when it names a slot of the pool and, if it reports an error or
  the end of a stream, a lent one; the program does not ensure the latter within one batch.

  \<^bold>\<open>Not modelled.\<close>  The lines of the debug log as effects of the handlers (a release build writes none), the options set by \<open>fcntl\<close> and \<open>setsockopt\<close>, exhaustion of
  memory, the contents of an address, the iterators of the pool (unused), and the test scripts.
\<close>

subsection \<open>From the bytes of a request to the bytes of the answer\<close>

lemma unsent_shut: "unsent (c\<lparr>cn_fd := fd, cn_ssl := ssl, cn_state := st\<rparr>) = unsent c"
  by (simp add: unsent_def)

lemma closing_unsent: "unsent (fst (snd (closing c))) = unsent c"
proof -
  obtain c' es where f: "close_file c = (c', es)" by (cases "close_file c")
  then have "unsent c' = unsent c" by (auto simp: close_file_def unsent_def split: if_splits)
  then have "unsent (fst (conn_close c)) = unsent c"
    using f by (cases "cn_state c = CLOSED") (simp_all add: conn_close_def Let_def unsent_shut)
  then show ?thesis by (simp add: closing_def split: prod.split)
qed

lemma unsent_simps:
  "unsent (fst (snd (waiting w c))) = unsent c"
  "unsent (c\<lparr>cn_read_buf := bs\<rparr>) = unsent c" "unsent (c\<lparr>cn_last_active := t\<rparr>) = unsent c"
  "unsent (c\<lparr>cn_headers_complete := b, cn_state := st\<rparr>) = unsent c"
  by (simp_all add: waiting_def unsent_def)

lemma do_read_unsent: "unsent (fst (snd (do_read io c))) = unsent c"
proof -
  have "unsent (fst (snd (received bs c))) = unsent c" for bs c
    by (simp add: received_def Let_def unsent_simps closing_unsent)
  then show ?thesis
    by (simp add: do_read_def Let_def unsent_simps closing_unsent split: option.split ssl.split sys.split)
qed

lemma read_run_unsent: "unsent (read_run ios c) = unsent c"
proof (induction ios arbitrary: c)
  case (Cons io ios)
  obtain w c' es where r: "do_read io c = (w, c', es)" by (cases "do_read io c")
  then show ?case using Cons.IH [of c'] do_read_unsent [of io c] by simp
qed simp

text \<open>A request for a whole file.\<close>

definition asks_whole :: "http_request \<Rightarrow> bool" where
  "asks_whole req \<longleftrightarrow> rq_method req = GET \<and> header req ''range'' = [] \<and> header req ''if-modified-since'' = []"

lemma prepare_whole_file:
  assumes "asks_whole (cn_request c)" and "open_file (si_fs si) root (rq_path (cn_request c)) = Inr info"
  shows "prepare_response si root c = Inr (file_response si info None False (answering c), [E_Open (fi_fd info)])"
proof -
  have "rq_method (cn_request c) \<noteq> UNKNOWN" using assms(1) by (simp add: asks_whole_def)
  from prepare_response_file [OF this assms(2)] assms(1) show ?thesis
    by (simp add: asks_whole_def parse_if_modified_since_def parse_range_def)
qed

lemma pending_file_response:
  assumes "0 \<le> fi_fd info" and "0 \<le> fi_size info" and "length (content (fi_fd info)) = nat (fi_size info)" and "unsent c"
  shows "pending_response content (file_response si info None False c)
    = build_headers (io_time (si_io si)) (cn_response (file_response si info None False c)) @ content (fi_fd info)"
proof -
  let ?c = "file_response si info None False c"
  have "cn_header_buf ?c = build_headers (io_time (si_io si)) (cn_response ?c)" "cn_header_sent ?c = 0"
    by (simp_all add: file_response_def Let_def prepare_headers_def set_send_file_def release_fd_def)
  moreover have "pending_body content ?c = content (fi_fd info)"
    using assms by (simp add: pending_body_def unsent_def)
  ultimately show ?thesis using assms(1) by (simp add: pending_response_def)
qed

text \<open>
  The same for any input after the request, up to the preparation of the answer: a request for a file
  that exists, without a range or a date to compare, however it is cut into pieces, is
  read, parsed and answered with 200; what is then to be sent is the header block followed by
  exactly the bytes of the file.
\<close>

theorem get_request_served:
  assumes "conn_inv c" and "cn_state c = READING" and "cn_ssl c = None" and "cn_read_buf c = []"
    and "segments (cn_fd c) ios (render_request ''GET'' p v hs @ rest)"
    and "length (render_request ''GET'' p v hs @ rest) \<le> 65536"
    and "plain_token p" and "CR \<notin> set v" and "\<forall>h \<in> set hs. plain_header h" and "hs \<noteq> []"
    and "\<forall>h \<in> set hs. map tolower (fst h) \<noteq> ''range'' \<and> map tolower (fst h) \<noteq> ''if-modified-since''"
    and "open_file (si_fs si) root p = Inr info" and "0 \<le> fi_size info"
    and "length (content (fi_fd info)) = nat (fi_size info)"
  shows "\<exists>c'. prepare_response si root (fst (snd (do_parse (si_io si) (read_run ios c)))) = Inr (c', [E_Open (fi_fd info)])
    \<and> rs_status (cn_response c') = ST_OK
    \<and> pending_response content c' = build_headers (io_time (si_io si)) (cn_response c') @ content (fi_fd info)"
proof -
  let ?input = "render_request ''GET'' p v hs @ rest"
  let ?req = "\<lparr>rq_method = GET, rq_raw_method = ''GET'', rq_path = p, rq_version = v,
    rq_headers = map stored_header (butlast hs)\<rparr>"
  have parse: "parse_request r ?input = (True, ?req)" for r
    using parse_request_wire [of "''GET''" p v hs r rest] assms(7-10) by (simp add: plain_token_def method_of_def)
  have "find_str CRLFCRLF ?input \<noteq> None"
    using parse [of request_init] by (auto simp: parse_request_def split: option.splits)
  then have "cn_read_buf c @ ?input = ?input" "find_str CRLFCRLF (cn_read_buf c @ ?input) \<noteq> None" using assms(4) by simp_all
  moreover have "gathered (cn_read_buf c @ ?input) (read_run ios c)"
    using assms(4,6) by (intro read_run_segments [OF assms(2,3,5)]) simp_all
  ultimately obtain tl where buf: "?input = cn_read_buf (read_run ios c) @ tl"
    "find_str CRLFCRLF (cn_read_buf (read_run ios c)) \<noteq> None" unfolding gathered_def by auto
  let ?c1 = "(read_run ios c)\<lparr>cn_request := ?req\<rparr>"
  have c1: "fst (snd (do_parse (si_io si) (read_run ios c))) = ?c1"
    using parse parse_request_append [OF buf(2), of _ tl] by (simp add: do_parse_def buf(1) [symmetric] waiting_def)
  have uns: "unsent ?c1" using assms(1,2) read_run_unsent [of ios c] by (simp add: conn_inv_def unsent_def)
  have "header ?req ''range'' = []" "header ?req ''if-modified-since'' = []"
    using assms(11) in_set_butlastD by (fastforce intro!: header_absent simp: stored_header_def)+
  then have asks: "asks_whole (cn_request ?c1)" by (simp add: asks_whole_def)
  have o: "open_file (si_fs si) root (rq_path (cn_request ?c1)) = Inr info" using assms(12) by simp
  have "unsent (answering ?c1)" using uns by (simp add: unsent_def)
  note pend = pending_file_response [where content = content, OF open_file_fd [OF o] assms(13,14) this]
  show ?thesis unfolding c1 using prepare_whole_file [OF asks o] pend
    by (intro exI [of _ "file_response si info None False (answering ?c1)"]) simp
qed

lemma get_request_served_witness:
  defines "input \<equiv> render_request ''GET'' ''/a.txt'' ''HTTP/1.1'' [(''Host'', ''x'')] @ []"
  defines "c \<equiv> conn_default\<lparr>cn_fd := 5, cn_state := READING\<rparr>"
  shows "\<exists>c'. prepare_response example_si ''/srv'' (fst (snd (do_parse (si_io example_si)
      (read_run [io_idle, io_input input] c)))) = Inr (c', [E_Open 7])
    \<and> pending_response (\<lambda>_. ''hello'') c' = build_headers 0 (cn_response c') @ ''hello''"
proof -
  have c: "conn_inv c" "cn_state c = READING" "cn_ssl c = None" "cn_read_buf c = []"
    by (simp_all add: c_def conn_default_def conn_inv_defs request_init_def response_init_def)
  have seg: "segments (cn_fd c) [io_idle, io_input input] input" and len: "length input \<le> 65536"
    by (simp_all add: input_def io_idle_def io_input_def render_request_def lines_block_def render_header_def)
  have plain: "plain_token ''/a.txt''" "CR \<notin> set ''HTTP/1.1''" "\<forall>h \<in> set [(''Host'', ''x'')]. plain_header h"
    "\<forall>h \<in> set [(''Host'', ''x'')]. map tolower (fst h) \<noteq> ''range'' \<and> map tolower (fst h) \<noteq> ''if-modified-since''"
    by (simp_all add: plain_token_def plain_header_def)
  have o: "open_file (si_fs example_si) ''/srv'' ''/a.txt'' = Inr \<lparr>fi_fd = 7, fi_size = 5, fi_last_modified = 9,
      fi_mime_type = ''text/plain'', fi_resolved_path = ''/srv/a.txt''\<rparr>"
    using example_request_open [of "[]"] by (simp add: example_request_def)
  have t: "io_time (si_io example_si) = 0" by (simp add: example_si_def io_idle_def)
  from get_request_served [OF c seg [unfolded input_def] len [unfolded input_def] plain(1-3) _ plain(4) o, of "\<lambda>_. ''hello''"]
  show ?thesis unfolding t input_def file_info.simps by auto
qed

end
